(* ===== verification/Parlo_Prelude.thy ===== *)
theory Parlo_Prelude
  imports Main "HOL-Library.Word" "HOL-Library.Signed_Division"
begin

unbundle bit_operations_syntax

text \<open>
  The vocabulary the other theories share: the machine integers of the library (bytes, the
  16-bit length field, the 32-bit counters), the exceptions the code can raise, the checked
  64-bit arithmetic of std::chrono, the collections of facts the component proofs use, and
  generic lemmas on lists and results.
\<close>

section \<open>Types\<close>

type_synonym byte = "8 word"
type_synonym bytes = "byte list"
type_synonym u16 = "16 word"
type_synonym i32 = "32 word"
type_synonym i64 = "64 word"

text \<open>
  What a call can end with instead of a value: the standard exceptions the code throws (with
  their messages), the std::bad_weak_ptr of a shared_from_this() on an object no shared_ptr owns,
  the std::system_error of a failed socket or thread operation, a call of std::terminate,
  undefined behaviour of the language, and a loop that does not return.
\<close>

datatype exn =
    Invalid_argument string
  | Overflow_error string
  | Out_of_range string
  | Runtime_error string
  | Bad_weak_ptr
  | System_error
  | Std_terminate string
  | Undefined_behaviour string
  | Diverges

type_synonym 'a result = "exn + 'a"

text \<open>
  The facts the component proofs share: \<open>result_simps\<close> unfolds sequencing of results,
  \<open>codec_simps\<close> the byte encodings, \<open>frame_simps\<close> the framing of packets, \<open>client_simps\<close>
  the operations of the network client.
\<close>

named_theorems result_simps
named_theorems codec_simps
named_theorems frame_simps
named_theorems client_simps

section \<open>Results\<close>

text \<open>Statements in sequence: the second runs only where the first raised nothing.\<close>

primrec and_then :: "'a result \<Rightarrow> ('a \<Rightarrow> 'b result) \<Rightarrow> 'b result" where
  "and_then (Inl e) f = Inl e"
| "and_then (Inr x) f = f x"

definition is_ok :: "'a result \<Rightarrow> bool" where
  "is_ok r = (case r of Inl _ \<Rightarrow> False | Inr _ \<Rightarrow> True)"

lemma is_ok_simps [simp]:
  "is_ok (Inl e) = False"
  "is_ok (Inr x) = True"
  by (simp_all add: is_ok_def)

lemma is_ok_iff: "is_ok r \<longleftrightarrow> (\<exists>x. r = Inr x)"
  by (cases r) auto

lemma and_then_Inr_iff [result_simps]:
  "and_then r f = Inr y \<longleftrightarrow> (\<exists>x. r = Inr x \<and> f x = Inr y)"
  by (cases r) auto

lemma and_then_Inl_iff [result_simps]:
  "and_then r f = Inl e \<longleftrightarrow> r = Inl e \<or> (\<exists>x. r = Inr x \<and> f x = Inl e)"
  by (cases r) auto

lemma and_then_assoc: "and_then (and_then r f) g = and_then r (\<lambda>x. and_then (f x) g)"
  by (cases r) auto

lemma and_then_cong [fundef_cong]:
  "r = r' \<Longrightarrow> (\<And>x. r' = Inr x \<Longrightarrow> f x = g x) \<Longrightarrow> and_then r f = and_then r' g"
  by (cases r') auto

section \<open>Signed 64-bit arithmetic\<close>

text \<open>
  The counts of std::chrono are signed 64-bit integers. The model keeps them as integers and
  checks the range where the code computes: a result that does not fit is undefined behaviour.
\<close>

definition in_i64 :: "int \<Rightarrow> bool" where
  "in_i64 x \<longleftrightarrow> - (2 ^ 63) \<le> x \<and> x < 2 ^ 63"

definition checked_i64 :: "int \<Rightarrow> int result" where
  "checked_i64 x = (if in_i64 x then Inr x else Inl (Undefined_behaviour ''signed overflow''))"

lemma checked_i64_Inr_iff [result_simps]: "checked_i64 x = Inr y \<longleftrightarrow> y = x \<and> in_i64 x"
  by (auto simp: checked_i64_def)

lemma checked_i64_ok [simp]: "in_i64 x \<Longrightarrow> checked_i64 x = Inr x"
  by (simp add: checked_i64_def)

lemma in_i64_I [intro]: "\<bar>x\<bar> < 2 ^ 63 \<Longrightarrow> in_i64 x"
  by (auto simp: in_i64_def)

text \<open>duration_cast to a coarser unit truncates towards zero and stays in range.\<close>

lemma sdiv_mult_abs_le:
  fixes x n :: int
  assumes "0 < n"
  shows "\<bar>(x sdiv n) * n\<bar> \<le> \<bar>x\<bar>"
proof -
  have "\<bar>(x sdiv n) * n\<bar> = \<bar>sgn x\<bar> * ((\<bar>x\<bar> div n) * n)"
    using assms by (simp add: signed_divide_int_def abs_mult pos_imp_zdiv_nonneg_iff)
  also have "\<dots> \<le> \<bar>x\<bar>"
    using assms by (simp add: abs_sgn_eq minus_mod_eq_div_mult [symmetric])
  finally show ?thesis .
qed

lemma sdiv_abs_le: "0 < n \<Longrightarrow> \<bar>x sdiv n\<bar> \<le> \<bar>x :: int\<bar>"
proof -
  assume n: "0 < n"
  then have "\<bar>x sdiv n\<bar> * 1 \<le> \<bar>x sdiv n\<bar> * n"
    by (intro mult_left_mono) auto
  also have "\<dots> = \<bar>(x sdiv n) * n\<bar>" using n by (simp add: abs_mult)
  also have "\<dots> \<le> \<bar>x\<bar>" by (rule sdiv_mult_abs_le [OF n])
  finally show ?thesis by simp
qed

lemma sdiv_lower_eq: "0 < n \<Longrightarrow> x sdiv n = (if 0 \<le> x then x div n else - ((- x) div n))" for x n :: int
  by (auto simp: signed_divide_int_def sgn_if)

lemma mult_sdiv_cancel [simp]: "0 < n \<Longrightarrow> (x * n) sdiv n = x" for x n :: int
  using nonzero_mult_div_cancel_right [of n "- x"]
  by (auto simp: sdiv_lower_eq zero_le_mult_iff)

text \<open>The rounding error of a duration_cast is less than one unit, on either side of zero.\<close>

lemma sdiv_mult_error:
  fixes x n :: int
  assumes n: "0 < n"
  shows "\<bar>x - (x sdiv n) * n\<bar> < n"
proof (cases "0 \<le> x")
  case True
  with n have "x - (x sdiv n) * n = x mod n" by (simp add: sdiv_lower_eq minus_div_mult_eq_mod)
  with n show ?thesis by simp
next
  case False
  with n have "x - (x sdiv n) * n = - ((- x) mod n)"
    using minus_div_mult_eq_mod [of "- x" n] by (simp add: sdiv_lower_eq)
  with n show ?thesis by simp
qed

section \<open>Words and lists\<close>

lemma unat_u16_less: "unat w < 65536" for w :: u16
  using unsigned_less [of w] by simp

lemma unat_byte_less: "unat w < 256" for w :: byte
  using unsigned_less [of w] by simp

lemma take_drop_of_append:
  "length xs = n \<Longrightarrow> take n (xs @ ys) = xs"
  "length xs = n \<Longrightarrow> drop n (xs @ ys) = ys"
  by auto

lemma length4_conv: "4 \<le> length xs \<Longrightarrow> \<exists>a b c d ys. xs = a # b # c # d # ys"
  by (auto simp: numeral_eq_Suc Suc_le_length_iff)

end
