(* ===== verification/Wire_Format.thy ===== *)
theory Wire_Format
  imports Parlo_Prelude
begin

text \<open>
  The two encodings the wire formats are built from: the 16-bit length field that Packet.cpp
  writes byte by byte and ProcessingBuffer.cpp reads back, and the 64-bit counts that
  HeartbeatPacket.cpp and GoodbyePacket.cpp copy with std::memcpy (on a little-endian host,
  the byte order of every platform the CI builds on).
  The locale \<open>fixed_codec\<close> states what the users of an encoding rely on, \<open>bijective_codec\<close>
  adds that every block of the right size decodes to a valid value; their interpretations
  \<open>i64\<close> and \<open>len16\<close> at the end discharge both contracts for the code's encodings.
\<close>

section \<open>The interface\<close>

locale fixed_codec =
  fixes enc :: "'a \<Rightarrow> bytes"
    and dec :: "bytes \<Rightarrow> 'a"
    and width :: nat
    and valid :: "'a \<Rightarrow> bool"
  assumes length_enc: "length (enc x) = width"
    and dec_enc: "valid x \<Longrightarrow> dec (enc x) = x"
begin

text \<open>A field is read back wherever it stands, whatever follows it.\<close>

lemma read_first: "valid x \<Longrightarrow> dec (take width (enc x @ rest)) = x"
  by (simp add: length_enc dec_enc)

lemma read_second: "valid y \<Longrightarrow> dec (take width (drop width (enc x @ enc y @ rest))) = y"
  by (simp add: length_enc dec_enc)

lemma enc_inject: "valid x \<Longrightarrow> valid y \<Longrightarrow> enc x = enc y \<Longrightarrow> x = y"
  by (metis dec_enc)

lemma enc_prefix_free:
  "valid x \<Longrightarrow> valid y \<Longrightarrow> enc x @ r = enc y @ r' \<Longrightarrow> x = y \<and> r = r'"
  by (metis append_eq_append_conv enc_inject length_enc)

end

locale bijective_codec = fixed_codec +
  assumes enc_dec: "length bs = width \<Longrightarrow> enc (dec bs) = bs"
    and valid_dec: "length bs = width \<Longrightarrow> valid (dec bs)"
begin

lemma block_unique: "length bs = width \<Longrightarrow> valid x \<Longrightarrow> dec bs = x \<longleftrightarrow> bs = enc x"
  by (metis dec_enc enc_dec)

lemma dec_inject:
  "length bs = width \<Longrightarrow> length cs = width \<Longrightarrow> dec bs = dec cs \<Longrightarrow> bs = cs"
  by (metis enc_dec)

end

section \<open>The 16-bit length field\<close>

text \<open>Packet::Impl::buildPacket: \<open>length & 0xFF\<close> and \<open>(length >> 8) & 0xFF\<close>, each cast to a byte.\<close>

definition length_low :: "u16 \<Rightarrow> byte" where
  "length_low len = ucast (len AND 0xFF)"

definition length_high :: "u16 \<Rightarrow> byte" where
  "length_high len = ucast (drop_bit 8 len AND 0xFF)"

text \<open>
  ProcessingBuffer::Impl::readHeader: \<open>static_cast<uint16_t>(lengthHigh << 8 | lengthLow)\<close>, where
  both bytes are promoted to a 32-bit int before the shift.
\<close>

definition combine_length :: "byte \<Rightarrow> byte \<Rightarrow> u16" where
  "combine_length lengthLow lengthHigh =
     ucast (push_bit 8 (ucast lengthHigh :: i32) OR (ucast lengthLow :: i32))"

definition length_bytes :: "u16 \<Rightarrow> bytes" where
  "length_bytes len = [length_low len, length_high len]"

definition length_of_bytes :: "bytes \<Rightarrow> u16" where
  "length_of_bytes bs = combine_length (bs ! 0) (bs ! 1)"

lemma and_255 [codec_simps]: "w AND 0xFF = take_bit 8 w" for w :: "'a::len word"
  by (simp add: take_bit_eq_mask mask_eq_exp_minus_1)

lemma combine_low_high [simp]: "combine_length (length_low len) (length_high len) = len"
  unfolding combine_length_def length_low_def length_high_def and_255
  by (rule bit_word_eqI) (auto simp: bit_simps)

lemma low_combine [simp]: "length_low (combine_length lo hi) = lo"
  unfolding combine_length_def length_low_def and_255
  by (rule bit_word_eqI) (auto simp: bit_simps dest: bit_imp_le_length)

lemma high_combine [simp]: "length_high (combine_length lo hi) = hi"
  unfolding combine_length_def length_high_def and_255
  by (rule bit_word_eqI) (auto simp: bit_simps dest: bit_imp_le_length)

text \<open>The value of the field as a number: the high byte counts 256s.\<close>

lemma combine_length_add: "combine_length lo hi = ucast lo + push_bit 8 (ucast hi)"
proof -
  have "(ucast lo :: u16) + push_bit 8 (ucast hi) = ucast lo OR push_bit 8 (ucast hi)"
    by (rule disjunctive_add_eq_or, rule bit_word_eqI)
      (auto simp: bit_simps dest: bit_imp_le_length)
  moreover have "combine_length lo hi = ucast lo OR push_bit 8 (ucast hi)"
    unfolding combine_length_def by (rule bit_word_eqI) (auto simp: bit_simps)
  ultimately show ?thesis by simp
qed

lemma unat_combine_length: "unat (combine_length lo hi) = unat lo + 256 * unat hi"
proof -
  have "unat lo < 256" "unat hi < 256"
    using unsigned_less [of lo] unsigned_less [of hi] by simp_all
  then show ?thesis
    by (simp add: combine_length_add unat_word_ariths push_bit_eq_mult unsigned_ucast_eq
        take_bit_nat_eq_self)
qed

section \<open>64-bit counts copied by memcpy\<close>

primrec memcpy_out :: "nat \<Rightarrow> i64 \<Rightarrow> bytes" where
  "memcpy_out 0 w = []"
| "memcpy_out (Suc n) w = ucast w # memcpy_out n (drop_bit 8 w)"

primrec memcpy_in :: "bytes \<Rightarrow> i64" where
  "memcpy_in [] = 0"
| "memcpy_in (b # bs) = ucast b OR push_bit 8 (memcpy_in bs)"

definition i64_bytes :: "int \<Rightarrow> bytes" where
  "i64_bytes x = memcpy_out 8 (word_of_int x)"

definition i64_of_bytes :: "bytes \<Rightarrow> int" where
  "i64_of_bytes bs = sint (memcpy_in bs)"

lemma length_memcpy_out [simp]: "length (memcpy_out n w) = n"
  by (induction n arbitrary: w) simp_all

lemma memcpy_in_out: "memcpy_in (memcpy_out n w) = take_bit (8 * n) w"
proof (induction n arbitrary: w)
  case 0
  show ?case by simp
next
  case (Suc n)
  show ?case
    by (rule bit_word_eqI) (auto simp: Suc.IH bit_simps)
qed

lemma memcpy_in_high_bits: "8 * length bs \<le> i \<Longrightarrow> \<not> bit (memcpy_in bs) i"
  by (induction bs arbitrary: i) (auto simp: bit_simps dest: bit_imp_le_length)

lemma memcpy_out_in: "length bs \<le> 8 \<Longrightarrow> memcpy_out (length bs) (memcpy_in bs) = bs"
proof (induction bs)
  case Nil
  show ?case by simp
next
  case (Cons b bs)
  have "ucast (ucast b OR push_bit 8 (memcpy_in bs) :: i64) = b"
    by (rule bit_word_eqI) (auto simp: bit_simps)
  moreover have "drop_bit 8 (ucast b OR push_bit 8 (memcpy_in bs)) = memcpy_in bs"
    using Cons.prems memcpy_in_high_bits [of bs]
    by (intro bit_word_eqI) (auto simp: bit_simps dest: bit_imp_le_length)
  ultimately show ?case using Cons by simp
qed

lemma length_i64_bytes [simp]: "length (i64_bytes x) = 8"
  by (simp add: i64_bytes_def)

lemma memcpy_round [simp]: "memcpy_in (memcpy_out 8 w) = w"
  by (simp add: memcpy_in_out take_bit_word_eq_self)

lemma i64_of_i64_bytes: "in_i64 x \<Longrightarrow> i64_of_bytes (i64_bytes x) = x"
  by (simp add: i64_of_bytes_def i64_bytes_def in_i64_def sint_sbintrunc'
      signed_take_bit_int_eq_self)

lemma in_i64_of_bytes: "in_i64 (i64_of_bytes bs)"
  using sint_greater_eq [of "memcpy_in bs"] sint_less [of "memcpy_in bs"]
  by (simp add: in_i64_def i64_of_bytes_def)

lemma i64_bytes_of_bytes: "length bs = 8 \<Longrightarrow> i64_bytes (i64_of_bytes bs) = bs"
  using memcpy_out_in [of bs] by (simp add: i64_bytes_def i64_of_bytes_def)

section \<open>The contracts discharged\<close>

interpretation i64: bijective_codec i64_bytes i64_of_bytes 8 in_i64
  by unfold_locales (simp_all add: i64_of_i64_bytes i64_bytes_of_bytes in_i64_of_bytes)

interpretation len16: bijective_codec length_bytes length_of_bytes 2 "\<lambda>_. True"
proof unfold_locales
  fix bs :: bytes
  assume "length bs = 2"
  then obtain lo hi where "bs = [lo, hi]"
    by (auto simp: numeral_eq_Suc length_Suc_conv)
  then show "length_bytes (length_of_bytes bs) = bs"
    by (simp add: length_bytes_def length_of_bytes_def)
qed (simp_all add: length_bytes_def length_of_bytes_def)

end
