(* ===== verification/Packet.thy ===== *)
theory Packet
  imports Wire_Format
begin

text \<open>
  Packet.cpp with the two enumerations it uses (PacketHeaders.h, ParloIDs.h): the packet's
  fields, its TCP and UDP constructors, the getters and \<open>buildPacket\<close>. The lemmas give the
  invariant every constructed packet has, the exact layout of the built bytes and the value of
  the 16-bit length field, which wraps for a payload that does not fit.
\<close>

section \<open>Header sizes and reserved packet IDs\<close>

datatype packet_headers = STANDARD | UDP

fun header_size :: "packet_headers \<Rightarrow> nat" where
  "header_size STANDARD = 4"
| "header_size UDP = 5"

datatype parlo_ids = Heartbeat | SGoodbye | CGoodbye

fun parlo_id :: "parlo_ids \<Rightarrow> byte" where
  "parlo_id Heartbeat = 0xFD"
| "parlo_id SGoodbye = 0xFE"
| "parlo_id CGoodbye = 0xFF"

text \<open>The enumeration is finite, and the IDs of its members are the reserved ones.\<close>

instantiation parlo_ids :: enum
begin

definition enum_parlo_ids :: "parlo_ids list" where
  "enum_parlo_ids = [Heartbeat, SGoodbye, CGoodbye]"

definition enum_all_parlo_ids :: "(parlo_ids \<Rightarrow> bool) \<Rightarrow> bool" where
  "enum_all_parlo_ids P \<longleftrightarrow> P Heartbeat \<and> P SGoodbye \<and> P CGoodbye"

definition enum_ex_parlo_ids :: "(parlo_ids \<Rightarrow> bool) \<Rightarrow> bool" where
  "enum_ex_parlo_ids P \<longleftrightarrow> P Heartbeat \<or> P SGoodbye \<or> P CGoodbye"

instance proof
  show univ: "(UNIV :: parlo_ids set) = set enum_class.enum"
    by (auto simp: enum_parlo_ids_def intro: parlo_ids.exhaust)
  show "distinct (enum_class.enum :: parlo_ids list)"
    by (simp add: enum_parlo_ids_def)
  show "enum_class.enum_all P = Ball UNIV P" "enum_class.enum_ex P = Bex UNIV P"
    for P :: "parlo_ids \<Rightarrow> bool"
    unfolding univ by (simp_all add: enum_parlo_ids_def enum_all_parlo_ids_def enum_ex_parlo_ids_def)
qed

end

definition reserved :: "byte \<Rightarrow> bool" where
  "reserved i \<longleftrightarrow> i \<in> set (map parlo_id enum_class.enum)"

lemma reserved_eq: "reserved i \<longleftrightarrow> i = 0xFD \<or> i = 0xFE \<or> i = 0xFF"
  by (simp add: reserved_def enum_parlo_ids_def)

lemma reserved_iff: "reserved i \<longleftrightarrow> (\<exists>k. i = parlo_id k)"
  by (auto simp: reserved_def enum_UNIV)

lemma parlo_id_inject [simp]: "parlo_id j = parlo_id k \<longleftrightarrow> j = k"
  by (cases j; cases k) simp_all

text \<open>\<open>MAX_PACKET_SIZE\<close> of Parlo.h.\<close>

definition MAX_PACKET_SIZE :: nat where
  "MAX_PACKET_SIZE = 1024"

section \<open>The packet and its constructors\<close>

record packet =
  p_id :: byte
  p_isCompressed :: byte
  p_isReliable :: byte
  p_length :: u16
  p_data :: bytes
  p_isUDP :: bool

definition Packet_TCP :: "byte \<Rightarrow> bytes \<Rightarrow> bool \<Rightarrow> packet result" where
  "Packet_TCP i serializedData isPacketCompressed =
     (let p = \<lparr> p_id = i,
                p_isCompressed = (if isPacketCompressed then 1 else 0),
                p_isReliable = 0,
                p_length = word_of_nat (header_size STANDARD + length serializedData),
                p_data = serializedData,
                p_isUDP = False \<rparr>
      in if serializedData = []
         then Inl (Invalid_argument ''Packet: SerializedData cannot be null!'')
         else Inr p)"

definition Packet_UDP :: "byte \<Rightarrow> bytes \<Rightarrow> bool \<Rightarrow> bool \<Rightarrow> packet result" where
  "Packet_UDP i serializedData isPacketCompressed isPacketReliable =
     (let p = \<lparr> p_id = i,
                p_isCompressed = (if isPacketCompressed then 1 else 0),
                p_isReliable = (if isPacketReliable then 1 else 0),
                p_length = word_of_nat (header_size UDP + length serializedData),
                p_data = serializedData,
                p_isUDP = True \<rparr>
      in if serializedData = []
         then Inl (Invalid_argument ''Packet: SerializedData cannot be null!'')
         else Inr p)"

definition getID :: "packet \<Rightarrow> byte" where
  "getID p = p_id p"

definition getIsCompressed :: "packet \<Rightarrow> byte" where
  "getIsCompressed p = p_isCompressed p"

definition getLength :: "packet \<Rightarrow> u16" where
  "getLength p = p_length p"

definition getData :: "packet \<Rightarrow> bytes" where
  "getData p = p_data p"

lemmas packet_getters [simp] = getID_def getIsCompressed_def getLength_def getData_def

text \<open>\<open>buildPacket\<close> appends the header byte by byte, then the payload.\<close>

definition buildPacket :: "packet \<Rightarrow> bytes" where
  "buildPacket p =
     (let packetData = [] @ [p_id p];
          packetData = packetData @ [p_isCompressed p];
          packetData = (if p_isUDP p then packetData @ [p_isReliable p] else packetData);
          packetData = packetData @ [length_low (p_length p)];
          packetData = packetData @ [length_high (p_length p)]
      in packetData @ p_data p)"

section \<open>The invariant of a constructed packet\<close>

definition packet_header :: "packet \<Rightarrow> packet_headers" where
  "packet_header p = (if p_isUDP p then UDP else STANDARD)"

definition wf_packet :: "packet \<Rightarrow> bool" where
  "wf_packet p \<longleftrightarrow>
     p_data p \<noteq> [] \<and> p_isCompressed p \<in> {0, 1} \<and> p_isReliable p \<in> {0, 1} \<and>
     (p_isUDP p \<or> p_isReliable p = 0) \<and>
     p_length p = word_of_nat (header_size (packet_header p) + length (p_data p))"

lemma Packet_TCP_Inr_iff [result_simps]:
  "Packet_TCP i d c = Inr p \<longleftrightarrow>
     d \<noteq> [] \<and> p = \<lparr>p_id = i, p_isCompressed = (if c then 1 else 0), p_isReliable = 0,
                 p_length = word_of_nat (4 + length d), p_data = d, p_isUDP = False\<rparr>"
  by (auto simp: Packet_TCP_def)

lemma Packet_TCP_Inl_iff [result_simps]:
  "Packet_TCP i d c = Inl e \<longleftrightarrow>
     d = [] \<and> e = Invalid_argument ''Packet: SerializedData cannot be null!''"
  by (auto simp: Packet_TCP_def)

lemma Packet_TCP_nonempty:
  "d \<noteq> [] \<Longrightarrow> Packet_TCP i d c =
     Inr \<lparr>p_id = i, p_isCompressed = (if c then 1 else 0), p_isReliable = 0,
          p_length = word_of_nat (4 + length d), p_data = d, p_isUDP = False\<rparr>"
  by (simp add: Packet_TCP_def)

lemma Packet_UDP_Inr_iff [result_simps]:
  "Packet_UDP i d c r = Inr p \<longleftrightarrow>
     d \<noteq> [] \<and> p = \<lparr>p_id = i, p_isCompressed = (if c then 1 else 0),
                 p_isReliable = (if r then 1 else 0),
                 p_length = word_of_nat (5 + length d), p_data = d, p_isUDP = True\<rparr>"
  by (auto simp: Packet_UDP_def)

lemma wf_Packet_TCP: "Packet_TCP i d c = Inr p \<Longrightarrow> wf_packet p"
  by (auto simp: Packet_TCP_Inr_iff wf_packet_def packet_header_def)

lemma wf_Packet_UDP: "Packet_UDP i d c r = Inr p \<Longrightarrow> wf_packet p"
  by (auto simp: Packet_UDP_Inr_iff wf_packet_def packet_header_def)

section \<open>The bytes on the wire\<close>

lemma buildPacket_tcp [codec_simps]:
  "\<not> p_isUDP p \<Longrightarrow> buildPacket p = p_id p # p_isCompressed p # length_bytes (p_length p) @ p_data p"
  by (simp add: buildPacket_def length_bytes_def)

lemma buildPacket_udp [codec_simps]:
  "p_isUDP p \<Longrightarrow> buildPacket p =
     p_id p # p_isCompressed p # p_isReliable p # length_bytes (p_length p) @ p_data p"
  by (simp add: buildPacket_def length_bytes_def)

lemma length_buildPacket:
  "length (buildPacket p) = header_size (packet_header p) + length (p_data p)"
  by (cases "p_isUDP p") (simp_all add: codec_simps packet_header_def length_bytes_def)

text \<open>The length field is the number of bytes built, modulo 65536.\<close>

lemma unat_p_length:
  "wf_packet p \<Longrightarrow> unat (p_length p) = length (buildPacket p) mod 65536"
  by (simp add: wf_packet_def length_buildPacket unat_of_nat del: of_nat_add)

lemma unat_p_length_exact:
  "wf_packet p \<Longrightarrow> length (buildPacket p) < 65536 \<Longrightarrow>
     unat (p_length p) = length (buildPacket p)"
  by (simp add: unat_p_length)

lemma buildPacket_tcp_inject:
  assumes "wf_packet p" "wf_packet q" "\<not> p_isUDP p" "\<not> p_isUDP q"
    and "buildPacket p = buildPacket q"
  shows "p = q"
proof -
  from assms(3-5) have "length_bytes (p_length p) @ p_data p = length_bytes (p_length q) @ p_data q"
    and same: "p_id p = p_id q" "p_isCompressed p = p_isCompressed q"
    by (simp_all add: codec_simps)
  then have "p_length p = p_length q" "p_data p = p_data q"
    using len16.enc_prefix_free by blast+
  with same assms(1-4) show ?thesis
    by (intro packet.equality) (auto simp: wf_packet_def)
qed

section \<open>Properties\<close>

text \<open>What the constructors make. Both refuse exactly the empty payload; otherwise the packet is
  well-formed and of its kind, the getters give back the ID, the compression flag as 0 or 1 and the
  payload, and the length is that of header and payload modulo 65536.\<close>

theorem packet_construction:
  "(case Packet_TCP i d c of
      Inl e \<Rightarrow> d = [] \<and> e = Invalid_argument ''Packet: SerializedData cannot be null!''
    | Inr p \<Rightarrow> d \<noteq> [] \<and> wf_packet p \<and> packet_header p = STANDARD \<and> getID p = i \<and>
        getIsCompressed p = (if c then 1 else 0) \<and> getData p = d \<and> unat (getLength p) = (4 + length d) mod 65536) \<and>
   (case Packet_UDP i d c r of
      Inl e \<Rightarrow> d = [] \<and> e = Invalid_argument ''Packet: SerializedData cannot be null!''
    | Inr p \<Rightarrow> d \<noteq> [] \<and> wf_packet p \<and> packet_header p = UDP \<and> getID p = i \<and>
        getIsCompressed p = (if c then 1 else 0) \<and> getData p = d \<and> unat (getLength p) = (5 + length d) mod 65536)"
proof (cases "d = []")
  case True
  then show ?thesis by (simp add: Packet_TCP_def Packet_UDP_def)
next
  case False
  then show ?thesis
    by (simp add: Packet_TCP_def Packet_UDP_def wf_packet_def packet_header_def unat_of_nat del: of_nat_add)
qed

text \<open>C38: The bytes of a constructed packet: ID, compression flag, the reliability flag for UDP
  only, the low and the high byte of the length field, then the payload unchanged; and they are
  exactly as many as the length field says whenever that is below 65536.\<close>

theorem packet_layout:
  assumes "wf_packet p"
  shows "buildPacket p = [p_id p, p_isCompressed p] @ (if p_isUDP p then [p_isReliable p] else []) @
      length_bytes (p_length p) @ p_data p \<and>
    length (buildPacket p) = header_size (packet_header p) + length (p_data p) \<and>
    (unat (p_length p) = length (buildPacket p)) = (length (buildPacket p) < 65536)"
  using unat_p_length [OF assms] unat_u16_less [of "p_length p"]
  by (auto simp: codec_simps length_buildPacket)

theorem packet_layout_witness:
  "buildPacket \<lparr>p_id = 7, p_isCompressed = 0, p_isReliable = 1, p_length = 7, p_data = [1, 2], p_isUDP = True\<rparr>
     = [7, 0, 1] @ length_bytes 7 @ [1, 2]"
  using packet_layout [of "\<lparr>p_id = 7, p_isCompressed = 0, p_isReliable = 1, p_length = 7,
    p_data = [1, 2], p_isUDP = True\<rparr>"]
  by (simp add: wf_packet_def packet_header_def)

text \<open>Two different TCP packets never have the same bytes on the wire.\<close>

theorem packet_bytes_unique:
  assumes "Packet_TCP i d c = Inr p" and "Packet_TCP j e b = Inr q"
  shows "buildPacket p = buildPacket q \<longleftrightarrow> i = j \<and> d = e \<and> c = b"
proof -
  have "p = q \<longleftrightarrow> i = j \<and> d = e \<and> c = b"
    using assms by (auto simp: result_simps split: if_splits)
  moreover have "\<not> p_isUDP p" "\<not> p_isUDP q" using assms by (auto simp: result_simps)
  then have "buildPacket p = buildPacket q \<Longrightarrow> p = q"
    using buildPacket_tcp_inject wf_Packet_TCP assms by blast
  ultimately show ?thesis by blast
qed

theorem packet_bytes_unique_witness:
  "\<exists>p q. Packet_TCP 1 [5] False = Inr p \<and> Packet_TCP 1 [5] True = Inr q \<and> buildPacket p \<noteq> buildPacket q"
proof -
  obtain p q where pq: "Packet_TCP 1 [5] False = Inr p" "Packet_TCP 1 [5] True = Inr q"
    by (simp add: Packet_TCP_def)
  with packet_bytes_unique [OF pq] show ?thesis by auto
qed

end
