(* ===== verification/Encrypted_Packet.thy ===== *)
theory Encrypted_Packet
  imports Packet
begin

text \<open>
  EncryptedPacket.h with EncryptionArgs.h and EncryptionMode.h. CryptoPP is a parameter: the key
  derivation and the CBC filters of the two ciphers. Arrays the code declares and does not fill
  are arguments too (\<open>uninit\<close>). Inside the class \<open>data\<close> is the member of the base class Packet,
  which no constructor of Packet sets. The second part is the hex decoder with the std::stoi it
  calls.
\<close>

section \<open>The packet\<close>

datatype EncryptionMode = AES | Twofish | Unknown int

record EncryptionArgs =
  Mode :: EncryptionMode
  Key :: string
  Salt :: string

text \<open>
  \<open>derive_key key salt iterations n\<close> are \<open>n\<close> bytes of PBKDF2 with SHA-256; a filter is a function of
  key, initialisation vector and data, and the decrypting one fails (with an exception of the
  library, derived from std::exception) on data that is not padded correctly.
\<close>

record crypto =
  derive_key :: "string \<Rightarrow> string \<Rightarrow> nat \<Rightarrow> nat \<Rightarrow> bytes"
  aes_cbc_encrypt :: "bytes \<Rightarrow> bytes \<Rightarrow> bytes \<Rightarrow> bytes"
  aes_cbc_decrypt :: "bytes \<Rightarrow> bytes \<Rightarrow> bytes \<Rightarrow> bytes result"
  twofish_cbc_encrypt :: "bytes \<Rightarrow> bytes \<Rightarrow> bytes \<Rightarrow> bytes"
  twofish_cbc_decrypt :: "bytes \<Rightarrow> bytes \<Rightarrow> bytes \<Rightarrow> bytes result"

text \<open>\<open>DEFAULT_KEYLENGTH\<close> and \<open>BLOCKSIZE\<close> of both ciphers.\<close>

definition KEYLENGTH :: nat where "KEYLENGTH = 16"
definition BLOCKSIZE :: nat where "BLOCKSIZE = 16"

record encrypted_packet =
  base :: packet
  base_data :: bytes
  m_args :: EncryptionArgs

text \<open>The base class is constructed before the body tests its arguments.\<close>

definition EncryptedPacket :: "EncryptionArgs option \<Rightarrow> byte \<Rightarrow> bytes \<Rightarrow> encrypted_packet result" where
  "EncryptedPacket args i serializedData =
     and_then (Packet_TCP i serializedData False) (\<lambda>p.
       case args of
         None \<Rightarrow> Inl (Invalid_argument ''EncryptionArgs cannot be null!'')
       | Some a \<Rightarrow>
           if serializedData = [] then Inl (Invalid_argument ''SerializedData cannot be null!'')
           else Inr \<lparr>base = p, base_data = [], m_args = a\<rparr>)"

definition encryptAES :: "crypto \<Rightarrow> bytes \<Rightarrow> string \<Rightarrow> string \<Rightarrow> bytes" where
  "encryptAES lib d key salt =
     (let derivedBytes = derive_key lib key salt 10000 (KEYLENGTH + BLOCKSIZE);
          keyBytes = take KEYLENGTH derivedBytes;
          ivBytes = drop KEYLENGTH derivedBytes
      in aes_cbc_encrypt lib keyBytes ivBytes d)"

text \<open>The other three derive the bytes as well, and use arrays they never copied them to.\<close>

definition decryptAES :: "crypto \<Rightarrow> bytes \<times> bytes \<Rightarrow> bytes \<Rightarrow> string \<Rightarrow> string \<Rightarrow> bytes result" where
  "decryptAES lib uninit d key salt =
     (let derivedBytes = derive_key lib key salt 10000 (KEYLENGTH + BLOCKSIZE);
          (keyBytes, ivBytes) = uninit
      in aes_cbc_decrypt lib keyBytes ivBytes d)"

definition encryptTwofish :: "crypto \<Rightarrow> bytes \<times> bytes \<Rightarrow> bytes \<Rightarrow> string \<Rightarrow> string \<Rightarrow> bytes" where
  "encryptTwofish lib uninit d key salt =
     (let derivedBytes = derive_key lib key salt 10000 (KEYLENGTH + BLOCKSIZE);
          (keyBytes, ivBytes) = uninit
      in twofish_cbc_encrypt lib keyBytes ivBytes d)"

definition decryptTwofish :: "crypto \<Rightarrow> bytes \<times> bytes \<Rightarrow> bytes \<Rightarrow> string \<Rightarrow> string \<Rightarrow> bytes result" where
  "decryptTwofish lib uninit d key salt =
     (let derivedBytes = derive_key lib key salt 10000 (KEYLENGTH + BLOCKSIZE);
          (keyBytes, ivBytes) = uninit
      in twofish_cbc_decrypt lib keyBytes ivBytes d)"

definition decryptPacket :: "crypto \<Rightarrow> bytes \<times> bytes \<Rightarrow> encrypted_packet \<Rightarrow> bytes result" where
  "decryptPacket lib uninit p =
     (case Mode (m_args p) of
        AES \<Rightarrow> decryptAES lib uninit (base_data p) (Key (m_args p)) (Salt (m_args p))
      | Twofish \<Rightarrow> decryptTwofish lib uninit (base_data p) (Key (m_args p)) (Salt (m_args p))
      | Unknown m \<Rightarrow> Inl (Runtime_error ''Unsupported encryption mode''))"

definition ep_buildPacket :: "crypto \<Rightarrow> bytes \<times> bytes \<Rightarrow> encrypted_packet \<Rightarrow> bytes result" where
  "ep_buildPacket lib uninit p =
     and_then
       (case Mode (m_args p) of
          AES \<Rightarrow> Inr (encryptAES lib (base_data p) (Key (m_args p)) (Salt (m_args p)))
        | Twofish \<Rightarrow> Inr (encryptTwofish lib uninit (base_data p) (Key (m_args p)) (Salt (m_args p)))
        | Unknown m \<Rightarrow> Inl (Runtime_error ''Unsupported encryption mode''))
       (\<lambda>encryptedData.
          let packetData = [] @ [getID (base p)];
              packetData = packetData @ [getIsCompressed (base p)]
          in Inr (packetData @ encryptedData))"

section \<open>The hex decoder\<close>

definition isspace :: "char \<Rightarrow> bool" where
  "isspace c \<longleftrightarrow> of_char c = (32::nat) \<or> (9 \<le> (of_char c :: nat) \<and> (of_char c :: nat) \<le> 13)"

definition hex_value :: "char \<Rightarrow> nat option" where
  "hex_value c =
     (let n = (of_char c :: nat)
      in if 48 \<le> n \<and> n \<le> 57 then Some (n - 48)
         else if 65 \<le> n \<and> n \<le> 70 then Some (n - 55)
         else if 97 \<le> n \<and> n \<le> 102 then Some (n - 87) else None)"

text \<open>
  std::stoi with base 16: white space, a sign, the prefix 0x where a digit follows it, and the
  longest run of digits; what follows is ignored.
\<close>

fun hex_prefix :: "string \<Rightarrow> string" where
  "hex_prefix (z # x # d # cs) =
     (if z = CHR ''0'' \<and> x \<in> {CHR ''x'', CHR ''X''} \<and> hex_value d \<noteq> None then d # cs else z # x # d # cs)"
| "hex_prefix cs = cs"

fun hex_sign :: "string \<Rightarrow> int \<times> string" where
  "hex_sign [] = (1, [])"
| "hex_sign (c # cs) =
     (if c = CHR ''-'' then (-1, cs) else if c = CHR ''+'' then (1, cs) else (1, c # cs))"

definition stoi16 :: "string \<Rightarrow> int result" where
  "stoi16 s =
     (let (sign, rest) = hex_sign (dropWhile isspace s);
          digits = takeWhile (\<lambda>c. hex_value c \<noteq> None) (hex_prefix rest);
          n = sign * foldl (\<lambda>a c. 16 * a + int (the (hex_value c))) 0 digits
      in if digits = [] then Inl (Invalid_argument ''stoi'')
         else if n < - (2 ^ 31) \<or> 2 ^ 31 \<le> n then Inl (Out_of_range ''stoi'')
         else Inr n)"

text \<open>The loop goes two characters at a time; a last odd character is decoded alone.\<close>

fun hexStringToByteArray :: "string \<Rightarrow> bytes result" where
  "hexStringToByteArray [] = Inr []"
| "hexStringToByteArray [c] = and_then (stoi16 [c]) (\<lambda>n. Inr [word_of_int n])"
| "hexStringToByteArray (c # d # cs) =
     and_then (stoi16 [c, d]) (\<lambda>n.
       and_then (hexStringToByteArray cs) (\<lambda>bytes. Inr (word_of_int n # bytes)))"

section \<open>Lemmas\<close>

lemma EncryptedPacket_Inr_iff [result_simps]:
  "EncryptedPacket (Some a) i d = Inr p \<longleftrightarrow>
     (\<exists>r. Packet_TCP i d False = Inr r \<and> p = \<lparr>base = r, base_data = [], m_args = a\<rparr>)"
  by (auto simp: EncryptedPacket_def and_then_Inr_iff Packet_TCP_Inr_iff)

text \<open>The digits of a byte, and what the decoder reads.\<close>

definition hex_digit :: "nat \<Rightarrow> char" where
  "hex_digit n = ''0123456789abcdef'' ! n"

definition hex_of_byte :: "byte \<Rightarrow> string" where
  "hex_of_byte b = [hex_digit (unat b div 16), hex_digit (unat b mod 16)]"

lemma hex_digit_cases:
  assumes "n < 16"
  shows "hex_value (hex_digit n) = Some n \<and> \<not> isspace (hex_digit n) \<and>
    hex_digit n \<noteq> CHR ''-'' \<and> hex_digit n \<noteq> CHR ''+'' \<and> hex_digit n \<noteq> CHR ''x'' \<and> hex_digit n \<noteq> CHR ''X''"
proof -
  have "n \<in> set [0..<16]" using assms by simp
  moreover have "\<forall>n \<in> set [0..<16]. hex_value (hex_digit n) = Some n \<and> \<not> isspace (hex_digit n) \<and>
    hex_digit n \<noteq> CHR ''-'' \<and> hex_digit n \<noteq> CHR ''+'' \<and> hex_digit n \<noteq> CHR ''x'' \<and> hex_digit n \<noteq> CHR ''X''"
    by code_simp
  ultimately show ?thesis by blast
qed

lemma stoi_two_digits:
  assumes "hex_value c = Some m" "hex_value d = Some n" "\<not> isspace c" "c \<noteq> CHR ''-''" "c \<noteq> CHR ''+''"
    "m < 16" "n < 16"
  shows "stoi16 [c, d] = Inr (16 * int m + int n)"
  using assms by (simp add: stoi16_def)

lemma stoi_hex_of_byte: "stoi16 (hex_of_byte b) = Inr (int (unat b))"
proof -
  have "unat b div 16 < 16" "unat b mod 16 < 16" using unat_byte_less [of b] by auto
  then have "stoi16 (hex_of_byte b) = Inr (16 * int (unat b div 16) + int (unat b mod 16))"
    unfolding hex_of_byte_def using hex_digit_cases by (intro stoi_two_digits) blast+
  moreover have "16 * int (unat b div 16) + int (unat b mod 16) = int (unat b)"
    by (metis mult_div_mod_eq of_nat_add of_nat_mult of_nat_numeral)
  ultimately show ?thesis by simp
qed

lemma hex_decode_encoded: "hexStringToByteArray (concat (map hex_of_byte bs)) = Inr bs"
proof (induction bs)
  case (Cons b bs)
  obtain c d where cd: "hex_of_byte b = [c, d]" by (simp add: hex_of_byte_def)
  with stoi_hex_of_byte [of b] have "stoi16 [c, d] = Inr (int (unat b))" by simp
  with Cons cd show ?case by simp
qed simp

text \<open>Two characters never exceed the range of int.\<close>

lemma hex_value_less: "hex_value c = Some n \<Longrightarrow> n < 16"
  by (auto simp: hex_value_def Let_def split: if_splits)

lemma length_hex_sign: "length (snd (hex_sign s)) \<le> length s" "\<bar>fst (hex_sign s)\<bar> = 1"
  by (cases s; simp)+

lemma length_hex_prefix: "length (hex_prefix s) \<le> length s"
  by (cases s rule: hex_prefix.cases) simp_all

lemma stoi_short_error:
  assumes "length s \<le> 2" "stoi16 s = Inl e"
  shows "e = Invalid_argument ''stoi''"
proof -
  obtain sign rest where sr: "hex_sign (dropWhile isspace s) = (sign, rest)" by force
  define digits where "digits = takeWhile (\<lambda>c. hex_value c \<noteq> None) (hex_prefix rest)"
  define n where "n = foldl (\<lambda>a c. 16 * a + int (the (hex_value c))) 0 digits"
  have "length digits \<le> length (hex_prefix rest)"
    unfolding digits_def by (rule length_takeWhile_le)
  also have "\<dots> \<le> length rest" by (rule length_hex_prefix)
  also have "\<dots> \<le> length (dropWhile isspace s)" using length_hex_sign(1) [of "dropWhile isspace s"] sr by simp
  also have "\<dots> \<le> 2" using assms(1) length_dropWhile_le [of isspace s] by linarith
  finally have len: "length digits \<le> 2" .
  have dig: "\<forall>c \<in> set digits. the (hex_value c) < 16"
    unfolding digits_def using hex_value_less by (fastforce dest!: set_takeWhileD)
  have "0 \<le> n \<and> n < 256"
  proof (cases digits)
    case Nil
    then show ?thesis by (simp add: n_def)
  next
    case (Cons c cs)
    with len have "cs = [] \<or> (\<exists>d. cs = [d])" by (cases cs) auto
    with Cons dig show ?thesis by (auto simp: n_def)
  qed
  moreover have "\<bar>sign\<bar> = 1" using length_hex_sign(2) [of "dropWhile isspace s"] sr by simp
  ultimately have "\<not> (sign * n < - (2 ^ 31) \<or> 2 ^ 31 \<le> sign * n)" by (auto simp: abs_if split: if_splits)
  with assms(2) sr show ?thesis
    by (auto simp: stoi16_def Let_def digits_def n_def split: if_splits)
qed

section \<open>Properties\<close>

text \<open>C39: The bytes an encrypted packet builds do not depend on its payload: what is encrypted is the empty
  member of the base class. They are the ID, a zero, and the cipher of no data at all, without the
  length the receiver's framing reads; with Twofish even the key and the vector are uninitialised
  memory.\<close>

theorem encrypted_packet_layout:
  assumes "EncryptedPacket (Some a) i d = Inr p" "EncryptedPacket (Some a) i d' = Inr p'"
  shows "ep_buildPacket lib uninit p =
      (let derived = derive_key lib (Key a) (Salt a) 10000 32
       in case Mode a of
            AES \<Rightarrow> Inr ([i, 0] @ aes_cbc_encrypt lib (take 16 derived) (drop 16 derived) [])
          | Twofish \<Rightarrow> Inr ([i, 0] @ twofish_cbc_encrypt lib (fst uninit) (snd uninit) [])
          | Unknown m \<Rightarrow> Inl (Runtime_error ''Unsupported encryption mode'')) \<and>
    ep_buildPacket lib uninit p' = ep_buildPacket lib uninit p"
  using assms
  by (auto simp: EncryptedPacket_Inr_iff Packet_TCP_Inr_iff ep_buildPacket_def encryptAES_def
      encryptTwofish_def KEYLENGTH_def BLOCKSIZE_def Let_def split: EncryptionMode.split prod.split)

text \<open>A concrete stand-in for the library: the derivation repeats a byte, the filters append a block.\<close>

definition toy_crypto :: crypto where
  "toy_crypto = \<lparr>derive_key = (\<lambda>key salt n k. replicate k 7),
     aes_cbc_encrypt = (\<lambda>k iv d. d @ replicate 2 (hd k)), aes_cbc_decrypt = (\<lambda>k iv d. Inr d),
     twofish_cbc_encrypt = (\<lambda>k iv d. d @ iv), twofish_cbc_decrypt = (\<lambda>k iv d. Inr d)\<rparr>"

theorem encrypted_packet_layout_witness:
  "\<exists>p. EncryptedPacket (Some \<lparr>Mode = AES, Key = ''k'', Salt = ''s''\<rparr>) 9 [1, 2, 3] = Inr p \<and>
     ep_buildPacket toy_crypto ([], []) p = Inr [9, 0, 7, 7]"
proof -
  obtain p where p: "EncryptedPacket (Some \<lparr>Mode = AES, Key = ''k'', Salt = ''s''\<rparr>) 9 [1, 2, 3] = Inr p"
    by (simp add: EncryptedPacket_def Packet_TCP_nonempty)
  from encrypted_packet_layout [OF p p, of toy_crypto "([], [])"] p show ?thesis
    by (simp add: toy_crypto_def numeral_eq_Suc)
qed

text \<open>Decoding the hexadecimal digits of any byte string gives it back; a string that is accepted gives
  one byte for every two characters, the last odd one included, and one that is refused raises
  std::invalid_argument, never std::out_of_range.\<close>

theorem hex_decoding:
  "hexStringToByteArray (concat (map hex_of_byte bs)) = Inr bs \<and>
   (case hexStringToByteArray s of
      Inl e \<Rightarrow> e = Invalid_argument ''stoi''
    | Inr r \<Rightarrow> length r = (length s + 1) div 2)"
proof -
  have "case hexStringToByteArray s of
      Inl e \<Rightarrow> e = Invalid_argument ''stoi''
    | Inr r \<Rightarrow> length r = (length s + 1) div 2"
  proof (induction s rule: hexStringToByteArray.induct)
    case (2 c)
    show ?case using stoi_short_error [of "[c]"] by (cases "stoi16 [c]") auto
  next
    case (3 c d cs)
    then show ?case
      using stoi_short_error [of "[c, d]"]
      by (cases "stoi16 [c, d]"; cases "hexStringToByteArray cs") auto
  qed simp
  with hex_decode_encoded show ?thesis by blast
qed

end
