(* ===== verification/Frame_Stream.thy ===== *)
theory Frame_Stream
  imports Parlo_Prelude
begin

text \<open>
  The interface between a component that turns a byte stream into frames and its clients: bytes
  arrive in chunks, a worker takes one frame at a time off the front of the bytes that are
  pending and delivers it. The abstract specification is \<open>frames_of\<close>, the frames of a whole
  stream. The locale \<open>framed_worker\<close> states what one chunk and one turn of the worker do; inside
  it, once for every provider: whatever the chunking and the interleaving of arrivals and turns,
  the frames delivered are a prefix of the frames of the stream, in order, each once; and as many
  turns as there are frames deliver all of them. The provider is Processing_Buffer.
\<close>

section \<open>The frames of a stream\<close>

function frames_of :: "(bytes \<Rightarrow> ('p \<times> bytes) option) \<Rightarrow> bytes \<Rightarrow> 'p list" where
  "frames_of dec bs =
     (case dec bs of None \<Rightarrow> []
      | Some (p, r) \<Rightarrow> if length r < length bs then p # frames_of dec r else [])"
  by pat_completeness auto
termination
  by (relation "measure (\<lambda>(dec, bs). length bs)") auto

function rest_of :: "(bytes \<Rightarrow> ('p \<times> bytes) option) \<Rightarrow> bytes \<Rightarrow> bytes" where
  "rest_of dec bs =
     (case dec bs of None \<Rightarrow> bs
      | Some (p, r) \<Rightarrow> if length r < length bs then rest_of dec r else bs)"
  by pat_completeness auto
termination
  by (relation "measure (\<lambda>(dec, bs). length bs)") auto

declare frames_of.simps [simp del] rest_of.simps [simp del]

text \<open>
  Two byte strings are the same stream to a reader when no continuation tells them apart: a
  provider may keep a byte it has already interpreted in a normal form.
\<close>

definition same_stream :: "(bytes \<Rightarrow> ('p \<times> bytes) option) \<Rightarrow> bytes \<Rightarrow> bytes \<Rightarrow> bool" where
  "same_stream dec bs bs' \<longleftrightarrow> length bs = length bs' \<and> (\<forall>cs. dec (bs @ cs) = dec (bs' @ cs))"

lemma same_stream_refl [simp]: "same_stream dec bs bs"
  by (simp add: same_stream_def)

lemma same_stream_append: "same_stream dec bs bs' \<Longrightarrow> same_stream dec (bs @ cs) (bs' @ cs)"
  by (simp add: same_stream_def)

lemma same_stream_decode: "same_stream dec bs bs' \<Longrightarrow> dec bs = dec bs'"
  by (metis append_Nil2 same_stream_def)

lemma same_stream_length: "same_stream dec bs bs' \<Longrightarrow> length bs = length bs'"
  by (simp add: same_stream_def)

lemma same_stream_trans: "same_stream dec a b \<Longrightarrow> same_stream dec b c \<Longrightarrow> same_stream dec a c"
  by (simp add: same_stream_def)

primrec deliver_all :: "('p \<Rightarrow> 'u \<Rightarrow> 'u result) \<Rightarrow> 'p list \<Rightarrow> 'u \<Rightarrow> 'u result" where
  "deliver_all deliver [] u = Inr u"
| "deliver_all deliver (p # ps) u = and_then (deliver p u) (deliver_all deliver ps)"

lemma deliver_all_append:
  "deliver_all deliver (ps @ qs) u =
     and_then (deliver_all deliver ps u) (deliver_all deliver qs)"
  by (induction ps arbitrary: u) (simp_all add: and_then_assoc cong: and_then_cong)

section \<open>Arrivals and turns\<close>

datatype feed_event = Arrive bytes | Work

primrec run_events ::
  "(bytes \<Rightarrow> 's \<Rightarrow> 's) \<Rightarrow> ('s \<times> 'u \<Rightarrow> ('s \<times> 'u) result) \<Rightarrow> feed_event list \<Rightarrow> 's \<times> 'u \<Rightarrow> ('s \<times> 'u) result"
where
  "run_events feed work [] su = Inr su"
| "run_events feed work (ev # evs) su =
     and_then (case ev of Arrive d \<Rightarrow> Inr (feed d (fst su), snd su) | Work \<Rightarrow> work su)
       (run_events feed work evs)"

fun fed_bytes :: "(bytes \<Rightarrow> bool) \<Rightarrow> feed_event list \<Rightarrow> bytes" where
  "fed_bytes accepts [] = []"
| "fed_bytes accepts (Arrive d # evs) = (if accepts d then d else []) @ fed_bytes accepts evs"
| "fed_bytes accepts (Work # evs) = fed_bytes accepts evs"

lemma fed_bytes_append: "fed_bytes accepts (es @ fs) = fed_bytes accepts es @ fed_bytes accepts fs"
  by (induction accepts es rule: fed_bytes.induct) simp_all

lemma fed_bytes_work [simp]: "fed_bytes accepts (replicate n Work) = []"
  by (induction n) simp_all

lemma run_events_append:
  "run_events feed work (es @ fs) su =
     and_then (run_events feed work es su) (run_events feed work fs)"
  by (induction es arbitrary: su) (simp_all add: and_then_assoc cong: and_then_cong)

section \<open>The contract and its consequences\<close>

locale framed_worker =
  fixes pending :: "'s \<Rightarrow> bytes"
    and inv :: "'s \<Rightarrow> bool"
    and accepts :: "bytes \<Rightarrow> bool"
    and feed :: "bytes \<Rightarrow> 's \<Rightarrow> 's"
    and work :: "'s \<times> 'u \<Rightarrow> ('s \<times> 'u) result"
    and decode :: "bytes \<Rightarrow> ('p \<times> bytes) option"
    and deliver :: "'p \<Rightarrow> 'u \<Rightarrow> 'u result"
    and cap :: nat
  assumes pending_feed: "pending (feed d s) = pending s @ (if accepts d then d else [])"
    and inv_feed: "inv s \<Longrightarrow> inv (feed d s)"
    and decode_shrinks: "decode bs = Some (p, r) \<Longrightarrow> length r < length bs"
    and decode_append: "decode bs = Some (p, r) \<Longrightarrow> decode (bs @ cs) = Some (p, r @ cs)"
    and work_frame: "inv s \<Longrightarrow> length (pending s) \<le> cap \<Longrightarrow> decode (pending s) = Some (p, r) \<Longrightarrow>
      \<exists>s'. inv s' \<and> pending s' = r \<and> work (s, u) = and_then (deliver p u) (\<lambda>u'. Inr (s', u'))"
    and work_idle: "inv s \<Longrightarrow> length (pending s) \<le> cap \<Longrightarrow> decode (pending s) = None \<Longrightarrow>
      \<exists>s'. inv s' \<and> same_stream decode (pending s') (pending s) \<and> work (s, u) = Inr (s', u)"
begin

lemma frames_None [frame_simps]: "decode bs = None \<Longrightarrow> frames_of decode bs = []"
  by (simp add: frames_of.simps [of decode bs])

lemma frames_Some [frame_simps]:
  "decode bs = Some (p, r) \<Longrightarrow> frames_of decode bs = p # frames_of decode r"
  by (simp add: frames_of.simps [of decode bs] decode_shrinks)

lemma rest_None [frame_simps]: "decode bs = None \<Longrightarrow> rest_of decode bs = bs"
  by (simp add: rest_of.simps [of decode bs])

lemma rest_Some [frame_simps]: "decode bs = Some (p, r) \<Longrightarrow> rest_of decode bs = rest_of decode r"
  by (simp add: rest_of.simps [of decode bs] decode_shrinks)

lemma stream_induct [case_names idle frame]:
  assumes "\<And>bs. decode bs = None \<Longrightarrow> P bs"
    and "\<And>bs p r. decode bs = Some (p, r) \<Longrightarrow> P r \<Longrightarrow> P bs"
  shows "P bs"
proof (induction bs rule: length_induct)
  case (1 bs)
  show ?case
  proof (cases "decode bs")
    case None
    then show ?thesis by (rule assms(1))
  next
    case (Some pr)
    then obtain p r where "decode bs = Some (p, r)" by (cases pr) auto
    with 1 show ?thesis using assms(2) decode_shrinks by blast
  qed
qed

text \<open>More bytes never change the frames already complete.\<close>

lemma frames_append:
  "frames_of decode (bs @ cs) = frames_of decode bs @ frames_of decode (rest_of decode bs @ cs)"
proof (induction bs rule: stream_induct)
  case (idle bs)
  then show ?case by (simp add: frame_simps)
next
  case (frame bs p r)
  then show ?case by (simp add: frame_simps decode_append [OF frame(1)])
qed

lemma frames_same_stream:
  "same_stream decode bs bs' \<Longrightarrow> frames_of decode bs = frames_of decode bs'"
  by (cases "decode bs'") (auto simp: frame_simps dest!: same_stream_decode)

lemma rest_same_stream:
  "same_stream decode bs bs' \<Longrightarrow> same_stream decode (rest_of decode bs) (rest_of decode bs')"
  using same_stream_decode [of decode bs bs'] by (cases "decode bs'") (auto simp: frame_simps)

lemma rest_idle: "decode (rest_of decode bs) = None"
  by (induction bs rule: stream_induct) (simp_all add: frame_simps)

lemma frames_rest [simp]: "frames_of decode (rest_of decode bs) = []"
  by (simp add: frames_None rest_idle)

lemma rest_append: "rest_of decode (bs @ cs) = rest_of decode (rest_of decode bs @ cs)"
proof (induction bs rule: stream_induct)
  case (idle bs)
  then show ?case by (simp add: frame_simps)
next
  case (frame bs p r)
  then show ?case using decode_append [OF frame(1), of cs] by (simp add: frame_simps)
qed

text \<open>Without a turn of the worker, what arrives is pending.\<close>

lemma arrivals_only:
  assumes "Work \<notin> set evs"
  shows "\<exists>s'. run_events feed work evs (s, u) = Inr (s', u) \<and> pending s' = pending s @ fed_bytes accepts evs"
  using assms
proof (induction evs arbitrary: s)
  case (Cons e evs)
  then obtain d where "e = Arrive d" by (cases e) auto
  with Cons.IH [of "feed d s"] Cons.prems show ?case by (auto simp: pending_feed)
qed simp

text \<open>One turn of the worker, whatever is pending.\<close>

lemma work_cases:
  assumes "inv s" "length (pending s) \<le> cap"
  obtains (idle) s' where "decode (pending s) = None" "inv s'"
      "same_stream decode (pending s') (pending s)" "work (s, u) = Inr (s', u)"
    | (frame) s' p r where "decode (pending s) = Some (p, r)" "inv s'" "pending s' = r"
      "work (s, u) = and_then (deliver p u) (\<lambda>u'. Inr (s', u'))"
proof (cases "decode (pending s)")
  case None
  with work_idle [OF assms] show ?thesis using idle by blast
next
  case (Some pr)
  then obtain p r where "decode (pending s) = Some (p, r)" by (cases pr) auto
  with work_frame [OF assms] show ?thesis using frame by blast
qed

text \<open>
  Any interleaving that raised nothing: the frames delivered, followed by the frames still
  pending, are the frames of all the bytes, and nothing was lost in between.
\<close>

lemma run_prefix:
  assumes "inv s" "length (pending s) + length (fed_bytes accepts evs) \<le> cap"
    and "run_events feed work evs (s, u) = Inr (s', u')"
  shows "inv s' \<and> (\<exists>done. frames_of decode (pending s @ fed_bytes accepts evs) =
      done @ frames_of decode (pending s') \<and> deliver_all deliver done u = Inr u') \<and>
    same_stream decode (rest_of decode (pending s')) (rest_of decode (pending s @ fed_bytes accepts evs))"
  using assms
proof (induction evs arbitrary: s u)
  case Nil
  then show ?case by (auto intro: exI [of _ "[]"])
next
  case (Cons ev evs)
  show ?case
  proof (cases ev)
    case (Arrive d)
    with Cons.prems Cons.IH [of "feed d s" u] show ?thesis
      by (simp add: inv_feed pending_feed)
  next
    case Work
    from Cons.prems have "inv s" "length (pending s) \<le> cap" by simp_all
    then show ?thesis
    proof (cases rule: work_cases [of s u])
      case (idle t)
      with Work Cons.prems Cons.IH [of t u] show ?thesis
        using frames_same_stream [OF same_stream_append [OF idle(3)]]
          rest_same_stream [OF same_stream_append [OF idle(3)]]
        by (auto simp: same_stream_length [OF idle(3)] intro: same_stream_trans)
    next
      case (frame t p r)
      with Work Cons.prems(3) obtain v where v: "deliver p u = Inr v"
        and run: "run_events feed work evs (t, v) = Inr (s', u')"
        by (auto simp: result_simps)
      have "length (pending t) + length (fed_bytes accepts evs) \<le> cap"
        using frame decode_shrinks [OF frame(1)] Cons.prems(2) Work by simp
      from Cons.IH [OF frame(2) this run] obtain ds where
        "inv s'" "frames_of decode (r @ fed_bytes accepts evs) = ds @ frames_of decode (pending s')"
        "deliver_all deliver ds v = Inr u'"
        "same_stream decode (rest_of decode (pending s')) (rest_of decode (r @ fed_bytes accepts evs))"
        using frame(3) by blast
      with v Work show ?thesis
        by (intro conjI exI [of _ "p # ds"])
          (simp_all add: frames_Some rest_Some decode_append [OF frame(1)])
    qed
  qed
qed

lemma run_length:
  assumes "inv s" "length (pending s) + length (fed_bytes accepts evs) \<le> cap"
    and "run_events feed work evs (s, u) = Inr (s', u')"
  shows "length (pending s') \<le> length (pending s) + length (fed_bytes accepts evs)"
  using assms
proof (induction evs arbitrary: s u)
  case Nil
  then show ?case by simp
next
  case (Cons ev evs)
  show ?case
  proof (cases ev)
    case (Arrive d)
    with Cons.prems Cons.IH [of "feed d s" u] show ?thesis by (simp add: inv_feed pending_feed)
  next
    case Work
    from Cons.prems have "inv s" "length (pending s) \<le> cap" by simp_all
    then show ?thesis
    proof (cases rule: work_cases [of s u])
      case (idle t)
      with Work Cons.prems Cons.IH [of t u] show ?thesis by (simp add: same_stream_def)
    next
      case (frame t p r)
      with Work Cons.prems Cons.IH [of t] decode_shrinks [OF frame(1)] show ?thesis
        by (fastforce simp: result_simps)
    qed
  qed
qed

text \<open>An interleaving that raised something raised it while delivering a frame of the stream.\<close>

lemma run_failure:
  assumes "inv s" "length (pending s) + length (fed_bytes accepts evs) \<le> cap"
    and "run_events feed work evs (s, u) = Inl e"
  shows "\<exists>done tail. frames_of decode (pending s @ fed_bytes accepts evs) = done @ tail \<and>
    deliver_all deliver done u = Inl e"
  using assms
proof (induction evs arbitrary: s u)
  case Nil
  then show ?case by simp
next
  case (Cons ev evs)
  show ?case
  proof (cases ev)
    case (Arrive d)
    with Cons.prems Cons.IH [of "feed d s" u] show ?thesis
      by (simp add: inv_feed pending_feed)
  next
    case Work
    from Cons.prems have "inv s" "length (pending s) \<le> cap" by simp_all
    then show ?thesis
    proof (cases rule: work_cases [of s u])
      case (idle t)
      with Work Cons.prems Cons.IH [of t u] show ?thesis
        using frames_same_stream [OF same_stream_append [OF idle(3)]]
        by (simp add: same_stream_def)
    next
      case (frame t p r)
      note first = frames_Some [OF decode_append [OF frame(1)]]
      show ?thesis
      proof (cases "deliver p u")
        case (Inl e')
        with Work Cons.prems(3) frame show ?thesis
          by (intro exI [of _ "[p]"] exI) (simp add: first)
      next
        case (Inr v)
        have "length (pending t) + length (fed_bytes accepts evs) \<le> cap"
          using frame decode_shrinks [OF frame(1)] Cons.prems(2) Work by simp
        from Cons.IH [OF frame(2) this, of v] Cons.prems(3) Work frame Inr
        obtain ds tl where "frames_of decode (r @ fed_bytes accepts evs) = ds @ tl"
          "deliver_all deliver ds v = Inl e" by auto
        with Inr Work show ?thesis
          by (intro exI [of _ "p # ds"] exI [of _ tl]) (simp add: first)
      qed
    qed
  qed
qed

text \<open>
  Enough turns deliver every frame that is complete; what is left is the incomplete rest, as
  far as any further byte can tell.
\<close>

lemma drain:
  assumes "inv s" "length (pending s) \<le> cap" "length (frames_of decode (pending s)) \<le> n"
  shows "\<exists>s'. inv s' \<and> same_stream decode (pending s') (rest_of decode (pending s)) \<and>
    run_events feed work (replicate n Work) (s, u) =
      and_then (deliver_all deliver (frames_of decode (pending s)) u) (\<lambda>u'. Inr (s', u'))"
  using assms
proof (induction n arbitrary: s u)
  case 0
  then have "decode (pending s) = None"
    by (cases "decode (pending s)") (auto simp: frames_Some)
  with 0 show ?case by (auto simp: frame_simps intro: exI [of _ s])
next
  case (Suc n)
  from Suc.prems(1,2) show ?case
  proof (cases rule: work_cases [of s u])
    case (idle t)
    then have none: "decode (pending t) = None" by (auto dest: same_stream_decode)
    have "length (pending t) \<le> cap" using idle(3) Suc.prems(2) by (simp add: same_stream_def)
    from Suc.IH [OF idle(2) this, of u] idle none show ?thesis
      by (auto simp: frame_simps intro: same_stream_trans)
  next
    case (frame t p r)
    with decode_shrinks [OF frame(1)] Suc.prems
    have t: "length (pending t) \<le> cap" "length (frames_of decode (pending t)) \<le> n"
      by (simp_all add: frames_Some)
    show ?thesis
    proof (cases "deliver p u")
      case (Inl e)
      with Suc.IH [OF frame(2) t] frame show ?thesis by (auto simp: frame_simps)
    next
      case (Inr v)
      with Suc.IH [OF frame(2) t, of v] frame show ?thesis by (simp add: frame_simps)
    qed
  qed
qed

text \<open>Arrivals first, then enough turns: every frame of the stream is delivered.\<close>

lemma feed_then_drain:
  assumes "inv s" "length (pending s) + length (fed_bytes accepts evs) \<le> cap"
    and run: "run_events feed work evs (s, u) = Inr (s', u')"
    and n: "length (frames_of decode (pending s @ fed_bytes accepts evs)) \<le> n"
  shows "\<exists>s''. same_stream decode (pending s'') (rest_of decode (pending s @ fed_bytes accepts evs)) \<and>
    run_events feed work (evs @ replicate n Work) (s, u) = and_then (deliver_all deliver (frames_of decode (pending s @ fed_bytes accepts evs)) u)
      (\<lambda>u'. Inr (s'', u'))"
proof -
  from run_prefix [OF assms(1-3)] obtain ds where s': "inv s'"
    and fr: "frames_of decode (pending s @ fed_bytes accepts evs) = ds @ frames_of decode (pending s')"
    and ds: "deliver_all deliver ds u = Inr u'"
    and rest: "same_stream decode (rest_of decode (pending s'))
      (rest_of decode (pending s @ fed_bytes accepts evs))" by blast
  have "length (pending s') \<le> cap"
    using run_length [OF assms(1-3)] assms(2) by simp
  from drain [OF s' this, of n u'] n fr obtain s'' where
    "same_stream decode (pending s'') (rest_of decode (pending s'))"
    "run_events feed work (replicate n Work) (s', u') =
      and_then (deliver_all deliver (frames_of decode (pending s')) u') (\<lambda>u'. Inr (s'', u'))" by auto
  with run ds fr rest show ?thesis
    by (auto simp: run_events_append deliver_all_append intro: same_stream_trans)
qed

text \<open>
  Whether something is raised or not: with enough turns at the end, the outcome is that of
  delivering the frames of all the bytes, one after the other.
\<close>

lemma complete:
  assumes "inv s" "length (pending s) + length (fed_bytes accepts evs) \<le> cap"
    and n: "length (frames_of decode (pending s @ fed_bytes accepts evs)) \<le> n"
  obtains (raises) e where
      "deliver_all deliver (frames_of decode (pending s @ fed_bytes accepts evs)) u = Inl e"
      "run_events feed work (evs @ replicate n Work) (s, u) = Inl e"
    | (delivers) s' u' where
      "deliver_all deliver (frames_of decode (pending s @ fed_bytes accepts evs)) u = Inr u'"
      "run_events feed work (evs @ replicate n Work) (s, u) = Inr (s', u')"
      "same_stream decode (pending s') (rest_of decode (pending s @ fed_bytes accepts evs))"
proof (cases "run_events feed work evs (s, u)")
  case (Inl e)
  from run_failure [OF assms(1,2) Inl] obtain ds tl where
    "frames_of decode (pending s @ fed_bytes accepts evs) = ds @ tl" "deliver_all deliver ds u = Inl e"
    by blast
  with Inl show ?thesis by (intro raises [of e]) (simp_all add: run_events_append deliver_all_append)
next
  case (Inr t)
  then obtain s' u' where "run_events feed work evs (s, u) = Inr (s', u')" by (cases t) auto
  from feed_then_drain [OF assms(1,2) this n] obtain s'' where
    *: "same_stream decode (pending s'') (rest_of decode (pending s @ fed_bytes accepts evs))"
    "run_events feed work (evs @ replicate n Work) (s, u) =
      and_then (deliver_all deliver (frames_of decode (pending s @ fed_bytes accepts evs)) u)
        (\<lambda>u'. Inr (s'', u'))" by blast
  show ?thesis
  proof (cases "deliver_all deliver (frames_of decode (pending s @ fed_bytes accepts evs)) u")
    case (Inl e)
    with * show ?thesis by (intro raises [of e]) simp_all
  next
    case (Inr v)
    with * show ?thesis by (intro delivers [of v s'']) simp_all
  qed
qed

end

end
