(* ===== verification/Processing_Buffer.thy ===== *)
theory Processing_Buffer
  imports Packet Frame_Stream "HOL-Library.Sublist"
begin

text \<open>
  ProcessingBuffer.cpp: the buffer a connection's bytes go through. This theory holds its data
  (the queue of bytes and the header fields of the packet being read) and its sequential
  operations: \<open>addData\<close>, the index operator, \<open>bufferCount\<close>, \<open>readHeader\<close> and one iteration of
  the loop of \<open>processPackets\<close>, with the handler it calls; the threads, the mutex and the
  condition variable are in Worker_Threads. The interpretation \<open>pb\<close> of \<open>framed_worker\<close> shows
  that the buffer implements the framing \<open>next_frame\<close> of its byte stream, whatever the handler.
\<close>

section \<open>State\<close>

record procbuf =
  internalBuffer :: bytes
  hasReadHeader :: bool
  currentID :: byte
  isCompressed :: bool
  currentLength :: u16

definition pb_init :: procbuf where
  "pb_init = \<lparr>internalBuffer = [], hasReadHeader = False, currentID = 0, isCompressed = False,
     currentLength = 0\<rparr>"

section \<open>Operations\<close>

definition push :: "byte \<Rightarrow> bytes \<Rightarrow> bytes" where
  "push b q = q @ [b]"

definition addData :: "bytes \<Rightarrow> procbuf \<Rightarrow> procbuf result" where
  "addData data pb =
     (if length data > MAX_PACKET_SIZE
      then Inl (Overflow_error ''ProcessingBuffer::addData(): Buffer overflow exception!'')
      else Inr (pb\<lparr>internalBuffer := fold push data (internalBuffer pb)\<rparr>))"

text \<open>The index operator pops a copy of the queue \<open>index\<close> times and reads its front.\<close>

definition pb_at :: "procbuf \<Rightarrow> nat \<Rightarrow> byte result" where
  "pb_at pb index =
     (if index \<ge> length (internalBuffer pb)
      then Inl (Out_of_range ''ProcessingBuffer: Index out of range!'')
      else Inr (hd ((tl ^^ index) (internalBuffer pb))))"

definition bufferCount :: "procbuf \<Rightarrow> nat" where
  "bufferCount pb = length (internalBuffer pb)"

definition readHeader :: "procbuf \<Rightarrow> procbuf" where
  "readHeader pb =
     (if length (internalBuffer pb) < 4 then pb
      else
        let q0 = internalBuffer pb;
            cid = hd q0; q1 = tl q0;
            comp = (hd q1 \<noteq> 0); q2 = tl q1;
            lengthLow = hd q2; q3 = tl q2;
            lengthHigh = hd q3; q4 = tl q3
        in pb\<lparr>internalBuffer := q4, currentID := cid, isCompressed := comp,
              currentLength := combine_length lengthLow lengthHigh, hasReadHeader := True\<rparr>)"

text \<open>
  \<open>static_cast<size_t>(currentLength - PacketHeaders::STANDARD)\<close>: the subtraction is in int, so
  a length below the header's size gives a negative number, which wraps to a huge size_t.
\<close>

definition payload_size :: "u16 \<Rightarrow> nat" where
  "payload_size len = nat ((int (unat len) - int (header_size STANDARD)) mod 2 ^ 64)"

text \<open>
  The loop that moves the payload out of the queue, with its 16-bit counter: \<open>None\<close> would be a
  loop that never returns, front() of an empty queue is undefined behaviour.
\<close>

partial_function (option) fill_payload :: "u16 \<Rightarrow> bytes \<Rightarrow> bytes \<Rightarrow> (bytes \<times> bytes) result option" where
  "fill_payload i packetData q =
     (if unat i < length packetData
      then (case q of
              [] \<Rightarrow> Some (Inl (Undefined_behaviour ''front() of an empty queue''))
            | b # q' \<Rightarrow> fill_payload (i + 1) (packetData[unat i := b]) q')
      else Some (Inr (packetData, q)))"

text \<open>A call of the handler, if one is set (std::function is empty otherwise).\<close>

definition call_handler :: "(packet \<Rightarrow> 'u \<Rightarrow> 'u result) option \<Rightarrow> packet \<Rightarrow> 'u \<Rightarrow> 'u result" where
  "call_handler handler packet u = (case handler of None \<Rightarrow> Inr u | Some h \<Rightarrow> h packet u)"

text \<open>
  One iteration of \<open>processPackets\<close> once \<open>cv.wait\<close> has returned and \<open>stopProcessing\<close> is false:
  the header is read if none is and four bytes are there, then the payload is taken if the whole
  of it is there. \<open>u\<close> is the state the handler works on. An \<open>Inl\<close> is an exception that leaves
  the thread function, which ends the process (std::terminate).
\<close>

definition with_header :: "procbuf \<Rightarrow> procbuf" where
  "with_header pb =
     (if length (internalBuffer pb) \<ge> header_size STANDARD
      then (if \<not> hasReadHeader pb then readHeader pb else pb)
      else pb)"

definition take_payload ::
  "(packet \<Rightarrow> 'u \<Rightarrow> 'u result) option \<Rightarrow> procbuf \<Rightarrow> 'u \<Rightarrow> (procbuf \<times> 'u) result" where
  "take_payload handler pb u =
     (if hasReadHeader pb \<and> length (internalBuffer pb) \<ge> payload_size (currentLength pb)
      then (case fill_payload 0 (replicate (payload_size (currentLength pb)) 0) (internalBuffer pb) of
              None \<Rightarrow> Inl Diverges
            | Some filled \<Rightarrow>
                and_then filled (\<lambda>(packetData, q).
                  let pb' = pb\<lparr>internalBuffer := q, hasReadHeader := False\<rparr>
                  in and_then (Packet_TCP (currentID pb') packetData (isCompressed pb')) (\<lambda>packet.
                       and_then (call_handler handler packet u) (\<lambda>u'. Inr (pb', u')))))
      else Inr (pb, u))"

definition process_iteration ::
  "(packet \<Rightarrow> 'u \<Rightarrow> 'u result) option \<Rightarrow> procbuf \<times> 'u \<Rightarrow> (procbuf \<times> 'u) result" where
  "process_iteration handler su = take_payload handler (with_header (fst su)) (snd su)"

section \<open>Lemmas on the operations\<close>

lemma fold_push [simp]: "fold push data q = q @ data"
  by (induction data arbitrary: q) (simp_all add: push_def)

lemma addData_Inr_iff [result_simps]:
  "addData data pb = Inr pb' \<longleftrightarrow>
     length data \<le> 1024 \<and> pb' = pb\<lparr>internalBuffer := internalBuffer pb @ data\<rparr>"
  by (auto simp: addData_def MAX_PACKET_SIZE_def)

lemma addData_Inl_iff [result_simps]:
  "addData data pb = Inl e \<longleftrightarrow>
     1024 < length data \<and> e = Overflow_error ''ProcessingBuffer::addData(): Buffer overflow exception!''"
  by (auto simp: addData_def MAX_PACKET_SIZE_def)

lemma funpow_tl_eq_drop [simp]: "(tl ^^ n) xs = drop n xs"
  by (induction n) (simp_all add: drop_Suc tl_drop)

lemma pb_at_eq:
  "pb_at pb i = (if i < length (internalBuffer pb) then Inr (internalBuffer pb ! i)
     else Inl (Out_of_range ''ProcessingBuffer: Index out of range!''))"
  by (auto simp: pb_at_def hd_drop_conv_nth)

lemma readHeader_Cons [simp]:
  "internalBuffer pb = a # c # lo # hi # q \<Longrightarrow> readHeader pb =
     pb\<lparr>internalBuffer := q, currentID := a, isCompressed := (c \<noteq> 0),
        currentLength := combine_length lo hi, hasReadHeader := True\<rparr>"
  by (simp add: readHeader_def)

lemma size_t_of_int:
  fixes k :: nat
  assumes "k < 65536"
  shows "nat ((int k - 4) mod 2 ^ 64) = (if 4 \<le> k then k - 4 else 2 ^ 64 - 4 + k)"
proof (cases "4 \<le> k")
  case True
  with assms have "(int k - 4) mod 2 ^ 64 = int k - 4" by (intro mod_pos_pos_trivial) auto
  with True show ?thesis by simp
next
  case False
  then have "(int k - 4 + 2 ^ 64) mod 2 ^ 64 = int k - 4 + 2 ^ 64"
    by (intro mod_pos_pos_trivial) auto
  then have "(int k - 4) mod 2 ^ 64 = int k - 4 + 2 ^ 64" by (simp only: mod_add_self2)
  with False show ?thesis by simp
qed

lemma payload_size_eq:
  "payload_size len = (if 4 \<le> unat len then unat len - 4 else 2 ^ 64 - 4 + unat len)"
  using size_t_of_int [of "unat len", OF unat_u16_less]
  by (simp only: payload_size_def header_size.simps of_nat_numeral)

lemma payload_size_ge: "4 \<le> unat len \<Longrightarrow> payload_size len = unat len - 4"
  by (simp add: payload_size_eq)

lemma payload_size_less: "unat len < 4 \<Longrightarrow> 2 ^ 64 - 4 \<le> payload_size len"
  by (simp add: payload_size_eq)

lemma payload_size_bound: "4 \<le> unat len \<Longrightarrow> payload_size len < 65532"
  using unat_u16_less [of len] by (simp add: payload_size_ge)

lemma fill_payload_aux:
  assumes "length pd \<le> 65535" "i \<le> length pd" "length pd - i \<le> length q"
  shows "fill_payload (word_of_nat i) pd q =
    Some (Inr (take i pd @ take (length pd - i) q, drop (length pd - i) q))"
  using assms
proof (induction "length pd - i" arbitrary: i pd q)
  case 0
  then show ?case
    by (subst fill_payload.simps) (simp add: unat_of_nat)
next
  case (Suc n)
  then obtain b q' where q: "q = b # q'" by (cases q) auto
  from Suc have i: "i < length pd" "unat (word_of_nat i :: u16) = i" by (simp_all add: unat_of_nat)
  have next_i: "(word_of_nat i :: u16) + 1 = word_of_nat (Suc i)"
    by (simp add: add.commute)
  have "fill_payload (word_of_nat i) pd q = fill_payload (word_of_nat (Suc i)) (pd[i := b]) q'"
    by (subst fill_payload.simps) (simp add: i q next_i del: of_nat_Suc)
  also have "\<dots> = Some (Inr (take (Suc i) (pd[i := b]) @ take (length pd - Suc i) q',
      drop (length pd - Suc i) q'))"
    using Suc.hyps(1) [of "pd[i := b]" "Suc i" q'] Suc.hyps(2) Suc.prems q i by simp
  also have "take (Suc i) (pd[i := b]) = take i pd @ [b]"
    using i by (simp add: take_Suc_conv_app_nth)
  finally show ?case
    using i by (simp add: q Suc_diff_Suc [symmetric])
qed

text \<open>The payload loop returns: it moves exactly the bytes asked for, in order.\<close>

lemma fill_payload_eq:
  assumes "n \<le> 65535" "n \<le> length q"
  shows "fill_payload 0 (replicate n 0) q = Some (Inr (take n q, drop n q))"
  using fill_payload_aux [of "replicate n 0" 0 q] assms by simp

section \<open>The framing of the byte stream\<close>

text \<open>
  The specification: a frame is a header of four bytes (ID, compression flag, length low, length
  high) whose length counts itself, and the payload the length announces. \<open>pending\<close> is the
  abstraction: a header that has been read still counts as bytes of the stream.
\<close>

type_synonym frame = "byte \<times> bool \<times> bytes"

fun next_frame :: "bytes \<Rightarrow> (frame \<times> bytes) option" where
  "next_frame (a # c # lo # hi # q) =
     (let len = unat (combine_length lo hi)
      in if 4 \<le> len \<and> len - 4 \<le> length q
         then Some ((a, c \<noteq> 0, take (len - 4) q), drop (len - 4) q) else None)"
| "next_frame _ = None"

definition pending :: "procbuf \<Rightarrow> bytes" where
  "pending pb =
     (if hasReadHeader pb
      then [currentID pb, if isCompressed pb then 1 else 0] @ length_bytes (currentLength pb)
      else []) @ internalBuffer pb"

definition pb_inv :: "procbuf \<Rightarrow> bool" where
  "pb_inv pb \<longleftrightarrow> (hasReadHeader pb \<longrightarrow> currentLength pb \<noteq> 4)"

definition deliver_frame :: "(packet \<Rightarrow> 'u \<Rightarrow> 'u result) option \<Rightarrow> frame \<Rightarrow> 'u \<Rightarrow> 'u result" where
  "deliver_frame handler f u =
     (case f of (i, c, d) \<Rightarrow> and_then (Packet_TCP i d c) (\<lambda>p. call_handler handler p u))"

text \<open>
  A turn of the worker: \<open>cv.wait\<close> does not return while the queue is empty. A chunk that
  \<open>addData\<close> refuses is not added; its exception goes to the caller.
\<close>

definition worker_turn ::
  "(packet \<Rightarrow> 'u \<Rightarrow> 'u result) option \<Rightarrow> procbuf \<times> 'u \<Rightarrow> (procbuf \<times> 'u) result" where
  "worker_turn handler su =
     (if internalBuffer (fst su) = [] then Inr su else process_iteration handler su)"

definition pb_feed :: "bytes \<Rightarrow> procbuf \<Rightarrow> procbuf" where
  "pb_feed data pb = (case addData data pb of Inl e \<Rightarrow> pb | Inr pb' \<Rightarrow> pb')"

definition pb_accepts :: "bytes \<Rightarrow> bool" where
  "pb_accepts data \<longleftrightarrow> length data \<le> MAX_PACKET_SIZE"

text \<open>The largest queue of bytes: \<open>std::deque<uint8_t>::max_size()\<close> is below this.\<close>

definition queue_cap :: nat where
  "queue_cap = 2 ^ 63"

lemma next_frame_header [frame_simps]:
  "next_frame (a # c # length_bytes len @ q) =
     (if 4 \<le> unat len \<and> unat len - 4 \<le> length q
      then Some ((a, c \<noteq> 0, take (unat len - 4) q), drop (unat len - 4) q) else None)"
  by (simp add: length_bytes_def Let_def)

lemma next_frame_short: "length bs < 4 \<Longrightarrow> next_frame bs = None"
  by (cases bs rule: next_frame.cases) simp_all

lemma next_frame_shrinks: "next_frame bs = Some (f, r) \<Longrightarrow> length r < length bs"
  by (cases bs rule: next_frame.cases) (auto simp: Let_def split: if_splits)

lemma next_frame_append: "next_frame bs = Some (f, r) \<Longrightarrow> next_frame (bs @ cs) = Some (f, r @ cs)"
  by (cases bs rule: next_frame.cases) (auto simp: Let_def split: if_splits)

lemma pending_feed: "pending (pb_feed d pb) = pending pb @ (if pb_accepts d then d else [])"
  by (simp add: pb_feed_def addData_def pending_def pb_accepts_def)

lemma pb_inv_feed: "pb_inv pb \<Longrightarrow> pb_inv (pb_feed d pb)"
  by (simp add: pb_feed_def addData_def pb_inv_def)

lemma pending_init [simp]: "pending pb_init = []" and pb_inv_init [simp]: "pb_inv pb_init"
  by (simp_all add: pending_def pb_init_def pb_inv_def)

lemma pending_with_header: "same_stream next_frame (pending (with_header pb)) (pending pb)"
proof (cases "length (internalBuffer pb) \<ge> 4 \<and> \<not> hasReadHeader pb")
  case True
  then obtain a c lo hi q where "internalBuffer pb = a # c # lo # hi # q"
    using length4_conv by blast
  with True show ?thesis
    by (auto simp: with_header_def pending_def same_stream_def length_bytes_def Let_def)
qed (auto simp: with_header_def)

text \<open>With a header read, the spec's test for a complete frame is the code's.\<close>

lemma next_frame_pending_header:
  assumes "hasReadHeader pb" "length (internalBuffer pb) \<le> queue_cap"
  shows "next_frame (pending pb) =
    (if payload_size (currentLength pb) \<le> length (internalBuffer pb)
     then Some ((currentID pb, isCompressed pb,
            take (payload_size (currentLength pb)) (internalBuffer pb)),
          drop (payload_size (currentLength pb)) (internalBuffer pb)) else None)"
proof (cases "4 \<le> unat (currentLength pb)")
  case True
  with assms show ?thesis by (simp add: pending_def frame_simps payload_size_ge)
next
  case False
  then have "queue_cap < payload_size (currentLength pb)"
    using payload_size_less [of "currentLength pb"] by (simp add: queue_cap_def)
  with assms False show ?thesis by (simp add: pending_def frame_simps)
qed

lemma next_frame_pending_no_header:
  "\<not> hasReadHeader (with_header pb) \<Longrightarrow> next_frame (pending (with_header pb)) = None"
  by (auto simp: with_header_def pending_def readHeader_def next_frame_short Let_def
      split: if_splits)

lemma payload_size_le_u16:
  "payload_size len \<le> length q \<Longrightarrow> length q \<le> queue_cap \<Longrightarrow> payload_size len \<le> 65535"
  using payload_size_bound [of len] payload_size_less [of len]
  by (cases "4 \<le> unat len") (simp_all add: queue_cap_def)

text \<open>One iteration is one step of the framing.\<close>

lemma iteration_refines:
  assumes "length (pending pb) \<le> queue_cap"
  shows "process_iteration handler (pb, u) =
    (case next_frame (pending pb) of
       None \<Rightarrow> Inr (with_header pb, u)
     | Some (f, r) \<Rightarrow> and_then (deliver_frame handler f u)
         (\<lambda>u'. Inr ((with_header pb)\<lparr>internalBuffer := r, hasReadHeader := False\<rparr>, u')))"
proof -
  let ?pb = "with_header pb"
  have same: "next_frame (pending ?pb) = next_frame (pending pb)"
    and len: "length (pending ?pb) = length (pending pb)"
    by (rule same_stream_decode same_stream_length, rule pending_with_header)+
  show ?thesis
  proof (cases "hasReadHeader ?pb")
    case False
    then show ?thesis
      using next_frame_pending_no_header [OF False] same
      by (simp add: process_iteration_def take_payload_def)
  next
    case True
    then have cap: "length (internalBuffer ?pb) \<le> queue_cap"
      using assms len by (simp add: pending_def)
    note spec = next_frame_pending_header [OF True cap]
    show ?thesis
    proof (cases "payload_size (currentLength ?pb) \<le> length (internalBuffer ?pb)")
      case False
      with True spec same show ?thesis by (simp add: process_iteration_def take_payload_def)
    next
      case fits: True
      note filled = fill_payload_eq [OF payload_size_le_u16 [OF fits cap] fits]
      from True fits spec same filled show ?thesis
        by (simp add: process_iteration_def take_payload_def deliver_frame_def and_then_assoc Let_def)
    qed
  qed
qed

lemma pending_after_frame [simp]: "pending (pb\<lparr>internalBuffer := r, hasReadHeader := False\<rparr>) = r"
  by (simp add: pending_def)

lemma pb_inv_after_frame [simp]: "pb_inv (pb\<lparr>internalBuffer := r, hasReadHeader := False\<rparr>)"
  by (simp add: pb_inv_def)

text \<open>An empty queue never hides a frame: the invariant rules out a pending empty payload.\<close>

lemma empty_queue_idle:
  "pb_inv pb \<Longrightarrow> internalBuffer pb = [] \<Longrightarrow> next_frame (pending pb) = None"
proof (cases "hasReadHeader pb")
  case True
  assume "pb_inv pb" "internalBuffer pb = []"
  with True have "unat (currentLength pb) \<noteq> 4"
    by (simp add: pb_inv_def word_unat_eq_iff)
  with True \<open>internalBuffer pb = []\<close> show ?thesis
    using next_frame_header [of "currentID pb" _ "currentLength pb" "[]"]
    by (auto simp: pending_def)
qed (simp add: pending_def)

lemma pb_inv_with_header:
  assumes "next_frame (pending pb) = None" "pb_inv pb"
  shows "pb_inv (with_header pb)"
proof (cases "hasReadHeader (with_header pb)")
  case True
  have "next_frame (pending (with_header pb)) = None"
    using assms(1) pending_with_header [of pb] by (auto dest: same_stream_decode)
  with True show ?thesis by (auto simp: pb_inv_def pending_def frame_simps split: if_splits)
qed (simp add: pb_inv_def)

interpretation pb: framed_worker pending pb_inv pb_accepts pb_feed "worker_turn handler"
  next_frame "deliver_frame handler" queue_cap
  for handler :: "(packet \<Rightarrow> 'u \<Rightarrow> 'u result) option"
proof unfold_locales
  fix s :: procbuf and u :: 'u and f r
  assume inv: "pb_inv s" and len: "length (pending s) \<le> queue_cap"
  {
    assume "next_frame (pending s) = Some (f, r)"
    then show "\<exists>s'. pb_inv s' \<and> pending s' = r \<and>
        worker_turn handler (s, u) = and_then (deliver_frame handler f u) (\<lambda>u'. Inr (s', u'))"
      using empty_queue_idle [OF inv] iteration_refines [OF len, of handler u]
      by (auto simp: worker_turn_def
          intro!: exI [of _ "(with_header s)\<lparr>internalBuffer := r, hasReadHeader := False\<rparr>"])
  next
    assume none: "next_frame (pending s) = None"
    show "\<exists>s'. pb_inv s' \<and> same_stream next_frame (pending s') (pending s) \<and>
        worker_turn handler (s, u) = Inr (s', u)"
    proof (cases "internalBuffer s = []")
      case True
      then show ?thesis using inv by (intro exI [of _ s]) (simp add: worker_turn_def)
    next
      case False
      then show ?thesis
        using none iteration_refines [OF len, of handler u] pb_inv_with_header [OF none inv]
          pending_with_header [of s]
        by (intro exI [of _ "with_header s"]) (simp add: worker_turn_def)
    qed
  }
qed (simp_all add: pending_feed pb_inv_feed next_frame_shrinks next_frame_append)

section \<open>Streams of built packets\<close>

definition frame_of :: "packet \<Rightarrow> frame" where
  "frame_of p = (p_id p, p_isCompressed p \<noteq> 0, p_data p)"

text \<open>A packet the length field can describe: constructed for TCP, below 65536 bytes in all.\<close>

definition sendable :: "packet \<Rightarrow> bool" where
  "sendable p \<longleftrightarrow> wf_packet p \<and> \<not> p_isUDP p \<and> length (buildPacket p) < 65536"

lemma next_frame_build [frame_simps]:
  "sendable p \<Longrightarrow> next_frame (buildPacket p @ cs) = Some (frame_of p, cs)"
proof -
  assume p: "sendable p"
  then have "unat (p_length p) = 4 + length (p_data p)"
    by (auto simp: sendable_def unat_p_length_exact length_buildPacket packet_header_def)
  with p show ?thesis
    by (simp add: sendable_def codec_simps frame_simps frame_of_def)
qed

lemma frames_of_packets:
  "\<forall>p \<in> set ps. sendable p \<Longrightarrow>
     frames_of next_frame (concat (map buildPacket ps) @ cs) = map frame_of ps @ frames_of next_frame cs"
  by (induction ps) (simp_all add: frame_simps pb.frames_Some)

text \<open>Before the whole stream has arrived: the frames there are, are the first of the stream.\<close>

lemma frames_of_prefix:
  assumes "prefix bs (concat (map buildPacket ps))" "\<forall>p \<in> set ps. sendable p"
  shows "\<exists>tail. map frame_of ps = frames_of next_frame bs @ tail"
proof -
  from assms(1) obtain cs where cs: "concat (map buildPacket ps) = bs @ cs" by (auto simp: prefix_def)
  have "frames_of next_frame (concat (map buildPacket ps)) = map frame_of ps"
    using frames_of_packets [OF assms(2), of "[]"] by (simp add: pb.frames_None)
  with cs pb.frames_append [of bs cs] show ?thesis by metis
qed

text \<open>Constructing a packet again from its frame gives the packet.\<close>

lemma Packet_of_frame:
  "sendable p \<Longrightarrow> Packet_TCP (p_id p) (p_data p) (p_isCompressed p \<noteq> 0) = Inr p"
  by (auto simp: sendable_def wf_packet_def packet_header_def Packet_TCP_Inr_iff)

text \<open>A handler that records what it is given, and a failed construction.\<close>

definition log_packet :: "packet \<Rightarrow> packet list \<Rightarrow> packet list result" where
  "log_packet p out = Inr (out @ [p])"

lemma deliver_frame_log [simp]:
  "deliver_frame (Some log_packet) (i, c, d) out =
     and_then (Packet_TCP i d c) (\<lambda>p. Inr (out @ [p]))"
  by (simp add: deliver_frame_def call_handler_def log_packet_def)

lemma deliver_packets:
  "\<forall>p \<in> set ps. sendable p \<Longrightarrow>
     deliver_all (deliver_frame (Some log_packet)) (map frame_of ps) out = Inr (out @ ps)"
  by (induction ps arbitrary: out)
    (simp_all add: frame_of_def Packet_of_frame)

lemma deliver_prefix:
  assumes "\<forall>p \<in> set ps. sendable p" "map frame_of ps = done @ tail"
  shows "\<exists>out'. deliver_all (deliver_frame (Some log_packet)) done out = Inr out'"
  using deliver_packets [OF assms(1), of out] assms(2)
  by (auto simp: deliver_all_append result_simps)

lemma deliver_frame_Inl_iff [frame_simps]:
  "deliver_frame None f u = Inl e \<longleftrightarrow>
     snd (snd f) = [] \<and> e = Invalid_argument ''Packet: SerializedData cannot be null!''"
  by (cases f) (auto simp: deliver_frame_def call_handler_def result_simps)

text \<open>What a logging handler collects, for any stream: one packet per frame, fields as framed.\<close>

lemma deliver_log_packets:
  assumes "deliver_all (deliver_frame (Some log_packet)) fs out = Inr out'"
  shows "\<exists>ps. out' = out @ ps \<and> map frame_of ps = fs \<and> (\<forall>p \<in> set ps. wf_packet p \<and> \<not> p_isUDP p)"
  using assms
proof (induction fs arbitrary: out)
  case Nil
  then show ?case by simp
next
  case (Cons f fs)
  obtain i c d where f: "f = (i, c, d)" by (cases f) auto
  from Cons.prems f obtain p where p: "Packet_TCP i d c = Inr p"
    and rest: "deliver_all (deliver_frame (Some log_packet)) fs (out @ [p]) = Inr out'"
    by (auto simp: and_then_Inr_iff)
  from Cons.IH [OF rest] obtain ps where ps: "out' = (out @ [p]) @ ps" "map frame_of ps = fs"
    "\<forall>p \<in> set ps. wf_packet p \<and> \<not> p_isUDP p" by blast
  have "frame_of p = f" "\<not> p_isUDP p" using p f by (auto simp: frame_of_def Packet_TCP_Inr_iff)
  with ps wf_Packet_TCP [OF p] show ?case by (intro exI [of _ "p # ps"]) simp
qed

text \<open>A header whose length is below 4 is never completed, whatever follows.\<close>

lemma bad_length_no_frame:
  "unat (combine_length lo hi) < 4 \<Longrightarrow> next_frame (a # c # lo # hi # q) = None"
  by (simp add: Let_def)

lemma rest_of_packets:
  "\<forall>p \<in> set ps. sendable p \<Longrightarrow>
     rest_of next_frame (concat (map buildPacket ps) @ cs) = rest_of next_frame cs"
  by (induction ps) (simp_all add: frame_simps pb.rest_Some)

lemma same_stream_Nil [simp]: "same_stream dec bs [] \<longleftrightarrow> bs = []"
  by (auto simp: same_stream_def)

lemma next_frame_Nil [simp]: "next_frame [] = None"
  by simp

text \<open>Whatever the arrivals and turns, a stream of sendable packets raises nothing.\<close>

lemma packets_never_raise:
  assumes ps: "\<forall>p \<in> set ps. sendable p"
    and fed: "fed_bytes pb_accepts evs = concat (map buildPacket ps)"
    and cap: "length (fed_bytes pb_accepts evs) \<le> queue_cap"
  shows "\<exists>s out. run_events pb_feed (worker_turn (Some log_packet)) evs (pb_init, []) = Inr (s, out)"
proof (cases "run_events pb_feed (worker_turn (Some log_packet)) evs (pb_init, [])")
  case (Inl e)
  have "length (pending pb_init) + length (fed_bytes pb_accepts evs) \<le> queue_cap"
    using cap by simp
  from pb.run_failure [OF pb_inv_init this Inl] obtain ds tl where
    "map frame_of ps = ds @ tl" "deliver_all (deliver_frame (Some log_packet)) ds [] = Inl e"
    using frames_of_packets [OF ps, of "[]"] by (auto simp: fed pb.frames_None)
  with deliver_prefix [OF ps, of ds tl "[]"] show ?thesis by simp
next
  case (Inr a)
  then show ?thesis by (cases a) simp
qed

lemma packets_delivered:
  assumes ps: "\<forall>p \<in> set ps. sendable p"
    and fed: "fed_bytes pb_accepts evs = concat (map buildPacket ps)"
    and cap: "length (fed_bytes pb_accepts evs) \<le> queue_cap"
    and n: "length ps \<le> n"
  shows "\<exists>s. pending s = [] \<and>
    run_events pb_feed (worker_turn (Some log_packet)) (evs @ replicate n Work) (pb_init, []) = Inr (s, ps)"
proof -
  from packets_never_raise [OF ps fed cap] obtain s out where
    run: "run_events pb_feed (worker_turn (Some log_packet)) evs (pb_init, []) = Inr (s, out)" by blast
  have c: "length (pending pb_init) + length (fed_bytes pb_accepts evs) \<le> queue_cap"
    using cap by simp
  have fr: "frames_of next_frame (pending pb_init @ fed_bytes pb_accepts evs) = map frame_of ps"
    and rest: "rest_of next_frame (pending pb_init @ fed_bytes pb_accepts evs) = []"
    using frames_of_packets [OF ps, of "[]"] rest_of_packets [OF ps, of "[]"]
    by (simp_all add: fed pb.frames_None pb.rest_None)
  from pb.feed_then_drain [OF pb_inv_init c run, of n] n fr rest deliver_packets [OF ps, of "[]"]
  show ?thesis by auto
qed

lemma frames_count: "length (frames_of next_frame bs) \<le> length bs"
proof (induction bs rule: length_induct)
  case (1 bs)
  show ?case
  proof (cases "next_frame bs")
    case None
    then show ?thesis by (simp add: pb.frames_None)
  next
    case (Some fr)
    then obtain f r where "next_frame bs = Some (f, r)" by (cases fr) auto
    with 1 next_frame_shrinks [of bs f r] show ?thesis by (fastforce simp: pb.frames_Some)
  qed
qed

text \<open>Bytes for which the framing is known: what any interleaving with enough turns ends in.\<close>

lemma complete_run:
  assumes "fed_bytes pb_accepts evs = bs" "length bs \<le> queue_cap" "frames_of next_frame bs = fs" "length fs \<le> n"
  shows "(case deliver_all (deliver_frame handler) fs u of
      Inl e \<Rightarrow> run_events pb_feed (worker_turn handler) (evs @ replicate n Work) (pb_init, u) = Inl e
    | Inr u' \<Rightarrow> \<exists>s. run_events pb_feed (worker_turn handler) (evs @ replicate n Work) (pb_init, u) = Inr (s, u') \<and>
        same_stream next_frame (pending s) (rest_of next_frame bs))"
  by (rule pb.complete [of pb_init evs n handler u]) (use assms in auto)

section \<open>Properties\<close>

text \<open>C1: Reassembly is complete. However the bytes of a sequence of packets are cut into chunks of
  at most 1024 bytes and however the arrivals interleave with the turns of the worker, nothing is
  raised, and once the worker has had as many further turns as there are packets, the handler has
  received exactly the packets sent, equal in every field, in order, each once, and no byte is
  left over.\<close>

theorem stream_reassembled:
  assumes "\<forall>p \<in> set ps. sendable p"
    and "fed_bytes pb_accepts evs = concat (map buildPacket ps)"
    and "length (fed_bytes pb_accepts evs) \<le> queue_cap"
    and "length ps \<le> n"
  shows "\<exists>s. pending s = [] \<and>
    run_events pb_feed (worker_turn (Some log_packet)) (evs @ replicate n Work) (pb_init, []) = Inr (s, ps)"
  using assms by (rule packets_delivered)

theorem stream_reassembled_witness:
  "\<exists>p s. Packet_TCP 1 [5, 6, 7, 8, 9] False = Inr p \<and> pending s = [] \<and>
     run_events pb_feed (worker_turn (Some log_packet))
       ([Arrive [1, 0, 9], Work, Arrive [0, 5, 6, 7], Work, Arrive [8, 9]] @ replicate 1 Work)
       (pb_init, []) = Inr (s, [p])"
proof -
  obtain p where p: "Packet_TCP 1 [5, 6, 7, 8, 9] False = Inr p" by (simp add: Packet_TCP_def)
  have s: "sendable p" and b: "buildPacket p = [1, 0, 9, 0, 5, 6, 7, 8, 9]"
    using p wf_Packet_TCP [OF p]
    by (auto simp: sendable_def result_simps codec_simps length_bytes_def length_low_def
        length_high_def)
  have "\<exists>s. pending s = [] \<and> run_events pb_feed (worker_turn (Some log_packet))
       ([Arrive [1, 0, 9], Work, Arrive [0, 5, 6, 7], Work, Arrive [8, 9]] @ replicate 1 Work)
       (pb_init, []) = Inr (s, [p])"
    by (rule stream_reassembled) (simp_all add: s b pb_accepts_def MAX_PACKET_SIZE_def queue_cap_def)
  with p show ?thesis by blast
qed

text \<open>C5: What a connection does depends only on the bytes it receives. For any handler whatever and any
  bytes at all, two runs that received the same bytes, cut into chunks differently and interleaved
  differently with the worker, end the same way once the worker has had enough turns: they raise
  the same exception, or leave the handler in the same state.\<close>

theorem chunking_is_irrelevant:
  assumes "fed_bytes pb_accepts evs = fed_bytes pb_accepts evs'"
    and "length (fed_bytes pb_accepts evs) \<le> n" "n \<le> queue_cap"
  shows "(case run_events pb_feed (worker_turn handler) (evs @ replicate n Work) (pb_init, u) of
      Inl e \<Rightarrow> Inl e | Inr (s, v) \<Rightarrow> Inr v) =
    (case run_events pb_feed (worker_turn handler) (evs' @ replicate n Work) (pb_init, u) of
      Inl e \<Rightarrow> Inl e | Inr (s, v) \<Rightarrow> Inr v)"
proof -
  have n: "length (frames_of next_frame (fed_bytes pb_accepts evs)) \<le> n"
    using frames_count [of "fed_bytes pb_accepts evs"] assms(2) by simp
  show ?thesis
    using complete_run [OF refl _ refl n, of handler u] complete_run [OF assms(1) [symmetric] _ refl n, of handler u] assms(2,3)
    by (auto split: sum.splits)
qed

theorem chunking_is_irrelevant_witness:
  "(case run_events pb_feed (worker_turn None) ([Arrive [1, 0], Work, Arrive [4, 0]] @ replicate 4 Work) (pb_init, ()) of
      Inl e \<Rightarrow> Inl e | Inr (s, v) \<Rightarrow> Inr v) =
   (case run_events pb_feed (worker_turn None) ([Arrive [1, 0, 4, 0]] @ replicate 4 Work) (pb_init, ()) of
      Inl e \<Rightarrow> Inl e | Inr (s, v) \<Rightarrow> Inr v)"
  by (rule chunking_is_irrelevant) (simp_all add: pb_accepts_def MAX_PACKET_SIZE_def queue_cap_def)

text \<open>Safety for any bytes at all, well-formed or not: as long as nothing was raised, the packets
  handed over are, in order, the first frames of the stream received so far, none twice and none
  skipped, each a well-formed packet; the frames not handed over yet are exactly the frames of the
  bytes still pending.\<close>

theorem stream_prefix:
  assumes "run_events pb_feed (worker_turn (Some log_packet)) evs (pb_init, []) = Inr (s, out)"
    and "length (fed_bytes pb_accepts evs) \<le> queue_cap"
  shows "frames_of next_frame (fed_bytes pb_accepts evs) =
      map frame_of out @ frames_of next_frame (pending s) \<and>
    (\<forall>p \<in> set out. wf_packet p \<and> \<not> p_isUDP p)"
proof -
  have "length (pending pb_init) + length (fed_bytes pb_accepts evs) \<le> queue_cap"
    using assms(2) by simp
  from pb.run_prefix [OF pb_inv_init this assms(1)] obtain ds where
    ds: "frames_of next_frame (fed_bytes pb_accepts evs) = ds @ frames_of next_frame (pending s)"
      "deliver_all (deliver_frame (Some log_packet)) ds [] = Inr out" by auto
  from deliver_log_packets [OF ds(2)] ds(1) show ?thesis by auto
qed

theorem stream_prefix_witness:
  "\<exists>s. run_events pb_feed (worker_turn (Some log_packet)) [Arrive [1, 2, 9], Work] (pb_init, []) = Inr (s, []) \<and>
     frames_of next_frame [1, 2, 9] = frames_of next_frame (pending s)"
proof -
  obtain s where s: "run_events pb_feed (worker_turn (Some log_packet)) [Arrive [1, 2, 9], Work] (pb_init, [])
      = Inr (s, [])"
    by (simp add: pb_feed_def addData_def MAX_PACKET_SIZE_def worker_turn_def process_iteration_def
        with_header_def take_payload_def pb_init_def push_def)
  have "fed_bytes pb_accepts [Arrive [1, 2, 9], Work] = [1, 2, 9]"
    by (simp add: pb_accepts_def MAX_PACKET_SIZE_def)
  with s stream_prefix [OF s] show ?thesis by (auto simp: queue_cap_def)
qed

text \<open>One iteration of the loop implements one step of the framing, for every state of the buffer
  and every handler: with no complete frame pending it delivers nothing and changes at most which
  bytes are held in the header fields; with one it constructs the packet, calls the handler and
  removes exactly that frame's bytes; what the construction or the handler raises leaves the loop.\<close>

theorem iteration_implements_framing:
  assumes "length (pending pb) \<le> queue_cap"
  shows "process_iteration handler (pb, u) =
    (case next_frame (pending pb) of
       None \<Rightarrow> Inr (with_header pb, u)
     | Some (f, r) \<Rightarrow> and_then (deliver_frame handler f u)
         (\<lambda>u'. Inr ((with_header pb)\<lparr>internalBuffer := r, hasReadHeader := False\<rparr>, u'))) \<and>
    same_stream next_frame (pending (with_header pb)) (pending pb)"
  using iteration_refines [OF assms, of handler u] pending_with_header [of pb] by blast

theorem iteration_implements_framing_witness:
  "process_iteration None (pb_init, ()) = Inr (with_header pb_init, ())"
  using iteration_implements_framing [of pb_init None "()"] by simp

text \<open>The payload loop, whose counter has 16 bits, returns for every size it is called with (at most
  65535 bytes, all of them queued): it moves the first n bytes of the queue into the payload, in
  order, and leaves the others.\<close>

theorem payload_loop_returns:
  assumes "n \<le> 65535" "n \<le> length q"
  shows "fill_payload 0 (replicate n 0) q = Some (Inr (take n q, drop n q))"
  using assms by (rule fill_payload_eq)

theorem payload_loop_returns_witness:
  "fill_payload 0 (replicate 2 0) [7, 8, 9] = Some (Inr ([7, 8], [9]))"
  using payload_loop_returns [of 2 "[7, 8, 9]"] by simp

text \<open>C36: The loop of the worker, with no handler set, raises exactly when the next frame of the stream
  announces an empty payload (a length field of 4): the packet's constructor refuses it and the
  std::invalid_argument leaves the thread. It never diverges and never reads an empty queue.\<close>

theorem worker_raises_iff:
  assumes "pb_inv pb" "length (pending pb) \<le> queue_cap"
  shows "worker_turn None (pb, u) = Inl e \<longleftrightarrow>
    (\<exists>i c r. next_frame (pending pb) = Some ((i, c, []), r)) \<and>
    e = Invalid_argument ''Packet: SerializedData cannot be null!''"
proof (cases "internalBuffer pb = []")
  case True
  with empty_queue_idle [OF assms(1)] show ?thesis by (simp add: worker_turn_def)
next
  case False
  with iteration_refines [OF assms(2), of None u] show ?thesis
    by (auto simp: worker_turn_def and_then_Inl_iff frame_simps split: option.splits)
qed

theorem worker_raises_iff_witness:
  "worker_turn None (pb_init\<lparr>internalBuffer := [1, 0, 4, 0]\<rparr>, ()) =
     Inl (Invalid_argument ''Packet: SerializedData cannot be null!'')"
  by (subst worker_raises_iff)
    (auto simp: pb_inv_def pb_init_def pending_def queue_cap_def Let_def unat_combine_length)

text \<open>C37: A header whose length field is below 4 stops the connection for good: whatever arrives after
  it and however often the worker turns, no packet is ever delivered, nothing is raised, and every
  byte received stays queued.\<close>

theorem short_length_stalls:
  assumes "unat (combine_length lo hi) < 4"
    and "fed_bytes pb_accepts evs = a # c # lo # hi # q"
    and "length (fed_bytes pb_accepts evs) \<le> queue_cap"
  shows "\<exists>s. run_events pb_feed (worker_turn (Some log_packet)) evs (pb_init, []) = Inr (s, []) \<and>
    length (pending s) = length (fed_bytes pb_accepts evs)"
proof -
  have none: "next_frame (fed_bytes pb_accepts evs) = None"
    using bad_length_no_frame [OF assms(1)] assms(2) by simp
  have c: "length (pending pb_init) + length (fed_bytes pb_accepts evs) \<le> queue_cap"
    using assms(3) by simp
  show ?thesis
  proof (cases "run_events pb_feed (worker_turn (Some log_packet)) evs (pb_init, [])")
    case (Inl e)
    from pb.run_failure [OF pb_inv_init c Inl] none show ?thesis by (simp add: pb.frames_None)
  next
    case (Inr t)
    then obtain s out where r: "run_events pb_feed (worker_turn (Some log_packet)) evs (pb_init, []) = Inr (s, out)"
      by (cases t) auto
    from pb.run_prefix [OF pb_inv_init c r] none
    have fr: "frames_of next_frame (pending s) = []" and out: "out = []"
      and same: "same_stream next_frame (rest_of next_frame (pending s)) (fed_bytes pb_accepts evs)"
      by (auto simp: pb.frames_None pb.rest_None)
    from fr have "next_frame (pending s) = None"
      by (cases "next_frame (pending s)") (auto simp: pb.frames_Some)
    with same have "length (pending s) = length (fed_bytes pb_accepts evs)"
      by (auto simp: pb.rest_None dest: same_stream_length)
    with r out show ?thesis by auto
  qed
qed

theorem short_length_stalls_witness:
  "\<exists>s. run_events pb_feed (worker_turn (Some log_packet)) [Arrive [1, 0, 3, 0], Work, Arrive [9, 9], Work]
     (pb_init, []) = Inr (s, []) \<and> length (pending s) = 6"
proof -
  have fed: "fed_bytes pb_accepts [Arrive [1, 0, 3, 0], Work, Arrive [9, 9], Work] =
      1 # 0 # 3 # 0 # [9, 9]"
    by (simp add: pb_accepts_def MAX_PACKET_SIZE_def)
  have len: "unat (combine_length 3 0) < 4" by (simp add: unat_combine_length)
  have six: "length (1 # 0 # 3 # 0 # [9, 9 :: byte]) = 6" by simp
  have cap: "length (1 # 0 # 3 # 0 # [9, 9 :: byte]) \<le> queue_cap" by (simp add: queue_cap_def)
  from short_length_stalls [OF len fed] cap show ?thesis unfolding fed six by blast
qed

text \<open>\<open>addData\<close> accepts a chunk exactly when it has at most 1024 bytes; then the count grows by the
  chunk's length, the bytes already queued keep their positions and the new ones follow in order,
  as the index operator reads them; a larger chunk raises std::overflow_error and changes nothing.
  Reading at or past the count raises std::out_of_range.\<close>

theorem addData_contract:
  "(case addData data pb of
      Inl e \<Rightarrow> length data > 1024 \<and>
        e = Overflow_error ''ProcessingBuffer::addData(): Buffer overflow exception!'' \<and>
        pb_feed data pb = pb
    | Inr pb' \<Rightarrow> length data \<le> 1024 \<and> bufferCount pb' = bufferCount pb + length data \<and>
        pb_at pb' i =
          (if i < bufferCount pb then pb_at pb i
           else if i < bufferCount pb + length data then Inr (data ! (i - bufferCount pb))
           else Inl (Out_of_range ''ProcessingBuffer: Index out of range!'')))"
  by (auto simp: addData_def MAX_PACKET_SIZE_def pb_feed_def bufferCount_def pb_at_eq nth_append)

end
