(* ===== verification/Heartbeat_Packet.thy ===== *)
theory Heartbeat_Packet
  imports Wire_Format
begin

text \<open>
  HeartbeatPacket.cpp. Times are counts of std::chrono: \<open>timeSinceLast\<close> in milliseconds,
  \<open>sentTimestamp\<close> in ticks of the system clock. The length of a tick is the implementation's
  choice; \<open>tpm\<close> is the number of ticks in a millisecond (1000000, 10000 or 1000 on the
  platforms the library builds on). The lemmas give the exact domain of the two conversions: the
  parser expects an ID byte the serializer does not write, so a serialized heartbeat is always
  refused, and with that byte put in front it is recovered to the millisecond.
\<close>

record heartbeat =
  timeSinceLast :: int
  sentTimestamp :: int

definition HeartbeatPacket :: "int \<Rightarrow> int \<Rightarrow> heartbeat" where
  "HeartbeatPacket now tSinceLast = \<lparr>timeSinceLast = tSinceLast, sentTimestamp = now\<rparr>"

definition getTimeSinceLast :: "heartbeat \<Rightarrow> int" where
  "getTimeSinceLast h = timeSinceLast h"

definition getSentTimestamp :: "heartbeat \<Rightarrow> int" where
  "getSentTimestamp h = sentTimestamp h"

definition hb_toByteArray :: "int \<Rightarrow> heartbeat \<Rightarrow> bytes" where
  "hb_toByteArray tpm h =
     (let timeSinceLastCount = timeSinceLast h;
          sentTimestampCount = sentTimestamp h sdiv tpm
      in i64_bytes timeSinceLastCount @ i64_bytes sentTimestampCount)"

text \<open>
  The size is checked against 17 bytes and both counts are read one byte further on; the time
  point is built by a multiplication of 64-bit counts. \<open>now\<close> is the clock the constructor reads
  (its value is overwritten).
\<close>

definition hb_byteArrayToObject :: "int \<Rightarrow> int \<Rightarrow> bytes \<Rightarrow> heartbeat result" where
  "hb_byteArrayToObject tpm now arrBytes =
     (if length arrBytes < 8 * 2 + 1
      then Inl (Runtime_error ''HeartbeatPacket::byteArrayToObject(): Invalid byte array size for HeartbeatPacket.'')
      else
        let timeSinceLastCount = i64_of_bytes (take 8 (drop 1 arrBytes));
            sentTimestampCount = i64_of_bytes (take 8 (drop (1 + 8) arrBytes))
        in and_then (checked_i64 (sentTimestampCount * tpm)) (\<lambda>sentTimestamp'.
             let packet = HeartbeatPacket now timeSinceLastCount
             in Inr (packet\<lparr>sentTimestamp := sentTimestamp'\<rparr>)))"

section \<open>Lemmas\<close>

text \<open>A heartbeat the code can hold: both counts fit in 64 bits.\<close>

definition hb_valid :: "heartbeat \<Rightarrow> bool" where
  "hb_valid h \<longleftrightarrow> in_i64 (timeSinceLast h) \<and> \<bar>sentTimestamp h\<bar> < 2 ^ 63"

text \<open>The time stamp rounded towards zero to whole milliseconds.\<close>

definition to_millis :: "int \<Rightarrow> heartbeat \<Rightarrow> heartbeat" where
  "to_millis tpm h = h\<lparr>sentTimestamp := (sentTimestamp h sdiv tpm) * tpm\<rparr>"

lemma length_hb_toByteArray [simp]: "length (hb_toByteArray tpm h) = 16"
  by (simp add: hb_toByteArray_def)

lemma hb_parse_short [simp]:
  "length bs < 17 \<Longrightarrow> hb_byteArrayToObject tpm now bs =
     Inl (Runtime_error ''HeartbeatPacket::byteArrayToObject(): Invalid byte array size for HeartbeatPacket.'')"
  by (simp add: hb_byteArrayToObject_def)

lemma hb_parse_serialized:
  assumes "hb_valid h" "0 < tpm"
  shows "hb_byteArrayToObject tpm now (i # hb_toByteArray tpm h @ rest) = Inr (to_millis tpm h)"
proof -
  have t: "in_i64 (timeSinceLast h)" and s: "\<bar>sentTimestamp h\<bar> < 2 ^ 63"
    using assms(1) by (simp_all add: hb_valid_def)
  have "in_i64 (sentTimestamp h sdiv tpm)" "in_i64 ((sentTimestamp h sdiv tpm) * tpm)"
    using sdiv_abs_le [OF assms(2), of "sentTimestamp h"]
      sdiv_mult_abs_le [OF assms(2), of "sentTimestamp h"] s
    by (auto intro!: in_i64_I)
  with t i64.read_first [of "timeSinceLast h" "i64_bytes (sentTimestamp h sdiv tpm) @ rest"]
    i64.read_second [of "sentTimestamp h sdiv tpm" "timeSinceLast h" rest]
  show ?thesis
    by (simp add: hb_byteArrayToObject_def hb_toByteArray_def HeartbeatPacket_def to_millis_def
        del: take_append drop_append)
qed

lemma hb_parse_domain:
  "hb_byteArrayToObject tpm now bs =
    (if length bs < 17
     then Inl (Runtime_error ''HeartbeatPacket::byteArrayToObject(): Invalid byte array size for HeartbeatPacket.'')
     else if in_i64 (i64_of_bytes (take 8 (drop 9 bs)) * tpm)
     then Inr \<lparr>timeSinceLast = i64_of_bytes (take 8 (drop 1 bs)),
               sentTimestamp = i64_of_bytes (take 8 (drop 9 bs)) * tpm\<rparr>
     else Inl (Undefined_behaviour ''signed overflow''))"
  by (simp add: hb_byteArrayToObject_def HeartbeatPacket_def checked_i64_def)

section \<open>Properties\<close>

text \<open>C34: With one more byte in front (its value does not matter) a serialized heartbeat is parsed back:
  the time since the last heartbeat exactly, the time stamp rounded to whole milliseconds, an
  error of less than a millisecond; bytes after the 17th are ignored.\<close>

theorem heartbeat_roundtrip_with_id:
  assumes "hb_valid h" "0 < tpm"
  shows "hb_byteArrayToObject tpm now (i # hb_toByteArray tpm h @ rest) = Inr (to_millis tpm h) \<and>
    getTimeSinceLast (to_millis tpm h) = getTimeSinceLast h \<and>
    \<bar>getSentTimestamp h - getSentTimestamp (to_millis tpm h)\<bar> < tpm"
  using hb_parse_serialized [OF assms] sdiv_mult_error [OF assms(2), of "sentTimestamp h"]
  by (simp add: getTimeSinceLast_def getSentTimestamp_def to_millis_def)

theorem heartbeat_roundtrip_with_id_witness:
  "hb_byteArrayToObject 1000 0 (253 # hb_toByteArray 1000 \<lparr>timeSinceLast = 30000, sentTimestamp = 1700000000123456\<rparr> @ [])
     = Inr \<lparr>timeSinceLast = 30000, sentTimestamp = 1700000000123000\<rparr>"
  using heartbeat_roundtrip_with_id [of "\<lparr>timeSinceLast = 30000, sentTimestamp = 1700000000123456\<rparr>" 1000 0 253 "[]"]
  by (simp add: hb_valid_def in_i64_def to_millis_def sdiv_lower_eq)

text \<open>A heartbeat of the right size can still break the receiver: there is a 17-byte array whose time
  stamp does not fit into the ticks of the clock, and parsing it multiplies past 64 bits, which is
  undefined behaviour; and apart from that overflow the parser accepts every array of at least 17
  bytes.\<close>

theorem heartbeat_parse_overflow:
  assumes "2 \<le> tpm"
  shows "(\<exists>bs. length bs = 17 \<and>
      hb_byteArrayToObject tpm now bs = Inl (Undefined_behaviour ''signed overflow'')) \<and>
    (17 \<le> length cs \<longrightarrow> is_ok (hb_byteArrayToObject tpm now cs) \<or>
      hb_byteArrayToObject tpm now cs = Inl (Undefined_behaviour ''signed overflow''))"
proof -
  define t :: int where "t = 2 ^ 63 - 1"
  have t: "in_i64 t" by (simp add: in_i64_def t_def)
  have "t * 2 \<le> t * tpm" using assms by (intro mult_left_mono) (simp_all add: t_def)
  then have big: "\<not> in_i64 (t * tpm)" by (simp add: in_i64_def t_def)
  have "hb_byteArrayToObject tpm now (0 # i64_bytes 0 @ i64_bytes t) =
      Inl (Undefined_behaviour ''signed overflow'')"
    using i64.read_second [OF t, of 0 "[]"] big
    by (simp add: hb_parse_domain del: take_append drop_append)
  then show ?thesis
    by (intro conjI exI [of _ "0 # i64_bytes 0 @ i64_bytes t"]) (simp_all add: hb_parse_domain)
qed

theorem heartbeat_parse_overflow_witness:
  "\<exists>bs. length bs = 17 \<and>
     hb_byteArrayToObject 1000000 0 bs = Inl (Undefined_behaviour ''signed overflow'')"
  using heartbeat_parse_overflow [of 1000000 0 "[]"] by simp

end
