(* ===== verification/Goodbye_Packet.thy ===== *)
theory Goodbye_Packet
  imports Wire_Format
begin

text \<open>
  GoodbyePacket.h and GoodbyePacket.cpp: the packet either side sends before it disconnects. The
  timeout is a count of seconds, the time it was sent a count of ticks of the system clock;
  \<open>tps\<close> is the number of ticks in a second. The lemmas show that what is serialized is parsed
  back, to the second, and which byte arrays the parser accepts.
\<close>

datatype default_timeouts = Server | Client

fun ParloDefaultTimeouts :: "default_timeouts \<Rightarrow> int" where
  "ParloDefaultTimeouts Server = 60"
| "ParloDefaultTimeouts Client = 5"

record goodbye =
  timeout :: int
  sentTime :: int

text \<open>The default constructor: no timeout, the epoch.\<close>

definition GoodbyePacket_default :: goodbye where
  "GoodbyePacket_default = \<lparr>timeout = 0, sentTime = 0\<rparr>"

definition GoodbyePacket :: "int \<Rightarrow> int \<Rightarrow> goodbye" where
  "GoodbyePacket now timeoutSeconds = \<lparr>timeout = timeoutSeconds, sentTime = now\<rparr>"

definition gb_toByteArray :: "int \<Rightarrow> goodbye \<Rightarrow> bytes" where
  "gb_toByteArray tps g =
     (let timeoutSec = timeout g;
          bytes = [] @ i64_bytes timeoutSec;
          sentTimeSec = sentTime g sdiv tps
      in bytes @ i64_bytes sentTimeSec)"

definition gb_fromByteArray :: "int \<Rightarrow> bytes \<Rightarrow> goodbye result" where
  "gb_fromByteArray tps arrBytes =
     (if length arrBytes < 8 + 8
      then Inl (Runtime_error ''Byte array too small for GoodbyePacket deserialization.'')
      else
        let packet = GoodbyePacket_default;
            offset = 0;
            timeoutSec = i64_of_bytes (take 8 (drop offset arrBytes));
            offset = offset + 8;
            packet = packet\<lparr>timeout := timeoutSec\<rparr>;
            sentTimeSec = i64_of_bytes (take 8 (drop offset arrBytes))
        in and_then (checked_i64 (sentTimeSec * tps)) (\<lambda>t. Inr (packet\<lparr>sentTime := t\<rparr>)))"

section \<open>Lemmas\<close>

definition gb_valid :: "goodbye \<Rightarrow> bool" where
  "gb_valid g \<longleftrightarrow> in_i64 (timeout g) \<and> \<bar>sentTime g\<bar> < 2 ^ 63"

definition to_seconds :: "int \<Rightarrow> goodbye \<Rightarrow> goodbye" where
  "to_seconds tps g = g\<lparr>sentTime := (sentTime g sdiv tps) * tps\<rparr>"

lemma length_gb_toByteArray [simp]: "length (gb_toByteArray tps g) = 16"
  by (simp add: gb_toByteArray_def)

lemma gb_parse_serialized:
  assumes "gb_valid g" "0 < tps"
  shows "gb_fromByteArray tps (gb_toByteArray tps g @ rest) = Inr (to_seconds tps g)"
proof -
  have t: "in_i64 (timeout g)" and s: "\<bar>sentTime g\<bar> < 2 ^ 63"
    using assms(1) by (simp_all add: gb_valid_def)
  have "in_i64 (sentTime g sdiv tps)" "in_i64 ((sentTime g sdiv tps) * tps)"
    using sdiv_abs_le [OF assms(2), of "sentTime g"]
      sdiv_mult_abs_le [OF assms(2), of "sentTime g"] s
    by (auto intro!: in_i64_I)
  with t i64.read_first [of "timeout g" "i64_bytes (sentTime g sdiv tps) @ rest"]
    i64.read_second [of "sentTime g sdiv tps" "timeout g" rest]
  show ?thesis
    by (simp add: gb_fromByteArray_def gb_toByteArray_def GoodbyePacket_default_def to_seconds_def
        del: take_append drop_append)
qed

text \<open>A parsed packet written again gives the bytes it was parsed from.\<close>

lemma gb_reserialize:
  assumes "gb_fromByteArray tps bs = Inr g" "length bs = 16" "0 < tps"
  shows "gb_toByteArray tps g = bs"
proof -
  define x y where "x = take 8 bs" and "y = drop 8 bs"
  have xy: "bs = x @ y" "length x = 8" "length y = 8" using assms(2) by (simp_all add: x_def y_def)
  with assms(1) have "g = \<lparr>timeout = i64_of_bytes x, sentTime = i64_of_bytes y * tps\<rparr>"
    by (auto simp: gb_fromByteArray_def Let_def GoodbyePacket_default_def result_simps)
  with xy assms(3) show ?thesis
    by (simp add: gb_toByteArray_def i64.enc_dec)
qed

section \<open>Properties\<close>

text \<open>A goodbye packet is parsed back from its own serialization: the timeout exactly, the time it
  was sent rounded to whole seconds, an error of less than a second; bytes after it are ignored.\<close>

theorem goodbye_roundtrip:
  assumes "gb_valid g" "0 < tps"
  shows "gb_fromByteArray tps (gb_toByteArray tps g @ rest) = Inr (to_seconds tps g) \<and>
    timeout (to_seconds tps g) = timeout g \<and> \<bar>sentTime g - sentTime (to_seconds tps g)\<bar> < tps"
  using gb_parse_serialized [OF assms] sdiv_mult_error [OF assms(2), of "sentTime g"]
  by (simp add: to_seconds_def)

theorem goodbye_roundtrip_witness:
  "gb_fromByteArray 1000 (gb_toByteArray 1000 (GoodbyePacket 1999 (ParloDefaultTimeouts Client)) @ []) =
     Inr \<lparr>timeout = 5, sentTime = 1000\<rparr>"
  using goodbye_roundtrip [of "GoodbyePacket 1999 (ParloDefaultTimeouts Client)" 1000 "[]"]
  by (simp add: gb_valid_def GoodbyePacket_def in_i64_def to_seconds_def sdiv_lower_eq)

text \<open>The other direction: a 16-byte array that is accepted is exactly what the parsed packet
  serializes to, so two different arrays are never parsed to the same packet.\<close>

theorem goodbye_reserialize:
  assumes "gb_fromByteArray tps bs = Inr g" "length bs = 16" "0 < tps"
  shows "gb_toByteArray tps g = bs"
  using assms by (rule gb_reserialize)

theorem goodbye_reserialize_witness:
  "gb_toByteArray 1000 \<lparr>timeout = 5, sentTime = 1000\<rparr> = gb_toByteArray 1000 \<lparr>timeout = 5, sentTime = 1999\<rparr>"
proof -
  have "gb_fromByteArray 1000 (gb_toByteArray 1000 \<lparr>timeout = 5, sentTime = 1999\<rparr>) =
      Inr \<lparr>timeout = 5, sentTime = 1000\<rparr>"
    using gb_parse_serialized [of "\<lparr>timeout = 5, sentTime = 1999\<rparr>" 1000 "[]"]
    by (simp add: gb_valid_def in_i64_def to_seconds_def sdiv_lower_eq)
  from goodbye_reserialize [OF this] show ?thesis by simp
qed

end
