(* ===== verification/Compression.thy ===== *)
theory Compression
  imports Parlo_Prelude
begin

text \<open>
  \<open>shouldCompressData\<close>, \<open>compressData\<close> and \<open>decompressData\<close> of NetworkClient.cpp. zlib itself is
  a parameter: \<open>z_init\<close> is deflateInit or inflateInit with the input handed over, \<open>z_step\<close> one
  call of deflate or inflate with a fresh output buffer, giving the return code, the bytes it put
  into that buffer and the stream's next state. The loops around it are the code's. The lemmas
  show that a loop returns exactly when the stream stops answering Z_OK, with all the output in
  order; \<open>zlib_contract\<close> states zlib's documented behaviour for the round trip.
\<close>

datatype zret = Z_OK | Z_STREAM_END | Z_ERROR int

record 'z codec =
  z_init :: "bytes \<Rightarrow> 'z option"
  z_step :: "'z \<Rightarrow> zret \<times> bytes \<times> 'z"

text \<open>
  The do-while loop both functions have: \<open>total_out\<close> counts the bytes zlib has produced, and what
  the vector is missing of them is copied from the front of the output buffer.
\<close>

partial_function (option) z_loop ::
  "('z \<Rightarrow> zret \<times> bytes \<times> 'z) \<Rightarrow> bytes \<Rightarrow> nat \<Rightarrow> 'z \<Rightarrow> (zret \<times> bytes) option" where
  "z_loop zstep outdata total_out zs =
     (let (ret, outbuffer, zs') = zstep zs;
          total_out' = total_out + length outbuffer;
          outdata' = (if length outdata < total_out'
                      then outdata @ take (total_out' - length outdata) outbuffer else outdata)
      in if ret = Z_OK then z_loop zstep outdata' total_out' zs' else Some (ret, outdata'))"

definition compressData :: "'z codec \<Rightarrow> bytes \<Rightarrow> bytes result" where
  "compressData zlib data =
     (if data = [] then Inl (Invalid_argument ''Data cannot be null or empty'')
      else case z_init zlib data of
          None \<Rightarrow> Inl (Runtime_error ''deflateInit failed'')
        | Some zs \<Rightarrow>
            (case z_loop (z_step zlib) [] 0 zs of
               None \<Rightarrow> Inl Diverges
             | Some (ret, outdata) \<Rightarrow>
                 if ret \<noteq> Z_STREAM_END
                 then Inl (Runtime_error ''Exception during zlib compression'')
                 else Inr outdata))"

definition decompressData :: "'z codec \<Rightarrow> bytes \<Rightarrow> bytes result" where
  "decompressData zlib data =
     (if data = [] then Inl (Invalid_argument ''Data cannot be null or empty'')
      else case z_init zlib data of
          None \<Rightarrow> Inl (Runtime_error ''NetworkClient::decompressData: inflateInit failed.'')
        | Some zs \<Rightarrow>
            (case z_loop (z_step zlib) [] 0 zs of
               None \<Rightarrow> Inl Diverges
             | Some (ret, outData) \<Rightarrow>
                 if ret \<noteq> Z_STREAM_END
                 then Inl (Runtime_error ''NetworkClient::decompressData: Exception during zlib decompression.'')
                 else Inr outData))"

text \<open>The constants of \<open>NetworkClient::Impl\<close>; the comparison of sizes is unsigned.\<close>

definition COMPRESSION_THRESHOLD :: nat where
  "COMPRESSION_THRESHOLD = 1024"

definition RTT_COMPRESSION_THRESHOLD :: int where
  "RTT_COMPRESSION_THRESHOLD = 100"

definition shouldCompressData :: "bool \<Rightarrow> bytes \<Rightarrow> i32 \<Rightarrow> bool result" where
  "shouldCompressData applyCompression data rtt =
     (if data = [] then Inl (Invalid_argument ''Data cannot be null or empty'')
      else if \<not> applyCompression then Inr False
      else if length data < COMPRESSION_THRESHOLD then Inr False
      else if sint rtt > RTT_COMPRESSION_THRESHOLD then Inr True
      else Inr False)"

section \<open>The loop\<close>

text \<open>The output of a stream up to the first answer that is not Z_OK.\<close>

inductive emits :: "('z \<Rightarrow> zret \<times> bytes \<times> 'z) \<Rightarrow> 'z \<Rightarrow> bytes \<Rightarrow> zret \<Rightarrow> bool" for zstep where
  last: "zstep z = (r, out, z') \<Longrightarrow> r \<noteq> Z_OK \<Longrightarrow> emits zstep z out r"
| more: "zstep z = (Z_OK, out, z') \<Longrightarrow> emits zstep z' rest r \<Longrightarrow> emits zstep z (out @ rest) r"

inductive_cases emits_okE: "emits zstep z out Z_OK"

lemma z_loop_step:
  "z_loop zstep acc (length acc) z =
     (case zstep z of (ret, out, z') \<Rightarrow>
        if ret = Z_OK then z_loop zstep (acc @ out) (length (acc @ out)) z' else Some (ret, acc @ out))"
  by (subst z_loop.simps) (auto split: prod.split)

lemma z_loop_emits:
  "emits zstep z out r \<Longrightarrow> z_loop zstep acc (length acc) z = Some (r, acc @ out)"
proof (induction arbitrary: acc rule: emits.induct)
  case (last z r out z')
  then show ?case by (simp add: z_loop_step)
next
  case (more z out z' rest r)
  show ?case
    using more.IH [of "acc @ out"] by (simp add: z_loop_step [of zstep acc z] more.hyps(1))
qed

text \<open>Conversely, what the loop returns is the whole output of the stream.\<close>

lemma z_loop_returns:
  assumes ret: "z_loop zstep acc n z = Some res" and n: "n = length acc"
  shows "\<exists>out. emits zstep z out (fst res) \<and> snd res = acc @ out"
proof -
  have "n = length acc \<longrightarrow> (\<exists>out. emits zstep z out (fst res) \<and> snd res = acc @ out)"
  proof (rule z_loop.raw_induct [where P = "\<lambda>zstep acc n z res.
      n = length acc \<longrightarrow> (\<exists>out. emits zstep z out (fst res) \<and> snd res = acc @ out)", OF _ ret])
    fix f and zstep :: "'a \<Rightarrow> zret \<times> bytes \<times> 'a" and acc n z res
    assume IH: "\<And>zstep acc n z res. f zstep acc n z = Some res \<Longrightarrow>
        n = length acc \<longrightarrow> (\<exists>out. emits zstep z out (fst res) \<and> snd res = acc @ out)"
      and eq: "(let (ret, outbuffer, zs') = zstep z; total_out' = n + length outbuffer;
          outdata' = if length acc < total_out' then acc @ take (total_out' - length acc) outbuffer else acc
        in if ret = Z_OK then f zstep outdata' total_out' zs' else Some (ret, outdata')) = Some res"
    obtain r out z' where step: "zstep z = (r, out, z')" by (cases "zstep z") auto
    show "n = length acc \<longrightarrow> (\<exists>out. emits zstep z out (fst res) \<and> snd res = acc @ out)"
    proof
      assume len: "n = length acc"
      have acc': "(if length acc < n + length out then acc @ take (n + length out - length acc) out else acc) =
          acc @ out" using len by simp
      show "\<exists>out. emits zstep z out (fst res) \<and> snd res = acc @ out"
      proof (cases "r = Z_OK")
        case True
        with eq step acc' have "f zstep (acc @ out) (n + length out) z' = Some res" by simp
        from IH [OF this] len obtain rest where rest: "emits zstep z' rest (fst res)"
          "snd res = acc @ out @ rest" by auto
        from step True have "zstep z = (Z_OK, out, z')" by simp
        from emits.more [of zstep z out z' rest "fst res", OF this rest(1)] rest(2) show ?thesis by (intro exI conjI)
      next
        case False
        with eq step acc' have "res = (r, acc @ out)" by simp
        with emits.last [of zstep z r out z', OF step False] show ?thesis by (intro exI [of _ out]) simp
      qed
    qed
  qed
  with n show ?thesis by simp
qed

lemma z_loop_iff: "z_loop zstep [] 0 z = Some (r, out) \<longleftrightarrow> emits zstep z out r"
  using z_loop_emits [of zstep z out r "[]"] z_loop_returns [of zstep "[]" 0 z "(r, out)"] by auto

lemma emits_not_ok: "emits zstep z out r \<Longrightarrow> r \<noteq> Z_OK"
  by (induction rule: emits.induct) auto

lemma emits_deterministic:
  "emits zstep z out r \<Longrightarrow> emits zstep z out' r' \<Longrightarrow> out = out' \<and> r = r'"
  by (metis z_loop_iff option.inject prod.inject)

text \<open>A stream that makes progress towards an end with every Z_OK ends.\<close>

lemma emits_total:
  assumes "\<And>z out z'. zstep z = (Z_OK, out, z') \<Longrightarrow> left z' < (left z :: nat)"
  shows "\<exists>out r. emits zstep z out r"
proof (induction "left z" arbitrary: z rule: less_induct)
  case less
  obtain r out z' where step: "zstep z = (r, out, z')" by (cases "zstep z") auto
  show ?case
  proof (cases "r = Z_OK")
    case True
    with step assms have "left z' < left z" by blast
    with less step True show ?thesis by (blast intro: emits.more)
  next
    case False
    with step show ?thesis by (blast intro: emits.last)
  qed
qed

section \<open>The two functions\<close>

lemma loop_result_iff:
  "(case z_loop zstep [] 0 z of None \<Rightarrow> Inl Diverges
    | Some (ret, out) \<Rightarrow> if ret \<noteq> Z_STREAM_END then Inl e else Inr out) = Inr out' \<longleftrightarrow>
   emits zstep z out' Z_STREAM_END"
  unfolding z_loop_iff [symmetric] by (auto split: option.split)

lemma compressData_Inr_iff [client_simps]:
  "compressData zlib d = Inr out \<longleftrightarrow>
     d \<noteq> [] \<and> (\<exists>z. z_init zlib d = Some z \<and> emits (z_step zlib) z out Z_STREAM_END)"
  by (auto simp: compressData_def loop_result_iff split: option.splits if_splits)

lemma decompressData_Inr_iff [client_simps]:
  "decompressData zlib d = Inr out \<longleftrightarrow>
     d \<noteq> [] \<and> (\<exists>z. z_init zlib d = Some z \<and> emits (z_step zlib) z out Z_STREAM_END)"
  by (auto simp: decompressData_def loop_result_iff split: option.splits if_splits)

text \<open>
  What zlib documents: deflating any non-empty input ends with Z_STREAM_END after producing some
  non-empty byte string, and inflating that string ends with Z_STREAM_END after producing the
  input. \<open>DEFLATE d\<close> is that string; how either stream cuts its output into calls is left open.
\<close>

definition zlib_contract :: "'z codec \<Rightarrow> 'y codec \<Rightarrow> (bytes \<Rightarrow> bytes) \<Rightarrow> bool" where
  "zlib_contract deflater inflater DEFLATE \<longleftrightarrow>
     (\<forall>d. d \<noteq> [] \<longrightarrow> DEFLATE d \<noteq> [] \<and>
        (\<exists>z. z_init deflater d = Some z \<and> emits (z_step deflater) z (DEFLATE d) Z_STREAM_END) \<and>
        (\<exists>z. z_init inflater (DEFLATE d) = Some z \<and> emits (z_step inflater) z d Z_STREAM_END))"

text \<open>A stream makes progress: every Z_OK leaves less to produce (by a measure of the stream).\<close>

definition makes_progress :: "'z codec \<Rightarrow> ('z \<Rightarrow> nat) \<Rightarrow> bool" where
  "makes_progress zlib left \<longleftrightarrow>
     (\<forall>z out z'. z_step zlib z = (Z_OK, out, z') \<longrightarrow> left z' < left z)"

lemma progress_loop_returns:
  "makes_progress zlib left \<Longrightarrow> \<exists>r out. z_loop (z_step zlib) [] 0 z = Some (r, out)"
  using emits_total [of "z_step zlib" left z] by (auto simp: makes_progress_def z_loop_iff)

text \<open>A codec that stores the bytes, one per call, satisfies both.\<close>

fun store_step :: "bytes \<Rightarrow> zret \<times> bytes \<times> bytes" where
  "store_step [] = (Z_STREAM_END, [], [])"
| "store_step (b # bs) = (Z_OK, [b], bs)"

definition store_codec :: "bytes codec" where
  "store_codec = \<lparr>z_init = Some, z_step = store_step\<rparr>"

lemma store_emits: "emits store_step bs bs Z_STREAM_END"
proof (induction bs)
  case Nil
  show ?case by (rule emits.last) simp_all
next
  case (Cons b bs)
  from emits.more [of store_step "b # bs" "[b]" bs bs, OF _ Cons.IH] show ?case by simp
qed

lemma store_contract: "zlib_contract store_codec store_codec (\<lambda>d. d)"
  by (simp add: zlib_contract_def store_codec_def store_emits)

lemma store_progress: "makes_progress store_codec length"
  by (auto simp: makes_progress_def store_codec_def elim: store_step.elims)

section \<open>Properties\<close>

text \<open>Given zlib's documented behaviour, what \<open>compressData\<close> returns for any non-empty data is
  decompressed to exactly that data by \<open>decompressData\<close>, however many calls either loop needs and
  however the output is cut into buffers.\<close>

theorem compression_roundtrip:
  assumes "zlib_contract deflater inflater DEFLATE" "d \<noteq> []"
  shows "\<exists>c. compressData deflater d = Inr c \<and> c \<noteq> [] \<and> decompressData inflater c = Inr d"
  using assms by (intro exI [of _ "DEFLATE d"]) (simp add: zlib_contract_def client_simps)

theorem compression_roundtrip_witness:
  "\<exists>c. compressData store_codec [1, 2, 3] = Inr c \<and> c \<noteq> [] \<and> decompressData store_codec c = Inr [1, 2, 3]"
  by (rule compression_roundtrip [OF store_contract]) simp

text \<open>C35: The loops return, for any zlib whose every Z_OK makes progress: neither function diverges, and
  each returns the whole output of the stream when it ends with Z_STREAM_END and raises in every
  other case; empty data is refused before zlib is called.\<close>

theorem codec_loops_return:
  assumes "makes_progress zlib left"
  shows "compressData zlib d \<noteq> Inl Diverges \<and> decompressData zlib d \<noteq> Inl Diverges \<and>
    (compressData zlib d = Inr out \<longleftrightarrow>
       d \<noteq> [] \<and> (\<exists>z. z_init zlib d = Some z \<and> emits (z_step zlib) z out Z_STREAM_END)) \<and>
    (decompressData zlib d = Inr out \<longleftrightarrow> compressData zlib d = Inr out)"
proof -
  have returns: "z_loop (z_step zlib) [] 0 z = None \<longleftrightarrow> False" for z
    using progress_loop_returns [OF assms, of z] by force
  have "compressData zlib d \<noteq> Inl Diverges \<and> decompressData zlib d \<noteq> Inl Diverges"
    by (auto simp: compressData_def decompressData_def returns split: option.split)
  then show ?thesis by (simp add: client_simps)
qed

theorem codec_loops_return_witness:
  "compressData store_codec [] \<noteq> Inl Diverges \<and> decompressData store_codec [7] \<noteq> Inl Diverges"
  using codec_loops_return [OF store_progress, of "[]"] codec_loops_return [OF store_progress, of "[7]"]
  by blast

end
