(* ===== verification/Network_Client.thy ===== *)
theory Network_Client
  imports Processing_Buffer Heartbeat_Packet Goodbye_Packet Compression
begin

text \<open>
  NetworkClient.cpp: the state of a client, the packets it dispatches, the asynchronous operations
  and their completion handlers, the two heartbeat threads (one iteration of each loop),
  disconnection and the destructor. asio is outside the model: starting an operation appends an
  effect to \<open>trace\<close>, its completion is a definition of its own that takes the error code (here:
  whether there was an error) as an argument. The same \<open>trace\<close> records the calls of the handlers
  the user set. Exceptions a try block catches leave the state they were raised in.
\<close>

section \<open>State\<close>

datatype nc_effect =
    ServerDisconnected | ClientDisconnected | ConnectionLost | HeartbeatReceived
  | DataReceived packet
  | AsyncConnect | AsyncRead | AsyncWrite bytes | ShutdownSocket | CloseSocket

text \<open>
  \<open>heartbeatCheckThread\<close> and \<open>sendHeartbeatsThread\<close> say whether the thread is joinable, the five
  \<open>on...\<close> fields whether the handler is set. \<open>ownerSet\<close> is whether the pointer \<open>owner\<close> has been
  initialised, \<open>implShared\<close> whether a shared_ptr owns the Impl object (what its
  shared_from_this() needs), \<open>clientShared\<close> the same for the NetworkClient object.
\<close>

record nclient =
  applyCompression :: bool
  connected :: bool
  lastHeartbeatSent :: int
  heartbeatCheckThread :: bool
  sendHeartbeatsThread :: bool
  stopSendingHeartbeats :: bool
  stopCheckMissedHeartbeats :: bool
  isAlive :: bool
  missedHeartbeats :: i32
  lastRTT :: i32
  onServerDisconnected :: bool
  onClientDisconnected :: bool
  onConnectionLost :: bool
  onReceivedHeartbeat :: bool
  onReceivedData :: bool
  ownerSet :: bool
  implShared :: bool
  clientShared :: bool
  socketOpen :: bool
  trace :: "nc_effect list"

definition maxMissedHeartbeats :: int where
  "maxMissedHeartbeats = 6"

definition emit :: "nc_effect \<Rightarrow> nclient \<Rightarrow> nclient" where
  "emit e nc = nc\<lparr>trace := trace nc @ [e]\<rparr>"

text \<open>
  The members' initial values. \<open>lastRTT\<close> has none: it starts with whatever the memory holds,
  \<open>rtt0\<close>. The Impl is held by a unique_ptr, so no shared_ptr ever owns it.
\<close>

definition nc_init :: "i32 \<Rightarrow> bool \<Rightarrow> bool \<Rightarrow> nclient" where
  "nc_init rtt0 shared isopen =
     \<lparr>applyCompression = False, connected = True, lastHeartbeatSent = 0,
      heartbeatCheckThread = False, sendHeartbeatsThread = False,
      stopSendingHeartbeats = False, stopCheckMissedHeartbeats = False,
      isAlive = True, missedHeartbeats = 0, lastRTT = rtt0,
      onServerDisconnected = False, onClientDisconnected = False, onConnectionLost = False,
      onReceivedHeartbeat = False, onReceivedData = False,
      ownerSet = False, implShared = False, clientShared = shared, socketOpen = isopen, trace = []\<rparr>"

section \<open>Handlers\<close>

text \<open>\<open>handler(shared_from_this())\<close>, where the handler is set.\<close>

definition fire :: "bool \<Rightarrow> nc_effect \<Rightarrow> nclient \<Rightarrow> nclient result" where
  "fire isset e nc =
     (if \<not> isset then Inr nc
      else if \<not> clientShared nc then Inl Bad_weak_ptr
      else Inr (emit e nc))"

text \<open>\<open>onConnectionLostHandler(getNetworkClientSharedPtr())\<close>, which goes through \<open>owner\<close>.\<close>

definition fire_lost :: "nclient \<Rightarrow> nclient result" where
  "fire_lost nc =
     (if \<not> onConnectionLost nc then Inr nc
      else if \<not> ownerSet nc then Inl (Undefined_behaviour ''owner is not initialised'')
      else if \<not> clientShared nc then Inl Bad_weak_ptr
      else Inr (emit ConnectionLost nc))"

text \<open>
  The Heartbeat branch of the packet handler: \<open>tpm\<close> are the clock's ticks per millisecond, \<open>now\<close>
  what it reads. The round-trip time is a 64-bit count cast to int.
\<close>

definition on_heartbeat :: "int \<Rightarrow> int \<Rightarrow> packet \<Rightarrow> nclient \<Rightarrow> nclient result" where
  "on_heartbeat tpm now packet nc =
     (let nc = nc\<lparr>isAlive := True\<rparr>;
          nc = nc\<lparr>missedHeartbeats := 0\<rparr>
      in and_then (hb_byteArrayToObject tpm now (getData packet)) (\<lambda>hb.
         and_then (checked_i64 (now - getSentTimestamp hb)) (\<lambda>elapsed.
           let duration = elapsed sdiv tpm
           in and_then (checked_i64 (duration + getTimeSinceLast hb)) (\<lambda>rtt.
                let nc = nc\<lparr>lastRTT := word_of_int rtt\<rparr>
                in fire (onReceivedHeartbeat nc) HeartbeatReceived nc))))"

text \<open>The packet handler of a client made by a Listener.\<close>

definition on_packet :: "int \<Rightarrow> int \<Rightarrow> 'z codec \<Rightarrow> packet \<Rightarrow> nclient \<Rightarrow> nclient result" where
  "on_packet tpm now inflater packet nc =
     (if getID packet = parlo_id SGoodbye then fire (onServerDisconnected nc) ServerDisconnected nc
      else if getID packet = parlo_id CGoodbye then fire (onClientDisconnected nc) ClientDisconnected nc
      else if getID packet = parlo_id Heartbeat then on_heartbeat tpm now packet nc
      else if getIsCompressed packet \<noteq> 0
      then and_then (decompressData inflater (getData packet)) (\<lambda>decompressedData.
             if \<not> onReceivedData nc then Inr nc
             else if \<not> clientShared nc then Inl Bad_weak_ptr
             else and_then (Packet_TCP (getID packet) decompressedData False) (\<lambda>p.
                    Inr (emit (DataReceived p) nc)))
      else if \<not> onReceivedData nc then Inr nc
      else if \<not> clientShared nc then Inl Bad_weak_ptr
      else and_then (Packet_TCP (getID packet) (getData packet) False) (\<lambda>p.
             Inr (emit (DataReceived p) nc)))"

text \<open>The packet handler of a client made from a socket sets \<open>owner\<close> first.\<close>

definition on_packet_socket :: "int \<Rightarrow> int \<Rightarrow> 'z codec \<Rightarrow> packet \<Rightarrow> nclient \<Rightarrow> nclient result" where
  "on_packet_socket tpm now inflater packet nc =
     on_packet tpm now inflater packet (nc\<lparr>ownerSet := True\<rparr>)"

section \<open>Receiving and sending\<close>

definition receiveAsync :: "nclient \<Rightarrow> nclient result" where
  "receiveAsync nc =
     (if \<not> connected nc then Inr nc
      else if \<not> implShared nc then Inl Bad_weak_ptr
      else Inr (emit AsyncRead nc))"

text \<open>
  Completion of a read. A chunk that is too large is logged and dropped: \<open>pb_feed\<close> is \<open>addData\<close>
  under that try block.
\<close>

definition read_done :: "bool \<Rightarrow> bytes \<Rightarrow> procbuf \<times> nclient \<Rightarrow> (procbuf \<times> nclient) result" where
  "read_done ec data s =
     (if \<not> ec
      then and_then (receiveAsync (snd s)) (\<lambda>nc. Inr (pb_feed data (fst s), nc))
      else and_then (fire_lost ((snd s)\<lparr>connected := False\<rparr>)) (\<lambda>nc. Inr (fst s, nc)))"

text \<open>
  \<open>sendAsync\<close>: when the data is to be compressed, the packet is made of the still empty
  \<open>finalData\<close>; what is written is \<open>data\<close> either way.
\<close>

definition sendAsync :: "'z codec \<Rightarrow> bytes \<Rightarrow> nclient \<Rightarrow> nclient result" where
  "sendAsync deflater data nc =
     (if data = [] then Inl (Invalid_argument ''Data cannot be null or empty'')
      else if length data > MAX_PACKET_SIZE
      then Inl (Overflow_error ''Data size exceeds maximum packet size'')
      else if \<not> connected nc then Inl (Runtime_error ''Socket is not connected'')
      else
        let finalData = [] in
        and_then (shouldCompressData (applyCompression nc) data (lastRTT nc)) (\<lambda>compress.
        and_then (if compress
                  then and_then (compressData deflater data) (\<lambda>compressedData.
                       and_then (Packet_TCP (data ! 0) finalData True) (\<lambda>compressedPacket.
                         Inr (buildPacket compressedPacket)))
                  else Inr data) (\<lambda>finalData.
        if \<not> implShared nc then Inl Bad_weak_ptr
        else Inr (emit (AsyncWrite data) nc))))"

definition write_done :: "bool \<Rightarrow> nclient \<Rightarrow> nclient result" where
  "write_done ec nc = (if ec then fire_lost (nc\<lparr>connected := False\<rparr>) else Inr nc)"

section \<open>Constructors and connecting\<close>

definition NetworkClient_socket :: "i32 \<Rightarrow> bool \<Rightarrow> bool \<Rightarrow> nclient result" where
  "NetworkClient_socket rtt0 shared isopen = Inr (nc_init rtt0 shared isopen)"

text \<open>
  The Listener's constructor starts both threads and then receives. If that raises, the Impl is
  destroyed while its threads are joinable, which is std::terminate.
\<close>

definition NetworkClient_listener :: "i32 \<Rightarrow> bool \<Rightarrow> bool \<Rightarrow> nclient result" where
  "NetworkClient_listener rtt0 shared isopen =
     (let nc = nc_init rtt0 shared isopen;
          nc = nc\<lparr>ownerSet := True\<rparr>;
          nc = nc\<lparr>heartbeatCheckThread := True\<rparr>;
          nc = nc\<lparr>sendHeartbeatsThread := True\<rparr>
      in case receiveAsync nc of
           Inr nc' \<Rightarrow> Inr nc'
         | Inl e \<Rightarrow>
             if heartbeatCheckThread nc \<or> sendHeartbeatsThread nc
             then Inl (Std_terminate ''joinable thread destroyed'') else Inl e)"

definition connectAsync :: "nclient \<Rightarrow> nclient result" where
  "connectAsync nc = (if \<not> implShared nc then Inl Bad_weak_ptr else Inr (emit AsyncConnect nc))"

text \<open>Completion of a connect: assigning to a joinable std::thread is std::terminate.\<close>

definition connect_done :: "bool \<Rightarrow> nclient \<Rightarrow> nclient result" where
  "connect_done ec nc =
     (if \<not> ec
      then and_then (receiveAsync nc) (\<lambda>nc.
             if heartbeatCheckThread nc then Inl (Std_terminate ''joinable thread assigned'')
             else let nc = nc\<lparr>heartbeatCheckThread := True\<rparr>
                  in if sendHeartbeatsThread nc then Inl (Std_terminate ''joinable thread assigned'')
                     else Inr (nc\<lparr>sendHeartbeatsThread := True\<rparr>))
      else fire_lost nc)"

definition setApplyCompression :: "bool \<Rightarrow> nclient \<Rightarrow> nclient" where
  "setApplyCompression apply nc = nc\<lparr>applyCompression := apply\<rparr>"

definition setOnClientDisconnectedHandler :: "bool \<Rightarrow> nclient \<Rightarrow> nclient" where
  "setOnClientDisconnectedHandler handler nc = nc\<lparr>onClientDisconnected := handler\<rparr>"

definition setOnConnectionLostHandler :: "bool \<Rightarrow> nclient \<Rightarrow> nclient" where
  "setOnConnectionLostHandler handler nc = nc\<lparr>onConnectionLost := handler\<rparr>"

definition setOnServerDisconnectedHandler :: "bool \<Rightarrow> nclient \<Rightarrow> nclient" where
  "setOnServerDisconnectedHandler handler nc = nc\<lparr>onServerDisconnected := handler\<rparr>"

definition setOnReceivedHeartbeatHandler :: "bool \<Rightarrow> nclient \<Rightarrow> nclient" where
  "setOnReceivedHeartbeatHandler handler nc = nc\<lparr>onReceivedHeartbeat := handler\<rparr>"

definition setOnReceivedDataHandler :: "bool \<Rightarrow> nclient \<Rightarrow> nclient" where
  "setOnReceivedDataHandler handler nc = nc\<lparr>onReceivedData := handler\<rparr>"

section \<open>The heartbeat threads and disconnection\<close>

text \<open>What \<open>catch (const std::exception&)\<close> catches, and a try block that keeps a state.\<close>

definition std_exception :: "exn \<Rightarrow> bool" where
  "std_exception e = (case e of Undefined_behaviour m \<Rightarrow> False | Diverges \<Rightarrow> False
     | Std_terminate m \<Rightarrow> False | _ \<Rightarrow> True)"

definition try_catch :: "'a result \<Rightarrow> 'a \<Rightarrow> 'a result" where
  "try_catch r fallback = (case r of Inl e \<Rightarrow> if std_exception e then Inr fallback else Inl e
     | Inr x \<Rightarrow> Inr x)"

text \<open>
  One iteration of \<open>sendHeartbeatAsync\<close>. The clock is read four times: \<open>n1\<close> for the comparison,
  \<open>n2\<close> for the difference, \<open>n3\<close> in the packet's constructor, \<open>n4\<close> for \<open>lastHeartbeatSent\<close>.
\<close>

definition heartbeat_bytes :: "int \<Rightarrow> int \<Rightarrow> int \<Rightarrow> bytes result" where
  "heartbeat_bytes tpm now tSinceLast =
     and_then (Packet_TCP (parlo_id Heartbeat) (hb_toByteArray tpm (HeartbeatPacket now tSinceLast)) False)
       (\<lambda>pulse. Inr (buildPacket pulse))"

definition sendHeartbeat_iteration ::
  "int \<Rightarrow> 'z codec \<Rightarrow> int \<times> int \<times> int \<times> int \<Rightarrow> nclient \<Rightarrow> nclient result" where
  "sendHeartbeat_iteration tpm deflater clock nc =
     (case clock of (n1, n2, n3, n4) \<Rightarrow>
        and_then (checked_i64 (if n1 > lastHeartbeatSent nc then n2 - lastHeartbeatSent nc
                               else lastHeartbeatSent nc - n2)) (\<lambda>elapsed.
          let tSinceLast = elapsed sdiv tpm;
              nc' = nc\<lparr>lastHeartbeatSent := n4\<rparr>
          in try_catch (and_then (heartbeat_bytes tpm n3 tSinceLast) (\<lambda>bytes. sendAsync deflater bytes nc')) nc'))"

text \<open>One iteration of \<open>checkForMissedHeartbeats\<close> after its sleep; the comparison is signed.\<close>

definition check_iteration :: "nclient \<Rightarrow> nclient result" where
  "check_iteration nc =
     (let nc = nc\<lparr>missedHeartbeats := missedHeartbeats nc + 1\<rparr>
      in if sint (missedHeartbeats nc) > maxMissedHeartbeats
         then fire_lost (nc\<lparr>isAlive := False\<rparr>)
         else Inr nc)"

text \<open>
  The loop around it, for \<open>n\<close> rounds (it only ends when \<open>stopCheckMissedHeartbeats\<close> is set, by another
  thread: more rounds after that change nothing).
\<close>

fun checkForMissedHeartbeats :: "nat \<Rightarrow> nclient \<Rightarrow> nclient result" where
  "checkForMissedHeartbeats 0 nc = Inr nc"
| "checkForMissedHeartbeats (Suc n) nc =
     (if \<not> stopCheckMissedHeartbeats nc
      then and_then (check_iteration nc) (checkForMissedHeartbeats n) else Inr nc)"

text \<open>The thread an operation runs on: joining the thread one runs on is a std::system_error.\<close>

datatype thread = CheckThread | SendThread | OtherThread

definition stop_check :: "thread \<Rightarrow> nclient \<Rightarrow> nclient \<times> exn option" where
  "stop_check current nc =
     (if \<not> stopCheckMissedHeartbeats nc
      then let nc = nc\<lparr>stopCheckMissedHeartbeats := True\<rparr>
           in if heartbeatCheckThread nc
              then (if current = CheckThread then (nc, Some System_error)
                    else (nc\<lparr>heartbeatCheckThread := False\<rparr>, None))
              else (nc, None)
      else (nc, None))"

definition stop_send :: "thread \<Rightarrow> nclient \<Rightarrow> nclient \<times> exn option" where
  "stop_send current nc =
     (if \<not> stopSendingHeartbeats nc
      then let nc = nc\<lparr>stopSendingHeartbeats := True\<rparr>
           in if sendHeartbeatsThread nc
              then (if current = SendThread then (nc, Some System_error)
                    else (nc\<lparr>sendHeartbeatsThread := False\<rparr>, None))
              else (nc, None)
      else (nc, None))"

text \<open>
  \<open>disconnectAsync\<close>: the whole body is in a try block, so an exception ends it with the state
  reached so far. \<open>sd\<close> and \<open>cl\<close> say whether shutting down and closing the socket succeed; asio
  documents that the descriptor is closed even when close() fails.
\<close>

definition goodbye_bytes :: "int \<Rightarrow> int \<Rightarrow> bytes result" where
  "goodbye_bytes tps now =
     and_then (Packet_TCP (parlo_id CGoodbye)
         (gb_toByteArray tps (GoodbyePacket now (ParloDefaultTimeouts Client))) False)
       (\<lambda>goodbye. Inr (buildPacket goodbye))"

definition stop_threads :: "thread \<Rightarrow> nclient \<Rightarrow> nclient" where
  "stop_threads current nc =
     (case stop_check current nc of
        (nc, Some e) \<Rightarrow> nc
      | (nc, None) \<Rightarrow>
          (case stop_send current nc of
             (nc, Some e) \<Rightarrow> nc
           | (nc, None) \<Rightarrow> nc\<lparr>connected := False\<rparr>))"

definition disconnectAsync ::
  "int \<Rightarrow> 'z codec \<Rightarrow> int \<Rightarrow> thread \<Rightarrow> bool \<Rightarrow> bool \<Rightarrow> bool \<Rightarrow> nclient \<Rightarrow> nclient result" where
  "disconnectAsync tps deflater now current sd cl sendDisconnectMessage nc =
     (if connected nc \<and> socketOpen nc
      then case (if sendDisconnectMessage
                 then and_then (goodbye_bytes tps now) (\<lambda>bytes. sendAsync deflater bytes nc)
                 else Inr nc) of
             Inl e \<Rightarrow> if std_exception e then Inr nc else Inl e
           | Inr nc \<Rightarrow>
               if socketOpen nc
               then if \<not> sd then Inr nc
                    else let nc = emit ShutdownSocket nc
                         in if \<not> cl then Inr (nc\<lparr>socketOpen := False\<rparr>)
                            else Inr (stop_threads current ((emit CloseSocket nc)\<lparr>socketOpen := False\<rparr>))
               else Inr (stop_threads current nc)
      else Inr nc)"

text \<open>The destructor; a join of the own thread raises out of it, which is std::terminate.\<close>

definition destroy_client :: "thread \<Rightarrow> nclient \<Rightarrow> nclient result" where
  "destroy_client current nc =
     (case stop_check current nc of
        (nc, Some e) \<Rightarrow> Inl (Std_terminate ''exception in a destructor'')
      | (nc, None) \<Rightarrow>
          (case stop_send current nc of
             (nc, Some e) \<Rightarrow> Inl (Std_terminate ''exception in a destructor'')
           | (nc, None) \<Rightarrow>
               if heartbeatCheckThread nc \<or> sendHeartbeatsThread nc
               then Inl (Std_terminate ''joinable thread destroyed'') else Inr nc))"

section \<open>Lemmas\<close>

lemma emit_simps [simp]:
  "trace (emit e nc) = trace nc @ [e]" "connected (emit e nc) = connected nc"
  "implShared (emit e nc) = implShared nc" "clientShared (emit e nc) = clientShared nc"
  "ownerSet (emit e nc) = ownerSet nc" "isAlive (emit e nc) = isAlive nc"
  "missedHeartbeats (emit e nc) = missedHeartbeats nc" "onConnectionLost (emit e nc) = onConnectionLost nc"
  "socketOpen (emit e nc) = socketOpen nc" "lastRTT (emit e nc) = lastRTT nc"
  "heartbeatCheckThread (emit e nc) = heartbeatCheckThread nc"
  "sendHeartbeatsThread (emit e nc) = sendHeartbeatsThread nc"
  "stopCheckMissedHeartbeats (emit e nc) = stopCheckMissedHeartbeats nc"
  "stopSendingHeartbeats (emit e nc) = stopSendingHeartbeats nc"
  by (simp_all add: emit_def)

lemma fire_Inr_iff [client_simps]:
  "fire h e nc = Inr nc' \<longleftrightarrow> (if h then clientShared nc \<and> nc' = emit e nc else nc' = nc)"
  by (auto simp: fire_def)

lemma fire_lost_Inr_iff [client_simps]:
  "fire_lost nc = Inr nc' \<longleftrightarrow>
     (if onConnectionLost nc then ownerSet nc \<and> clientShared nc \<and> nc' = emit ConnectionLost nc
      else nc' = nc)"
  by (auto simp: fire_lost_def)

lemma receiveAsync_Inr_iff [client_simps]:
  "receiveAsync nc = Inr nc' \<longleftrightarrow>
     (if connected nc then implShared nc \<and> nc' = emit AsyncRead nc else nc' = nc)"
  by (auto simp: receiveAsync_def)

text \<open>Compression, when it applies, always ends in the refusal of an empty packet.\<close>

definition compresses :: "bytes \<Rightarrow> nclient \<Rightarrow> bool" where
  "compresses data nc \<longleftrightarrow> applyCompression nc \<and> 1024 \<le> length data \<and> 100 < sint (lastRTT nc)"

lemma shouldCompress_eq:
  "data \<noteq> [] \<Longrightarrow> shouldCompressData (applyCompression nc) data (lastRTT nc) = Inr (compresses data nc)"
  by (auto simp: shouldCompressData_def compresses_def COMPRESSION_THRESHOLD_def
      RTT_COMPRESSION_THRESHOLD_def)

lemma Packet_TCP_empty [simp]:
  "Packet_TCP i [] c = Inl (Invalid_argument ''Packet: SerializedData cannot be null!'')"
  by (simp add: Packet_TCP_def)

lemma sendAsync_eq:
  "sendAsync deflater data nc =
     (if data = [] then Inl (Invalid_argument ''Data cannot be null or empty'')
      else if length data > 1024 then Inl (Overflow_error ''Data size exceeds maximum packet size'')
      else if \<not> connected nc then Inl (Runtime_error ''Socket is not connected'')
      else if compresses data nc
      then (case compressData deflater data of Inl e \<Rightarrow> Inl e
            | Inr c \<Rightarrow> Inl (Invalid_argument ''Packet: SerializedData cannot be null!''))
      else if \<not> implShared nc then Inl Bad_weak_ptr
      else Inr (emit (AsyncWrite data) nc))"
  by (simp add: sendAsync_def MAX_PACKET_SIZE_def shouldCompress_eq split: sum.split)

lemma sendAsync_Inr_iff [client_simps]:
  "sendAsync deflater data nc = Inr nc' \<longleftrightarrow>
     data \<noteq> [] \<and> length data \<le> 1024 \<and> connected nc \<and> \<not> compresses data nc \<and> implShared nc \<and>
     nc' = emit (AsyncWrite data) nc"
  by (auto simp: sendAsync_eq split: sum.split)

lemma try_catch_Inr_iff [client_simps]:
  "try_catch r x = Inr y \<longleftrightarrow> (case r of Inl e \<Rightarrow> std_exception e \<and> y = x | Inr z \<Rightarrow> y = z)"
  by (auto simp: try_catch_def split: sum.split)

section \<open>Everything that can happen to a client\<close>

text \<open>
  One step: a call by the user, the completion of an operation (which needs the operation to have
  been started), a turn of the worker, an iteration of a heartbeat thread that runs. A call that
  raises leaves the state as it was and is no step. A completion with an error clears \<open>connected\<close>
  before it calls the handler, also when that raises (into whoever runs the io_context, who may go
  on). A raise out of the worker or of a heartbeat thread ends the process and has no successor.
\<close>

inductive nc_step ::
  "int \<Rightarrow> 'z codec \<Rightarrow> 'y codec \<Rightarrow> procbuf \<times> nclient \<Rightarrow> procbuf \<times> nclient \<Rightarrow> bool"
  for tpm deflater inflater where
  send: "sendAsync deflater data nc = Inr nc' \<Longrightarrow> nc_step tpm deflater inflater (pb, nc) (pb, nc')"
| written: "AsyncWrite data \<in> set (trace nc) \<Longrightarrow> write_done ec nc = Inr nc' \<Longrightarrow>
     nc_step tpm deflater inflater (pb, nc) (pb, nc')"
| read: "AsyncRead \<in> set (trace nc) \<Longrightarrow> read_done ec data (pb, nc) = Inr s \<Longrightarrow>
     nc_step tpm deflater inflater (pb, nc) s"
| write_raises: "AsyncWrite data \<in> set (trace nc) \<Longrightarrow> write_done True nc = Inl e \<Longrightarrow>
     nc_step tpm deflater inflater (pb, nc) (pb, nc\<lparr>connected := False\<rparr>)"
| read_raises: "AsyncRead \<in> set (trace nc) \<Longrightarrow> read_done True data (pb, nc) = Inl e \<Longrightarrow>
     nc_step tpm deflater inflater (pb, nc) (pb, nc\<lparr>connected := False\<rparr>)"
| turn: "worker_turn (Some (on_packet_socket tpm now inflater)) (pb, nc) = Inr s \<Longrightarrow>
     nc_step tpm deflater inflater (pb, nc) s"
| heartbeat: "sendHeartbeatsThread nc \<Longrightarrow> \<not> stopSendingHeartbeats nc \<Longrightarrow>
     sendHeartbeat_iteration tpm deflater clock nc = Inr nc' \<Longrightarrow>
     nc_step tpm deflater inflater (pb, nc) (pb, nc')"
| check: "heartbeatCheckThread nc \<Longrightarrow> \<not> stopCheckMissedHeartbeats nc \<Longrightarrow>
     check_iteration nc = Inr nc' \<Longrightarrow> nc_step tpm deflater inflater (pb, nc) (pb, nc')"
| connect: "connectAsync nc = Inr nc' \<Longrightarrow> nc_step tpm deflater inflater (pb, nc) (pb, nc')"
| connect_result: "AsyncConnect \<in> set (trace nc) \<Longrightarrow> connect_done ec nc = Inr nc' \<Longrightarrow>
     nc_step tpm deflater inflater (pb, nc) (pb, nc')"
| disconnect: "disconnectAsync tps deflater now th sd cl msg nc = Inr nc' \<Longrightarrow>
     nc_step tpm deflater inflater (pb, nc) (pb, nc')"
| set_compression: "nc_step tpm deflater inflater (pb, nc) (pb, setApplyCompression b nc)"
| set_handlers: "nc_step tpm deflater inflater (pb, nc)
     (pb, setOnReceivedDataHandler h1 (setOnReceivedHeartbeatHandler h2
        (setOnServerDisconnectedHandler h3 (setOnConnectionLostHandler h4
          (setOnClientDisconnectedHandler h5 nc)))))"

inductive nc_reachable ::
  "int \<Rightarrow> 'z codec \<Rightarrow> 'y codec \<Rightarrow> nclient \<Rightarrow> procbuf \<times> nclient \<Rightarrow> bool"
  for tpm deflater inflater nc0 where
  start: "nc_reachable tpm deflater inflater nc0 (pb_init, nc0)"
| step: "nc_reachable tpm deflater inflater nc0 s \<Longrightarrow> nc_step tpm deflater inflater s t \<Longrightarrow>
     nc_reachable tpm deflater inflater nc0 t"

text \<open>
  What every operation keeps: ownership flags never change, \<open>connected\<close> never comes back, the
  trace only grows, and what it grows by is allowed: writes of 1 to 1024 bytes, and operations of
  asio only if a shared_ptr owns the Impl.
\<close>

definition effect_ok :: "nclient \<Rightarrow> nc_effect \<Rightarrow> bool" where
  "effect_ok nc e = (case e of
     AsyncWrite d \<Rightarrow> implShared nc \<and> d \<noteq> [] \<and> length d \<le> 1024
   | AsyncRead \<Rightarrow> implShared nc | AsyncConnect \<Rightarrow> implShared nc
   | DataReceived p \<Rightarrow> wf_packet p \<and> p_isCompressed p = 0
   | _ \<Rightarrow> True)"

definition evolves :: "nclient \<Rightarrow> nclient \<Rightarrow> bool" where
  "evolves nc nc' \<longleftrightarrow>
     implShared nc' = implShared nc \<and> clientShared nc' = clientShared nc \<and>
     (connected nc' \<longrightarrow> connected nc) \<and>
     (\<exists>es. trace nc' = trace nc @ es \<and> (\<forall>e \<in> set es. effect_ok nc e))"

lemma evolves_refl [simp]: "evolves nc nc"
  by (simp add: evolves_def)

lemma effect_ok_cong: "implShared nc = implShared nc' \<Longrightarrow> effect_ok nc = effect_ok nc'"
  by (rule ext) (simp add: effect_ok_def split: nc_effect.split)

lemma evolves_trans:
  assumes "evolves a b" "evolves b c"
  shows "evolves a c"
proof -
  from assms(1) obtain es where es: "trace b = trace a @ es" "\<forall>e \<in> set es. effect_ok a e"
    and a: "implShared b = implShared a" by (auto simp: evolves_def)
  from assms(2) obtain fs where fs: "trace c = trace b @ fs" "\<forall>e \<in> set fs. effect_ok b e"
    by (auto simp: evolves_def)
  have "trace c = trace a @ (es @ fs)" "\<forall>e \<in> set (es @ fs). effect_ok a e"
    using es fs effect_ok_cong [OF a] by auto
  with assms show ?thesis unfolding evolves_def by blast
qed

lemma evolves_emit: "effect_ok nc e \<Longrightarrow> evolves nc (emit e nc)"
  by (simp add: evolves_def)

text \<open>Updates of fields the contract does not mention.\<close>

lemma evolves_fields [simp]:
  "evolves nc (nc\<lparr>isAlive := a\<rparr>)" "evolves nc (nc\<lparr>missedHeartbeats := m\<rparr>)"
  "evolves nc (nc\<lparr>lastRTT := r\<rparr>)" "evolves nc (nc\<lparr>lastHeartbeatSent := t\<rparr>)"
  "evolves nc (nc\<lparr>ownerSet := x\<rparr>)" "evolves nc (nc\<lparr>connected := False\<rparr>)"
  "evolves nc (nc\<lparr>heartbeatCheckThread := x\<rparr>)" "evolves nc (nc\<lparr>sendHeartbeatsThread := x\<rparr>)"
  "evolves nc (nc\<lparr>stopCheckMissedHeartbeats := x\<rparr>)" "evolves nc (nc\<lparr>stopSendingHeartbeats := x\<rparr>)"
  "evolves nc (nc\<lparr>socketOpen := x\<rparr>)"
  by (simp_all add: evolves_def)

lemma evolves_fire: "fire h e nc = Inr nc' \<Longrightarrow> effect_ok nc e \<Longrightarrow> evolves nc nc'"
  by (auto simp: client_simps evolves_emit split: if_splits)

lemma evolves_fire_lost: "fire_lost nc = Inr nc' \<Longrightarrow> evolves nc nc'"
  by (auto simp: client_simps effect_ok_def intro: evolves_emit split: if_splits)

lemma evolves_receive: "receiveAsync nc = Inr nc' \<Longrightarrow> evolves nc nc'"
  by (auto simp: client_simps effect_ok_def intro: evolves_emit split: if_splits)

lemma evolves_send: "sendAsync deflater data nc = Inr nc' \<Longrightarrow> evolves nc nc'"
  by (auto simp: client_simps effect_ok_def intro!: evolves_emit)

lemma evolves_write_done: "write_done ec nc = Inr nc' \<Longrightarrow> evolves nc nc'"
  using evolves_trans [OF evolves_fields(6) evolves_fire_lost]
  by (auto simp: write_done_def split: if_splits)

lemma evolves_read_done: "read_done ec data s = Inr s' \<Longrightarrow> evolves (snd s) (snd s')"
  using evolves_trans [OF evolves_fields(6) evolves_fire_lost] evolves_receive
  by (fastforce simp: read_done_def and_then_Inr_iff split: if_splits)

lemma evolves_heartbeat_packet:
  assumes "on_heartbeat tpm now p nc = Inr nc'"
  shows "evolves nc nc'"
proof -
  from assms obtain rtt where
    "fire (onReceivedHeartbeat nc) HeartbeatReceived
       (nc\<lparr>isAlive := True, missedHeartbeats := 0, lastRTT := word_of_int rtt\<rparr>) = Inr nc'"
    by (auto simp: on_heartbeat_def and_then_Inr_iff)
  then have "evolves (nc\<lparr>isAlive := True, missedHeartbeats := 0, lastRTT := word_of_int rtt\<rparr>) nc'"
    by (rule evolves_fire) (simp add: effect_ok_def)
  moreover have "evolves nc (nc\<lparr>isAlive := True, missedHeartbeats := 0, lastRTT := word_of_int rtt\<rparr>)"
    by (simp add: evolves_def)
  ultimately show ?thesis by (blast intro: evolves_trans)
qed

lemma evolves_data:
  "Packet_TCP i d False = Inr p \<Longrightarrow> evolves nc (emit (DataReceived p) nc)"
  using wf_Packet_TCP [of i d False p]
  by (intro evolves_emit) (auto simp: effect_ok_def Packet_TCP_Inr_iff)

lemma evolves_on_packet: "on_packet tpm now inflater p nc = Inr nc' \<Longrightarrow> evolves nc nc'"
  by (auto simp: on_packet_def and_then_Inr_iff effect_ok_def split: if_splits
      intro: evolves_fire evolves_heartbeat_packet evolves_data)

lemma evolves_on_packet_socket: "on_packet_socket tpm now inflater p nc = Inr nc' \<Longrightarrow> evolves nc nc'"
  unfolding on_packet_socket_def using evolves_on_packet evolves_trans evolves_fields(5) by blast

lemma take_payload_handler:
  assumes "take_payload (Some h) pb u = Inr (pb', u')"
  shows "u' = u \<or> (\<exists>p. wf_packet p \<and> \<not> p_isUDP p \<and> h p u = Inr u')"
proof (cases "u' = u")
  case False
  with assms obtain packetData p where p: "Packet_TCP (currentID pb) packetData (isCompressed pb) = Inr p"
    and h: "h p u = Inr u'"
    by (fastforce simp: take_payload_def call_handler_def and_then_Inr_iff Let_def
        split: option.splits if_splits)
  from wf_Packet_TCP [OF p] p h show ?thesis by (auto simp: Packet_TCP_Inr_iff)
qed simp

lemma worker_turn_handler:
  assumes "worker_turn (Some h) (pb, u) = Inr (pb', u')"
  shows "u' = u \<or> (\<exists>p. wf_packet p \<and> \<not> p_isUDP p \<and> h p u = Inr u')"
  using assms take_payload_handler [of h "with_header pb" u pb' u']
  by (auto simp: worker_turn_def process_iteration_def split: if_splits)

lemma evolves_turn:
  assumes "worker_turn (Some (on_packet_socket tpm now inflater)) (pb, nc) = Inr s"
  shows "evolves nc (snd s)"
  using worker_turn_handler [of "on_packet_socket tpm now inflater" pb nc "fst s" "snd s"] assms
  by (auto intro: evolves_on_packet_socket)

lemma evolves_heartbeat_sent:
  assumes "sendHeartbeat_iteration tpm deflater clock nc = Inr nc'"
  shows "evolves nc nc'"
proof -
  obtain n1 n2 n3 n4 where clock: "clock = (n1, n2, n3, n4)" by (cases clock) auto
  let ?nc = "nc\<lparr>lastHeartbeatSent := n4\<rparr>"
  obtain bytes_of where
    run: "try_catch (and_then bytes_of (\<lambda>bytes. sendAsync deflater bytes ?nc)) ?nc = Inr nc'"
    using assms unfolding sendHeartbeat_iteration_def clock
    by (auto simp: and_then_Inr_iff Let_def)
  have "nc' = ?nc \<or> (\<exists>bytes. sendAsync deflater bytes ?nc = Inr nc')"
  proof (cases "and_then bytes_of (\<lambda>bytes. sendAsync deflater bytes ?nc)")
    case (Inl e)
    with run show ?thesis by (simp add: try_catch_Inr_iff)
  next
    case (Inr m)
    with run have "m = nc'" by (simp add: try_catch_Inr_iff)
    with Inr show ?thesis by (auto simp: and_then_Inr_iff)
  qed
  then show ?thesis using evolves_send evolves_trans evolves_fields(4) by metis
qed

lemma evolves_check: "check_iteration nc = Inr nc' \<Longrightarrow> evolves nc nc'"
proof -
  assume run: "check_iteration nc = Inr nc'"
  let ?nc = "nc\<lparr>missedHeartbeats := missedHeartbeats nc + 1\<rparr>"
  have "evolves nc (?nc\<lparr>isAlive := False\<rparr>)" using evolves_trans evolves_fields(1,2) by blast
  with run show ?thesis
    using evolves_trans evolves_fire_lost by (fastforce simp: check_iteration_def Let_def split: if_splits)
qed

lemma evolves_stop_check: "stop_check th nc = (nc', r) \<Longrightarrow> evolves nc nc'"
  by (auto simp: stop_check_def Let_def evolves_def split: if_splits)

lemma evolves_stop_send: "stop_send th nc = (nc', r) \<Longrightarrow> evolves nc nc'"
  by (auto simp: stop_send_def Let_def evolves_def split: if_splits)

lemma evolves_stop_threads: "evolves nc (stop_threads th nc)"
proof -
  obtain a r where c: "stop_check th nc = (a, r)" by (cases "stop_check th nc")
  obtain b q where d: "stop_send th a = (b, q)" by (cases "stop_send th a")
  have "evolves nc a" "evolves a b" "evolves b (b\<lparr>connected := False\<rparr>)"
    using c d by (auto intro: evolves_stop_check evolves_stop_send)
  with c d show ?thesis
    unfolding stop_threads_def by (auto split: option.split intro: evolves_trans)
qed

lemma evolves_disconnect:
  assumes "disconnectAsync tps deflater now th sd cl msg nc = Inr nc'"
  shows "evolves nc nc'"
proof -
  define r where "r = (if msg then and_then (goodbye_bytes tps now) (\<lambda>bytes. sendAsync deflater bytes nc)
    else Inr nc)"
  have r: "r = Inr m \<Longrightarrow> evolves nc m" for m
    by (auto simp: r_def and_then_Inr_iff split: if_splits intro: evolves_send)
  have shut: "evolves m (emit ShutdownSocket m)" for m
    by (rule evolves_emit) (simp add: effect_ok_def)
  have closed: "evolves m (stop_threads th ((emit CloseSocket (emit ShutdownSocket m))\<lparr>socketOpen := False\<rparr>))"
    for m
  proof -
    have "evolves (emit ShutdownSocket m) (emit CloseSocket (emit ShutdownSocket m))"
      by (rule evolves_emit) (simp add: effect_ok_def)
    from evolves_trans [OF shut this] evolves_fields(11) evolves_stop_threads show ?thesis
      by (blast intro: evolves_trans)
  qed
  have rest: "evolves m nc'" if "(if socketOpen m
      then if \<not> sd then Inr m
           else let m = emit ShutdownSocket m
                in if \<not> cl then Inr (m\<lparr>socketOpen := False\<rparr>)
                   else Inr (stop_threads th ((emit CloseSocket m)\<lparr>socketOpen := False\<rparr>))
      else Inr (stop_threads th m)) = Inr nc'" for m
    using that shut [of m] evolves_trans [OF shut evolves_fields(11)] closed [of m] evolves_stop_threads [of m th]
    by (auto simp: Let_def split: if_splits)
  show ?thesis
  proof (cases "connected nc \<and> socketOpen nc")
    case True
    show ?thesis
    proof (cases r)
      case (Inl e)
      with True assms show ?thesis
        by (auto simp: disconnectAsync_def r_def [symmetric] split: if_splits)
    next
      case (Inr m)
      with True assms rest [of m] have "evolves m nc'"
        unfolding disconnectAsync_def r_def [symmetric] by simp
      with r [OF Inr] show ?thesis by (rule evolves_trans)
    qed
  next
    case False
    with assms show ?thesis by (auto simp: disconnectAsync_def)
  qed
qed

lemma evolves_connect: "connectAsync nc = Inr nc' \<Longrightarrow> evolves nc nc'"
  by (auto simp: connectAsync_def effect_ok_def split: if_splits intro!: evolves_emit)

lemma evolves_connect_done: "connect_done ec nc = Inr nc' \<Longrightarrow> evolves nc nc'"
proof (cases ec)
  case True
  assume "connect_done ec nc = Inr nc'"
  with True show ?thesis by (simp add: connect_done_def evolves_fire_lost)
next
  case False
  assume "connect_done ec nc = Inr nc'"
  with False obtain m where "receiveAsync nc = Inr m"
    and "nc' = m\<lparr>heartbeatCheckThread := True, sendHeartbeatsThread := True\<rparr>"
    by (auto simp: connect_done_def and_then_Inr_iff Let_def split: if_splits)
  then show ?thesis using evolves_receive evolves_trans evolves_fields(7,8) by metis
qed

lemma nc_step_evolves: "nc_step tpm deflater inflater s t \<Longrightarrow> evolves (snd s) (snd t)"
proof (induction rule: nc_step.induct)
  case (read data pb nc ec s)
  then show ?case using evolves_read_done by fastforce
next
  case (turn now pb nc s)
  then show ?case using evolves_turn by fastforce
next
  case (set_handlers pb nc h1 h2 h3 h4 h5)
  show ?case
    by (simp add: evolves_def setOnReceivedDataHandler_def setOnReceivedHeartbeatHandler_def
        setOnServerDisconnectedHandler_def setOnConnectionLostHandler_def
        setOnClientDisconnectedHandler_def)
qed (auto simp: setApplyCompression_def evolves_def [of _ "_\<lparr>applyCompression := _\<rparr>"]
    intro: evolves_send evolves_write_done evolves_heartbeat_sent evolves_check evolves_connect
      evolves_connect_done evolves_disconnect)

lemma nc_reachable_evolves: "nc_reachable tpm deflater inflater nc0 s \<Longrightarrow> evolves nc0 (snd s)"
proof (induction rule: nc_reachable.induct)
  case start
  show ?case by simp
next
  case (step s t)
  then show ?case using nc_step_evolves evolves_trans by blast
qed

section \<open>A client that was made with a constructor\<close>

text \<open>
  Nothing shares its Impl, so no operation of asio starts, nothing arrives, and no thread runs:
  what is left is closing the socket without a message.
\<close>

definition inert :: "procbuf \<times> nclient \<Rightarrow> bool" where
  "inert s \<longleftrightarrow> fst s = pb_init \<and> \<not> implShared (snd s) \<and>
     set (trace (snd s)) \<subseteq> {ShutdownSocket, CloseSocket} \<and>
     \<not> heartbeatCheckThread (snd s) \<and> \<not> sendHeartbeatsThread (snd s) \<and>
     (connected (snd s) \<longrightarrow> \<not> stopCheckMissedHeartbeats (snd s))"

lemma inert_stop_threads:
  "\<not> heartbeatCheckThread nc \<Longrightarrow> \<not> sendHeartbeatsThread nc \<Longrightarrow>
     stop_threads th nc = nc\<lparr>stopCheckMissedHeartbeats := True, stopSendingHeartbeats := True, connected := False\<rparr>"
  by (simp add: stop_threads_def stop_check_def stop_send_def)

lemma inert_disconnect:
  assumes "inert (pb, nc)" "disconnectAsync tps deflater now th sd cl msg nc = Inr nc'"
  shows "inert (pb, nc')"
proof -
  have "\<not> implShared nc" "\<not> heartbeatCheckThread nc" "\<not> sendHeartbeatsThread nc"
    using assms(1) by (simp_all add: inert_def)
  then have "and_then (goodbye_bytes tps now) (\<lambda>bytes. sendAsync deflater bytes nc) \<noteq> Inr m" for m
    by (simp add: and_then_Inr_iff sendAsync_Inr_iff)
  with assms show ?thesis
    by (auto simp: disconnectAsync_def inert_def inert_stop_threads Let_def
        split: if_splits sum.splits)
qed

lemma inert_step: "nc_step tpm deflater inflater s t \<Longrightarrow> inert s \<Longrightarrow> inert t"
proof (induction rule: nc_step.induct)
  case (turn now pb nc s)
  then show ?case by (auto simp: worker_turn_def inert_def pb_init_def)
next
  case (disconnect tps now th sd cl msg nc nc' pb)
  then show ?case by (blast intro: inert_disconnect)
next
  case (set_compression pb nc b)
  then show ?case by (simp add: inert_def setApplyCompression_def)
next
  case (set_handlers pb nc h1 h2 h3 h4 h5)
  then show ?case
    by (simp add: inert_def setOnReceivedDataHandler_def setOnReceivedHeartbeatHandler_def
        setOnServerDisconnectedHandler_def setOnConnectionLostHandler_def
        setOnClientDisconnectedHandler_def)
qed (auto simp: inert_def sendAsync_Inr_iff connectAsync_def split: if_splits)

lemma inert_reachable:
  assumes "nc_reachable tpm deflater inflater (nc_init rtt0 shared isopen) s"
  shows "inert s"
  using assms
proof (induction rule: nc_reachable.induct)
  case start
  show ?case by (simp add: inert_def nc_init_def)
next
  case (step s t)
  then show ?case by (blast intro: inert_step)
qed

section \<open>The watchdog and disconnection\<close>

lemma check_iteration_eq:
  assumes "missedHeartbeats nc = word_of_nat m" "Suc m < 2 ^ 31" "ownerSet nc" "clientShared nc"
  shows "check_iteration nc =
    (let nc' = nc\<lparr>missedHeartbeats := word_of_nat (Suc m)\<rparr>
     in if 6 < Suc m
        then (let nc' = nc'\<lparr>isAlive := False\<rparr>
              in Inr (if onConnectionLost nc then emit ConnectionLost nc' else nc'))
        else Inr nc')"
proof -
  have "sint (word_of_nat (Suc m) :: i32) = int (Suc m)"
    using assms(2) by (simp add: signed_of_nat signed_take_bit_int_eq_self del: of_nat_Suc)
  moreover have "missedHeartbeats nc + 1 = word_of_nat (Suc m)" using assms(1) by (simp add: add.commute)
  ultimately show ?thesis
    using assms(3,4)
    by (auto simp: check_iteration_def maxMissedHeartbeats_def fire_lost_def Let_def simp del: of_nat_Suc)
qed

lemma check_rounds:
  assumes "missedHeartbeats nc = word_of_nat m" "n + m < 2 ^ 31" "\<not> stopCheckMissedHeartbeats nc"
    and "ownerSet nc" "clientShared nc" "onConnectionLost nc"
  shows "\<exists>nc'. checkForMissedHeartbeats n nc = Inr nc' \<and> missedHeartbeats nc' = word_of_nat (n + m) \<and>
    isAlive nc' = (isAlive nc \<and> (n = 0 \<or> n + m \<le> 6)) \<and>
    connected nc' = connected nc \<and>
    trace nc' = trace nc @ replicate (n - (6 - m)) ConnectionLost"
  using assms
proof (induction n arbitrary: nc m)
  case 0
  then show ?case by simp
next
  case (Suc n)
  let ?nc = "nc\<lparr>missedHeartbeats := word_of_nat (Suc m)\<rparr>"
  have one: "Suc m < 2 ^ 31" and more: "n + Suc m < 2 ^ 31" using Suc.prems(2) by simp_all
  show ?case
  proof (cases "6 < Suc m")
    case True
    let ?lost = "emit ConnectionLost (?nc\<lparr>isAlive := False\<rparr>)"
    have step: "check_iteration nc = Inr ?lost"
      using True check_iteration_eq [OF Suc.prems(1) one Suc.prems(4,5)] Suc.prems(6)
      by (simp add: Let_def)
    obtain nc' where "checkForMissedHeartbeats n ?lost = Inr nc'"
      "missedHeartbeats nc' = word_of_nat (n + Suc m)" "\<not> isAlive nc'" "connected nc' = connected nc"
      "trace nc' = trace ?lost @ replicate (n - (6 - Suc m)) ConnectionLost"
      using Suc.IH [of ?lost "Suc m"] Suc.prems more by auto
    with step True Suc.prems(3) show ?thesis by simp
  next
    case False
    have step: "check_iteration nc = Inr ?nc"
      using False check_iteration_eq [OF Suc.prems(1) one Suc.prems(4,5)] by (simp add: Let_def)
    obtain nc' where "checkForMissedHeartbeats n ?nc = Inr nc'"
      "missedHeartbeats nc' = word_of_nat (n + Suc m)"
      "isAlive nc' = (isAlive ?nc \<and> (n = 0 \<or> n + Suc m \<le> 6))" "connected nc' = connected nc"
      "trace nc' = trace ?nc @ replicate (n - (6 - Suc m)) ConnectionLost"
      using Suc.IH [of ?nc "Suc m"] Suc.prems more by auto
    with step False Suc.prems(3) show ?thesis by (auto simp: Suc_diff_Suc)
  qed
qed

lemma payload_nonempty [simp]: "gb_toByteArray tps g \<noteq> []" "hb_toByteArray tpm h \<noteq> []"
  using length_gb_toByteArray [of tps g] length_hb_toByteArray [of tpm h]
  by (metis list.size(3) zero_neq_numeral)+

lemma goodbye_bytes_eq:
  "goodbye_bytes tps now = Inr ([0xFF, 0, 20, 0] @ gb_toByteArray tps (GoodbyePacket now 5))"
proof -
  obtain p where p: "Packet_TCP (parlo_id CGoodbye) (gb_toByteArray tps (GoodbyePacket now 5)) False = Inr p"
    by (simp add: Packet_TCP_nonempty)
  then have "buildPacket p = [0xFF, 0, 20, 0] @ gb_toByteArray tps (GoodbyePacket now 5)"
    by (auto simp: Packet_TCP_Inr_iff codec_simps length_bytes_def length_low_def length_high_def)
  with p show ?thesis by (simp add: goodbye_bytes_def)
qed

lemma heartbeat_bytes_eq:
  "heartbeat_bytes tpm now t = Inr ([0xFD, 0, 20, 0] @ hb_toByteArray tpm (HeartbeatPacket now t))"
proof -
  obtain p where p: "Packet_TCP (parlo_id Heartbeat) (hb_toByteArray tpm (HeartbeatPacket now t)) False = Inr p"
    by (simp add: Packet_TCP_nonempty)
  then have "buildPacket p = [0xFD, 0, 20, 0] @ hb_toByteArray tpm (HeartbeatPacket now t)"
    by (auto simp: Packet_TCP_Inr_iff codec_simps length_bytes_def length_low_def length_high_def)
  with p show ?thesis by (simp add: heartbeat_bytes_def)
qed

section \<open>Properties\<close>

text \<open>C14: What \<open>sendAsync\<close> does on every path. It starts a write exactly for 1 to 1024 bytes, on a connected
  client whose Impl is shared, unless the data is to be compressed, and what it writes is the
  caller's data unchanged. Data that is to be compressed (compression on, exactly 1024 bytes, last
  round trip above 100 ms) is never sent: the packet is built from an empty buffer and refused. No
  path changes anything else of the client.\<close>

theorem send_outcome:
  "(sendAsync deflater data nc = Inr nc' \<longleftrightarrow>
     data \<noteq> [] \<and> length data \<le> 1024 \<and> connected nc \<and> implShared nc \<and>
     \<not> (applyCompression nc \<and> length data = 1024 \<and> 100 < sint (lastRTT nc)) \<and>
     nc' = nc\<lparr>trace := trace nc @ [AsyncWrite data]\<rparr>) \<and>
   (sendAsync deflater data nc = Inl e \<longleftrightarrow>
     e = (if data = [] then Invalid_argument ''Data cannot be null or empty''
          else if 1024 < length data then Overflow_error ''Data size exceeds maximum packet size''
          else if \<not> connected nc then Runtime_error ''Socket is not connected''
          else if applyCompression nc \<and> length data = 1024 \<and> 100 < sint (lastRTT nc)
          then (case compressData deflater data of Inl x \<Rightarrow> x
                | Inr c \<Rightarrow> Invalid_argument ''Packet: SerializedData cannot be null!'')
          else Bad_weak_ptr) \<and>
     (data = [] \<or> 1024 < length data \<or> \<not> connected nc \<or> \<not> implShared nc \<or>
       applyCompression nc \<and> length data = 1024 \<and> 100 < sint (lastRTT nc)))"
proof -
  have c: "compresses data nc \<longleftrightarrow> applyCompression nc \<and> length data = 1024 \<and> 100 < sint (lastRTT nc)"
    if "length data \<le> 1024"
    using that by (auto simp: compresses_def)
  show ?thesis
    by (cases "length data \<le> 1024"; cases "compressData deflater data")
      (auto simp: sendAsync_eq c emit_def)
qed

theorem send_outcome_witness:
  "sendAsync store_codec [7] ((nc_init 0 True True)\<lparr>implShared := True\<rparr>) =
     Inr ((nc_init 0 True True)\<lparr>implShared := True, trace := [AsyncWrite [7]]\<rparr>) \<and>
   sendAsync store_codec [7] (nc_init 0 True True) = Inl Bad_weak_ptr"
  using send_outcome [of store_codec "[7]" "(nc_init 0 True True)\<lparr>implShared := True\<rparr>"
      "(nc_init 0 True True)\<lparr>implShared := True, trace := [AsyncWrite [7]]\<rparr>" Bad_weak_ptr]
    send_outcome [of store_codec "[7]" "nc_init 0 True True" "nc_init 0 True True" Bad_weak_ptr]
  by (simp add: nc_init_def)

text \<open>C12: Whatever happens to a client, in any order (calls, completions with or without errors, arrivals,
  turns of the worker, rounds of the heartbeat threads, disconnection): a connection that was lost
  or closed never counts as connected again, the history only grows, every write it adds has 1 to
  1024 bytes, every packet it hands to the data handler is well formed and not compressed, and
  operations of asio appear in it only if a shared_ptr owns the Impl.\<close>

theorem client_history:
  assumes "nc_reachable tpm deflater inflater nc0 (pb, nc)"
  shows "(connected nc \<longrightarrow> connected nc0) \<and> implShared nc = implShared nc0 \<and>
    (\<exists>es. trace nc = trace nc0 @ es \<and>
       (\<forall>e \<in> set es. case e of
          AsyncWrite d \<Rightarrow> implShared nc0 \<and> 0 < length d \<and> length d \<le> 1024
        | AsyncRead \<Rightarrow> implShared nc0
        | AsyncConnect \<Rightarrow> implShared nc0
        | DataReceived p \<Rightarrow> wf_packet p \<and> getIsCompressed p = 0
        | _ \<Rightarrow> True))"
proof -
  from nc_reachable_evolves [OF assms] obtain es where es: "trace nc = trace nc0 @ es"
    "\<forall>e \<in> set es. effect_ok nc0 e" and rest: "connected nc \<longrightarrow> connected nc0" "implShared nc = implShared nc0"
    by (auto simp: evolves_def)
  have "\<forall>e \<in> set es. case e of
          AsyncWrite d \<Rightarrow> implShared nc0 \<and> 0 < length d \<and> length d \<le> 1024
        | AsyncRead \<Rightarrow> implShared nc0
        | AsyncConnect \<Rightarrow> implShared nc0
        | DataReceived p \<Rightarrow> wf_packet p \<and> getIsCompressed p = 0
        | _ \<Rightarrow> True"
    using es(2) by (auto simp: effect_ok_def split: nc_effect.splits)
  with es(1) rest show ?thesis by blast
qed

theorem client_history_witness:
  "\<exists>nc es. nc_reachable 1000 store_codec store_codec
      ((nc_init 0 True True)\<lparr>implShared := True\<rparr>) (pb_init, nc) \<and>
     trace nc = trace ((nc_init 0 True True)\<lparr>implShared := True\<rparr>) @ es \<and> es = [AsyncWrite [7]]"
proof -
  let ?nc0 = "(nc_init 0 True True)\<lparr>implShared := True\<rparr>"
  have "nc_reachable 1000 store_codec store_codec ?nc0 (pb_init, emit (AsyncWrite [7]) ?nc0)"
    by (rule nc_reachable.step [OF nc_reachable.start], rule nc_step.send [of _ "[7]"])
      (simp add: sendAsync_Inr_iff compresses_def nc_init_def)
  with client_history [OF this] show ?thesis by (auto simp: nc_init_def)
qed

text \<open>C22: A client made with its public constructor never communicates. In every state it can reach, no read,
  write or connect was ever started, no byte is queued, no heartbeat thread runs and no handler was
  called; \<open>connectAsync\<close> and every acceptable \<open>sendAsync\<close> raise std::bad_weak_ptr. The Listener's
  constructor never returns: it ends in std::terminate.\<close>

theorem constructed_client_is_mute:
  assumes "NetworkClient_socket rtt0 shared isopen = Inr nc0"
    and "nc_reachable tpm deflater inflater nc0 (pb, nc)"
  shows "set (trace nc) \<subseteq> {ShutdownSocket, CloseSocket} \<and> pb = pb_init \<and>
    \<not> heartbeatCheckThread nc \<and> \<not> sendHeartbeatsThread nc \<and>
    connectAsync nc = Inl Bad_weak_ptr \<and>
    (connected nc \<and> data \<noteq> [] \<and> length data < 1024 \<longrightarrow> sendAsync deflater data nc = Inl Bad_weak_ptr) \<and>
    NetworkClient_listener rtt0 shared isopen = Inl (Std_terminate ''joinable thread destroyed'')"
proof -
  from assms(1) have "nc0 = nc_init rtt0 shared isopen" by (simp add: NetworkClient_socket_def)
  with assms(2) have "inert (pb, nc)" by (auto intro: inert_reachable)
  then show ?thesis
    by (auto simp: inert_def connectAsync_def sendAsync_eq compresses_def NetworkClient_listener_def
        nc_init_def receiveAsync_def Let_def)
qed

theorem constructed_client_is_mute_witness:
  "sendAsync store_codec [1, 2] (nc_init 0 True True) = Inl Bad_weak_ptr"
  using constructed_client_is_mute [of 0 True True _ 1 store_codec store_codec, OF _ nc_reachable.start,
      where data = "[1, 2]"]
  by (simp add: NetworkClient_socket_def nc_init_def)

text \<open>The watchdog, for n rounds of its loop without a heartbeat in between: the counter reads n, the
  client counts as alive for exactly the first six, and the connection-lost handler is called once
  in every round after the sixth, again and again; the client stays connected all the same.\<close>

theorem watchdog_rounds:
  assumes "isAlive nc" "missedHeartbeats nc = 0" "\<not> stopCheckMissedHeartbeats nc"
    and "ownerSet nc" "clientShared nc" "onConnectionLost nc" "n < 2 ^ 31"
  shows "\<exists>nc'. checkForMissedHeartbeats n nc = Inr nc' \<and> missedHeartbeats nc' = word_of_nat n \<and>
    (isAlive nc' \<longleftrightarrow> n \<le> 6) \<and> connected nc' = connected nc \<and>
    trace nc' = trace nc @ replicate (n - 6) ConnectionLost"
  using check_rounds [of nc 0 n] assms by auto

theorem watchdog_rounds_witness:
  "\<exists>nc'. checkForMissedHeartbeats 8 ((nc_init 0 True True)\<lparr>ownerSet := True, onConnectionLost := True\<rparr>) = Inr nc' \<and>
     \<not> isAlive nc' \<and> trace nc' = [ConnectionLost, ConnectionLost]"
proof -
  let ?nc = "(nc_init 0 True True)\<lparr>ownerSet := True, onConnectionLost := True\<rparr>"
  have "\<exists>nc'. checkForMissedHeartbeats 8 ?nc = Inr nc' \<and> missedHeartbeats nc' = word_of_nat 8 \<and>
    (isAlive nc' \<longleftrightarrow> (8::nat) \<le> 6) \<and> connected nc' = connected ?nc \<and>
    trace nc' = trace ?nc @ replicate (8 - 6) ConnectionLost"
    by (rule watchdog_rounds) (simp_all add: nc_init_def)
  moreover have "trace ?nc @ replicate (8 - 6) ConnectionLost = [ConnectionLost, ConnectionLost]"
    by (simp add: nc_init_def numeral_2_eq_2)
  moreover have "\<not> (8::nat) \<le> 6" by simp
  ultimately show ?thesis by metis
qed

text \<open>A round of the heartbeat thread on a connected client with a shared Impl writes one packet of 20
  bytes: ID 0xFD, no compression, length 20, the milliseconds since the last heartbeat and the
  milliseconds since the epoch, little endian. On any other client the exception is caught and
  nothing is written. Both ways the time of the last heartbeat is the clock's; before the first
  heartbeat it is the epoch.\<close>

theorem heartbeat_round:
  assumes "lastHeartbeatSent nc < n1" "in_i64 (n2 - lastHeartbeatSent nc)"
  shows "sendHeartbeat_iteration tpm deflater (n1, n2, n3, n4) nc =
    Inr (if connected nc \<and> implShared nc
         then nc\<lparr>lastHeartbeatSent := n4,
                 trace := trace nc @ [AsyncWrite ([0xFD, 0, 20, 0] @
                   i64_bytes ((n2 - lastHeartbeatSent nc) sdiv tpm) @ i64_bytes (n3 sdiv tpm))]\<rparr>
         else nc\<lparr>lastHeartbeatSent := n4\<rparr>) \<and>
    lastHeartbeatSent (nc_init rtt0 shared isopen) = 0"
proof -
  let ?t = "(n2 - lastHeartbeatSent nc) sdiv tpm"
  have "sendAsync deflater ([0xFD, 0, 20, 0] @ hb_toByteArray tpm (HeartbeatPacket n3 ?t)) (nc\<lparr>lastHeartbeatSent := n4\<rparr>) =
    (if \<not> connected nc then Inl (Runtime_error ''Socket is not connected'')
     else if \<not> implShared nc then Inl Bad_weak_ptr
     else Inr (emit (AsyncWrite ([0xFD, 0, 20, 0] @ hb_toByteArray tpm (HeartbeatPacket n3 ?t)))
       (nc\<lparr>lastHeartbeatSent := n4\<rparr>)))"
    by (simp add: sendAsync_eq compresses_def)
  with assms show ?thesis
    by (simp add: sendHeartbeat_iteration_def heartbeat_bytes_eq try_catch_def std_exception_def
        emit_def nc_init_def hb_toByteArray_def HeartbeatPacket_def Let_def)
qed

theorem heartbeat_round_witness:
  "sendHeartbeat_iteration 1000 store_codec (1700000000000000, 1700000000000000, 1700000000000000, 1700000000000001)
     (nc_init 0 True True) = Inr ((nc_init 0 True True)\<lparr>lastHeartbeatSent := 1700000000000001\<rparr>)"
  using heartbeat_round [of "nc_init 0 True True" 1700000000000000 1700000000000000 1000 store_codec
      1700000000000000 1700000000000001]
  by (simp add: nc_init_def in_i64_def)

text \<open>A heartbeat that carries the ID byte the parser wants marks the client alive and clears the missed
  heartbeats; the round-trip time it sets is the time since the heartbeat was sent plus the time
  between two heartbeats, so it is never below that interval.\<close>

theorem round_trip_time:
  assumes "getID p = parlo_id Heartbeat" "getData p = i # hb_toByteArray tpm h"
    and "hb_valid h" "0 < tpm" "0 \<le> sentTimestamp h" "sentTimestamp h \<le> now" "now < 2 ^ 63"
    and "0 \<le> timeSinceLast h" "clientShared nc"
    and "(now - sentTimestamp (to_millis tpm h)) sdiv tpm + timeSinceLast h < 2 ^ 31"
  shows "\<exists>nc'. on_packet tpm now inflater p nc = Inr nc' \<and> isAlive nc' \<and> missedHeartbeats nc' = 0 \<and>
    sint (lastRTT nc') = (now - sentTimestamp (to_millis tpm h)) sdiv tpm + timeSinceLast h \<and>
    timeSinceLast h \<le> sint (lastRTT nc')"
proof -
  let ?sent = "sentTimestamp (to_millis tpm h)"
  have sent: "0 \<le> ?sent" "?sent \<le> sentTimestamp h"
    using assms(4,5) pos_mod_sign [of tpm "sentTimestamp h"]
    by (simp_all add: to_millis_def sdiv_lower_eq minus_mod_eq_div_mult [symmetric]
        zmod_le_nonneg_dividend del: minus_mod_eq_div_mult)
  with assms(6,7) have d: "in_i64 (now - ?sent)" "0 \<le> (now - ?sent) sdiv tpm"
    using assms(4) by (auto simp: in_i64_def sdiv_lower_eq pos_imp_zdiv_nonneg_iff)
  let ?rtt = "(now - ?sent) sdiv tpm + timeSinceLast h"
  have r: "in_i64 ?rtt" "sint (word_of_int ?rtt :: i32) = ?rtt"
    using d(2) assms(8,10) by (simp_all add: in_i64_def signed_of_int signed_take_bit_int_eq_self del: of_int_add)
  have parse: "hb_byteArrayToObject tpm now (i # hb_toByteArray tpm h) = Inr (to_millis tpm h)"
    using hb_parse_serialized [OF assms(3,4), of now i "[]"] by simp
  let ?nc = "nc\<lparr>isAlive := True, missedHeartbeats := 0, lastRTT := word_of_int ?rtt\<rparr>"
  have "on_packet tpm now inflater p nc = fire (onReceivedHeartbeat nc) HeartbeatReceived ?nc"
    using assms(1,2) d(1) r(1) parse
    by (simp add: on_packet_def on_heartbeat_def getSentTimestamp_def getTimeSinceLast_def to_millis_def)
  also have "\<dots> = Inr (if onReceivedHeartbeat nc then emit HeartbeatReceived ?nc else ?nc)"
    using assms(9) by (simp add: fire_def)
  finally show ?thesis using r(2) d(2) by simp
qed

theorem round_trip_time_witness:
  "\<exists>p nc'. Packet_TCP 0xFD (0 # hb_toByteArray 1000 \<lparr>timeSinceLast = 30000, sentTimestamp = 5000000\<rparr>) False = Inr p \<and>
     on_packet 1000 5020000 store_codec p (nc_init 0 True True) = Inr nc' \<and> sint (lastRTT nc') = 30020"
proof -
  obtain p where p: "Packet_TCP 0xFD (0 # hb_toByteArray 1000 \<lparr>timeSinceLast = 30000, sentTimestamp = 5000000\<rparr>) False = Inr p"
    by (simp add: Packet_TCP_nonempty)
  then have "getID p = parlo_id Heartbeat"
    "getData p = 0 # hb_toByteArray 1000 \<lparr>timeSinceLast = 30000, sentTimestamp = 5000000\<rparr>"
    by (simp_all add: Packet_TCP_Inr_iff)
  from round_trip_time [OF this, of 5020000 "nc_init 0 True True" store_codec] p show ?thesis
    by (auto simp: hb_valid_def in_i64_def nc_init_def to_millis_def sdiv_lower_eq)
qed

text \<open>Disconnecting from outside the heartbeat threads. With the goodbye message (the default), a client
  whose Impl is not shared stays exactly as it was: the send raises and the exception is
  swallowed. Where the send works, the goodbye packet with the client's timeout of 5 seconds is
  written first, then the socket is shut down and closed, both threads are told to stop and
  joined, and the client counts as disconnected; then disconnecting again does nothing and
  destroying the client is safe on every thread.\<close>

theorem disconnect_outcome:
  assumes "connected nc" "socketOpen nc" "\<not> stopCheckMissedHeartbeats nc" "\<not> stopSendingHeartbeats nc"
    and "closed = nc\<lparr>connected := False, socketOpen := False, heartbeatCheckThread := False,
           sendHeartbeatsThread := False, stopCheckMissedHeartbeats := True, stopSendingHeartbeats := True,
           trace := trace nc @ [AsyncWrite ([0xFF, 0, 20, 0] @ i64_bytes 5 @ i64_bytes (now sdiv tps)),
             ShutdownSocket, CloseSocket]\<rparr>"
  shows "disconnectAsync tps deflater now OtherThread True True True nc =
      Inr (if implShared nc then closed else nc) \<and>
    disconnectAsync tps deflater now th sd cl msg closed = Inr closed \<and>
    destroy_client th closed = Inr closed"
proof -
  have send: "and_then (goodbye_bytes tps now) (\<lambda>bytes. sendAsync deflater bytes nc) =
    (if implShared nc
     then Inr (emit (AsyncWrite ([0xFF, 0, 20, 0] @ i64_bytes 5 @ i64_bytes (now sdiv tps))) nc)
     else Inl Bad_weak_ptr)"
    using assms(1)
    by (simp add: goodbye_bytes_eq sendAsync_eq compresses_def gb_toByteArray_def GoodbyePacket_def)
  have "disconnectAsync tps deflater now OtherThread True True True nc =
      Inr (if implShared nc then closed else nc)"
    using assms by (simp add: disconnectAsync_def send std_exception_def stop_threads_def
        stop_check_def stop_send_def emit_def Let_def)
  moreover have "disconnectAsync tps deflater now th sd cl msg closed = Inr closed"
    "destroy_client th closed = Inr closed"
    using assms(5) by (simp_all add: disconnectAsync_def destroy_client_def stop_check_def stop_send_def)
  ultimately show ?thesis by blast
qed

theorem disconnect_outcome_witness:
  "disconnectAsync 1000 store_codec 7000 OtherThread True True True (nc_init 0 True True) = Inr (nc_init 0 True True)"
  using disconnect_outcome [of "nc_init 0 True True" _ 7000 1000 store_codec, OF _ _ _ _ refl]
  by (simp add: nc_init_def)

text \<open>Disconnecting from inside the watchdog thread, where the connection-lost handler runs. The socket is
  shut down and closed, but the thread cannot join itself: the std::system_error is swallowed with
  the client still counting as connected and the thread still joinable, and destroying the client
  afterwards is std::terminate on whatever thread it happens.\<close>

theorem disconnect_inside_watchdog:
  assumes "connected nc" "socketOpen nc" "\<not> stopCheckMissedHeartbeats nc" "heartbeatCheckThread nc"
  shows "\<exists>nc'. disconnectAsync tps deflater now CheckThread True True False nc = Inr nc' \<and>
    connected nc' \<and> \<not> socketOpen nc' \<and> heartbeatCheckThread nc' \<and>
    trace nc' = trace nc @ [ShutdownSocket, CloseSocket] \<and>
    (\<exists>m. destroy_client th nc' = Inl (Std_terminate m))"
proof -
  let ?nc' = "nc\<lparr>socketOpen := False, stopCheckMissedHeartbeats := True,
      trace := trace nc @ [ShutdownSocket, CloseSocket]\<rparr>"
  have "disconnectAsync tps deflater now CheckThread True True False nc = Inr ?nc'"
    using assms by (simp add: disconnectAsync_def stop_threads_def stop_check_def emit_def Let_def)
  moreover have "\<exists>m. destroy_client th ?nc' = Inl (Std_terminate m)"
    using assms(4) by (simp add: destroy_client_def stop_check_def stop_send_def Let_def)
  ultimately show ?thesis using assms by (intro exI [of _ ?nc']) simp
qed

theorem disconnect_inside_watchdog_witness:
  "\<exists>nc'. disconnectAsync 1 store_codec 0 CheckThread True True False
       ((nc_init 0 True True)\<lparr>heartbeatCheckThread := True\<rparr>) = Inr nc' \<and> connected nc' \<and>
     (\<exists>m. destroy_client OtherThread nc' = Inl (Std_terminate m))"
  using disconnect_inside_watchdog [of "(nc_init 0 True True)\<lparr>heartbeatCheckThread := True\<rparr>" 1
      store_codec 0 OtherThread]
  by (auto simp: nc_init_def)

end
