(* ===== verification/Write_Buffers.thy ===== *)
theory Write_Buffers
  imports Network_Client "HOL-Library.Sublist"
begin

text \<open>
  The memory behind \<open>sendAsync\<close>. \<open>asio::async_write\<close> is given \<open>asio::buffer(data)\<close>: the address and
  size of the caller's vector, not its bytes. asio documents that the caller keeps the memory
  valid until the completion handler runs, that the write is made of any number of partial
  writes, and that no second write may be started on the socket before the first has completed.
  The model has a store of blocks, the writes that are under way and the bytes that reached the
  socket. The lemmas show that callers who follow both rules get exactly their bytes onto the
  wire; the properties show what the library's own callers do.
\<close>

section \<open>The store and the writes under way\<close>

datatype block = Live bytes | Freed

text \<open>
  \<open>next_block\<close> is the first identity never handed out: a freed block is never confused with a later
  one. A write under way has the block's identity, the size of the buffer and the number of bytes
  already written.
\<close>

record wstate =
  client :: nclient
  store :: "nat \<Rightarrow> block"
  next_block :: nat
  writes :: "(nat \<times> nat \<times> nat) list"
  wire :: bytes

definition wstate_init :: "nclient \<Rightarrow> wstate" where
  "wstate_init nc = \<lparr>client = nc, store = (\<lambda>_. Freed), next_block = 0, writes = [], wire = []\<rparr>"

definition new_block :: "bytes \<Rightarrow> wstate \<Rightarrow> nat \<times> wstate" where
  "new_block d w =
     (next_block w, w\<lparr>store := (store w)(next_block w := Live d), next_block := next_block w + 1\<rparr>)"

definition free_block :: "nat \<Rightarrow> wstate \<Rightarrow> wstate" where
  "free_block a w = w\<lparr>store := (store w)(a := Freed)\<rparr>"

text \<open>\<open>sendAsync\<close> of the vector in block \<open>a\<close>.\<close>

definition send_block :: "'z codec \<Rightarrow> nat \<Rightarrow> wstate \<Rightarrow> wstate result" where
  "send_block deflater a w =
     (case store w a of
        Freed \<Rightarrow> Inl (Undefined_behaviour ''read of freed memory'')
      | Live d \<Rightarrow> and_then (sendAsync deflater d (client w)) (\<lambda>nc.
          Inr (w\<lparr>client := nc, writes := writes w @ [(a, length d, 0)]\<rparr>)))"

text \<open>
  One partial write of the \<open>i\<close>-th write under way, of \<open>n\<close> bytes; then its completion, without or
  with an error.
\<close>

definition write_some :: "nat \<Rightarrow> nat \<Rightarrow> wstate \<Rightarrow> wstate result" where
  "write_some i n w =
     (case writes w ! i of (a, len, k) \<Rightarrow>
        (case store w a of
           Freed \<Rightarrow> Inl (Undefined_behaviour ''read of freed memory'')
         | Live d \<Rightarrow>
             Inr (w\<lparr>wire := wire w @ take n (drop k d), writes := (writes w)[i := (a, len, k + n)]\<rparr>)))"

definition drop_write :: "nat \<Rightarrow> wstate \<Rightarrow> wstate" where
  "drop_write i w = w\<lparr>writes := take i (writes w) @ drop (Suc i) (writes w)\<rparr>"

text \<open>
  Sending a temporary, as \<open>sendHeartbeatAsync\<close> and \<open>disconnectAsync\<close> do with the vector that
  \<open>buildPacket\<close> returns: it is destroyed at the end of the statement, also if \<open>sendAsync\<close> raises.
\<close>

definition send_temporary :: "'z codec \<Rightarrow> bytes \<Rightarrow> wstate \<Rightarrow> wstate \<times> exn option" where
  "send_temporary deflater d w =
     (case new_block d w of (a, w') \<Rightarrow>
        (case send_block deflater a w' of
           Inl e \<Rightarrow> (free_block a w', Some e)
         | Inr w'' \<Rightarrow> (free_block a w'', None)))"

section \<open>Steps\<close>

text \<open>
  What callers and asio do, in any order. A partial write has at least one byte. \<open>may_send\<close> and
  \<open>may_free\<close> are the rules a caller follows.
\<close>

inductive w_step ::
  "'z codec \<Rightarrow> (wstate \<Rightarrow> bool) \<Rightarrow> (nat \<Rightarrow> wstate \<Rightarrow> bool) \<Rightarrow> wstate \<Rightarrow> wstate \<Rightarrow> bool"
  for deflater may_send may_free where
  alloc: "w_step deflater may_send may_free w (snd (new_block d w))"
| send: "may_send w \<Longrightarrow> a < next_block w \<Longrightarrow> send_block deflater a w = Inr w' \<Longrightarrow>
     w_step deflater may_send may_free w w'"
| free: "may_free a w \<Longrightarrow> w_step deflater may_send may_free w (free_block a w)"
| some: "i < length (writes w) \<Longrightarrow> writes w ! i = (a, len, k) \<Longrightarrow> 0 < n \<Longrightarrow> k + n \<le> len \<Longrightarrow>
     write_some i n w = Inr w' \<Longrightarrow> w_step deflater may_send may_free w w'"
| finish: "i < length (writes w) \<Longrightarrow> writes w ! i = (a, len, len) \<Longrightarrow>
     write_done False (client w) = Inr nc \<Longrightarrow>
     w_step deflater may_send may_free w ((drop_write i w)\<lparr>client := nc\<rparr>)"
| fail: "i < length (writes w) \<Longrightarrow> write_done True (client w) = Inr nc \<Longrightarrow>
     w_step deflater may_send may_free w ((drop_write i w)\<lparr>client := nc\<rparr>)"

inductive w_reachable ::
  "'z codec \<Rightarrow> (wstate \<Rightarrow> bool) \<Rightarrow> (nat \<Rightarrow> wstate \<Rightarrow> bool) \<Rightarrow> nclient \<Rightarrow> wstate \<Rightarrow> bool"
  for deflater may_send may_free nc0 where
  start: "w_reachable deflater may_send may_free nc0 (wstate_init nc0)"
| step: "w_reachable deflater may_send may_free nc0 w \<Longrightarrow> w_step deflater may_send may_free w w' \<Longrightarrow>
     w_reachable deflater may_send may_free nc0 w'"

inductive_cases w_stepE: "w_step deflater may_send may_free w w'"

text \<open>asio would read freed memory with its next partial write.\<close>

definition write_faults :: "wstate \<Rightarrow> bool" where
  "write_faults w \<longleftrightarrow> (\<exists>(a, len, k) \<in> set (writes w). k < len \<and> store w a = Freed)"

definition anything :: "wstate \<Rightarrow> bool" where
  "anything w \<longleftrightarrow> True"

definition one_at_a_time :: "wstate \<Rightarrow> bool" where
  "one_at_a_time w \<longleftrightarrow> writes w = []"

definition not_in_use :: "nat \<Rightarrow> wstate \<Rightarrow> bool" where
  "not_in_use a w \<longleftrightarrow> a \<notin> fst ` set (writes w)"

text \<open>The bytes the client was asked to write, in order.\<close>

fun written :: "nc_effect list \<Rightarrow> bytes" where
  "written [] = []"
| "written (AsyncWrite d # es) = d @ written es"
| "written (_ # es) = written es"

section \<open>Lemmas\<close>

lemma written_append [simp]: "written (es @ fs) = written es @ written fs"
  by (induction es rule: written.induct) simp_all

lemma new_block_simps [simp]:
  "fst (new_block d w) = next_block w" "client (snd (new_block d w)) = client w"
  "writes (snd (new_block d w)) = writes w" "wire (snd (new_block d w)) = wire w"
  "store (snd (new_block d w)) = (store w)(next_block w := Live d)"
  "next_block (snd (new_block d w)) = next_block w + 1"
  by (simp_all add: new_block_def)

lemma free_block_simps [simp]:
  "client (free_block a w) = client w" "writes (free_block a w) = writes w"
  "wire (free_block a w) = wire w" "next_block (free_block a w) = next_block w"
  "store (free_block a w) = (store w)(a := Freed)"
  by (simp_all add: free_block_def)

lemma send_block_Inr_iff:
  "send_block deflater a w = Inr w' \<longleftrightarrow>
     (\<exists>d nc. store w a = Live d \<and> sendAsync deflater d (client w) = Inr nc \<and>
        w' = w\<lparr>client := nc, writes := writes w @ [(a, length d, 0)]\<rparr>)"
  by (auto simp: send_block_def and_then_Inr_iff split: block.split)

lemma write_done_effects:
  assumes "write_done ec nc = Inr nc'"
  shows "written (trace nc') = written (trace nc) \<and> (connected nc' \<longrightarrow> connected nc) \<and>
    (ec \<longrightarrow> \<not> connected nc') \<and> (\<not> ec \<longrightarrow> nc' = nc)"
  using assms by (auto simp: write_done_def fire_lost_Inr_iff split: if_splits)

text \<open>
  The invariant of callers who follow both rules: at most one write is under way; its block is
  live and holds the bytes of the last request; with what is left of it, the wire holds all the
  requests as long as nothing failed, and a prefix of them in any case.
\<close>

definition orderly :: "bytes \<Rightarrow> wstate \<Rightarrow> bool" where
  "orderly before w \<longleftrightarrow>
     (\<forall>a \<ge> next_block w. store w a = Freed) \<and>
     (case writes w of
        [] \<Rightarrow> prefix (before @ wire w) (written (trace (client w))) \<and>
          (connected (client w) \<longrightarrow> before @ wire w = written (trace (client w)))
      | [(a, len, k)] \<Rightarrow>
          (\<exists>d. store w a = Live d \<and> len = length d \<and> k \<le> len \<and>
             before @ wire w @ drop k d = written (trace (client w)))
      | _ \<Rightarrow> False)"

lemma orderly_cases:
  assumes "orderly before w"
  obtains (idle) "writes w = []" "prefix (before @ wire w) (written (trace (client w)))"
      "connected (client w) \<Longrightarrow> before @ wire w = written (trace (client w))"
    | (busy) a d k where "writes w = [(a, length d, k)]" "store w a = Live d" "k \<le> length d"
      "before @ wire w @ drop k d = written (trace (client w))"
proof (cases "writes w")
  case Nil
  with assms idle show ?thesis by (simp add: orderly_def)
next
  case (Cons x xs)
  obtain a len k where x: "x = (a, len, k)" by (cases x) auto
  from assms Cons have "xs = []" by (cases xs) (auto simp: orderly_def)
  with assms Cons x busy show ?thesis by (auto simp: orderly_def)
qed

lemma orderly_unallocated: "orderly before w \<Longrightarrow> store w a = Live d \<Longrightarrow> a < next_block w"
  by (auto simp: orderly_def not_less [symmetric])

lemma orderly_step:
  assumes "w_step deflater one_at_a_time not_in_use w w'" and inv: "orderly before w"
  shows "orderly before w'"
  using assms(1)
proof (cases rule: w_step.cases)
  case (alloc d)
  from inv show ?thesis
    by (cases rule: orderly_cases) (use inv orderly_unallocated [OF inv] alloc in \<open>fastforce simp: orderly_def\<close>)+
next
  case (send a)
  then obtain d nc where d: "store w a = Live d" and nc: "sendAsync deflater d (client w) = Inr nc"
    and w': "w' = w\<lparr>client := nc, writes := writes w @ [(a, length d, 0)]\<rparr>"
    by (auto simp: send_block_Inr_iff)
  from send(1) have idle: "writes w = []" by (simp add: one_at_a_time_def)
  from nc have "connected (client w)" "trace nc = trace (client w) @ [AsyncWrite d]"
    by (auto simp: sendAsync_Inr_iff)
  with inv d idle show ?thesis by (auto simp: w' orderly_def)
next
  case (free a)
  from inv show ?thesis
    by (cases rule: orderly_cases) (use inv free in \<open>auto simp: orderly_def not_in_use_def\<close>)
next
  case (some i a len k n)
  from inv show ?thesis
  proof (cases rule: orderly_cases)
    case idle
    with some show ?thesis by simp
  next
    case (busy b d j)
    with some have eq: "i = 0" "a = b" "len = length d" "k = j" by auto
    with some busy have w': "w' = w\<lparr>wire := wire w @ take n (drop j d), writes := [(b, length d, j + n)]\<rparr>"
      by (simp add: write_some_def)
    have "take n (drop j d) @ drop (j + n) d = drop j d"
      by (metis append_take_drop_id drop_drop add.commute)
    with inv busy some(4) eq show ?thesis by (simp add: w' orderly_def)
  qed
next
  case (finish i a len nc)
  from inv show ?thesis
  proof (cases rule: orderly_cases)
    case idle
    with finish show ?thesis by simp
  next
    case (busy b d k)
    with finish have "nc = client w" "i = 0" "k = length d" by (auto simp: write_done_def)
    with inv busy finish show ?thesis by (simp add: orderly_def drop_write_def)
  qed
next
  case (fail i nc)
  from inv show ?thesis
  proof (cases rule: orderly_cases)
    case idle
    with fail show ?thesis by simp
  next
    case (busy b d k)
    from write_done_effects [OF fail(3)] have nc: "\<not> connected nc" "written (trace nc) = written (trace (client w))"
      by simp_all
    have "prefix (before @ wire w) (written (trace (client w)))"
      using busy(4) by (metis append_assoc prefixI)
    with inv busy fail nc show ?thesis by (simp add: orderly_def drop_write_def)
  qed
qed

lemma orderly_reachable:
  "w_reachable deflater one_at_a_time not_in_use nc0 w \<Longrightarrow> orderly (written (trace nc0)) w"
proof (induction rule: w_reachable.induct)
  case start
  show ?case by (simp add: orderly_def wstate_init_def)
next
  case (step w w')
  then show ?case by (blast intro: orderly_step)
qed

lemma short_not_compressed: "length d < 1024 \<Longrightarrow> \<not> compresses d nc"
  by (simp add: compresses_def)

text \<open>A send that succeeds from a block that is then freed leaves a write nobody can carry out.\<close>

lemma send_temporary_faults:
  assumes "sendAsync deflater d (client w) = Inr nc"
  shows "\<exists>w'. send_temporary deflater d w = (w', None) \<and> client w' = nc \<and> write_faults w' \<and>
    (\<forall>n. write_some (length (writes w)) n w' = Inl (Undefined_behaviour ''read of freed memory''))"
proof -
  let ?a = "next_block w"
  let ?w' = "free_block ?a ((snd (new_block d w))\<lparr>client := nc, writes := writes w @ [(?a, length d, 0)]\<rparr>)"
  from assms have d: "0 < length d" by (auto simp: sendAsync_Inr_iff)
  have "send_block deflater ?a (snd (new_block d w)) =
      Inr ((snd (new_block d w))\<lparr>client := nc, writes := writes w @ [(?a, length d, 0)]\<rparr>)"
    using assms by (simp add: send_block_def)
  then have "send_temporary deflater d w = (?w', None)"
    by (simp add: send_temporary_def new_block_def)
  moreover have "write_faults ?w'" using d by (auto simp: write_faults_def)
  moreover have "write_some (length (writes w)) n ?w' = Inl (Undefined_behaviour ''read of freed memory'')" for n
    by (simp add: write_some_def)
  ultimately show ?thesis by (intro exI [of _ ?w']) simp
qed

text \<open>One packet, sent and written by the rules.\<close>

lemma one_send:
  assumes "sendAsync deflater d nc = Inr nc'"
  shows "\<exists>w. w_reachable deflater one_at_a_time not_in_use nc w \<and> writes w = [] \<and> wire w = d \<and> client w = nc'"
proof -
  let ?reach = "w_reachable deflater one_at_a_time not_in_use nc"
  let ?w1 = "snd (new_block d (wstate_init nc))"
  let ?w2 = "?w1\<lparr>client := nc', writes := [(0, length d, 0)]\<rparr>"
  let ?w3 = "?w2\<lparr>wire := d, writes := [(0, length d, length d)]\<rparr>"
  have d: "0 < length d" using assms by (auto simp: sendAsync_Inr_iff)
  have "?reach ?w1" by (rule w_reachable.step [OF w_reachable.start w_step.alloc])
  then have "?reach ?w2"
    by (rule w_reachable.step, intro w_step.send [of _ _ 0])
      (simp_all add: one_at_a_time_def wstate_init_def send_block_def assms)
  then have "?reach ?w3"
    by (rule w_reachable.step, intro w_step.some [of 0 _ 0 "length d" 0 "length d"])
      (use d in \<open>simp_all add: write_some_def wstate_init_def\<close>)
  then have "?reach ((drop_write 0 ?w3)\<lparr>client := nc'\<rparr>)"
    by (rule w_reachable.step, intro w_step.finish [of 0 _ 0 "length d"]) (simp_all add: write_done_def)
  then show ?thesis by (intro exI [of _ "(drop_write 0 ?w3)\<lparr>client := nc'\<rparr>"]) (simp add: drop_write_def)
qed

section \<open>Properties\<close>

text \<open>C6: Callers who keep a buffer until its write has completed, and start no write before the last one has
  completed, are served faithfully, whatever partial writes the system makes and whichever writes
  fail: memory that was freed is never read, the wire holds a prefix of the bytes the client was
  asked to send, in order, and all of them whenever no write is under way and none has failed.\<close>

theorem orderly_writes_reach_wire:
  assumes "w_reachable deflater one_at_a_time not_in_use nc0 w"
  shows "\<not> write_faults w \<and>
    prefix (written (trace nc0) @ wire w) (written (trace (client w))) \<and>
    (writes w = [] \<and> connected (client w) \<longrightarrow>
      written (trace nc0) @ wire w = written (trace (client w)))"
  using orderly_reachable [OF assms]
proof (cases rule: orderly_cases)
  case idle
  then show ?thesis by (auto simp: write_faults_def)
next
  case (busy a d k)
  then have "prefix (written (trace nc0) @ wire w) (written (trace (client w)))"
    by (metis append_assoc prefixI)
  with busy show ?thesis by (simp add: write_faults_def)
qed

theorem orderly_writes_reach_wire_witness:
  "\<exists>w. w_reachable store_codec one_at_a_time not_in_use ((nc_init 0 True True)\<lparr>implShared := True\<rparr>) w \<and>
     wire w = [7, 8] \<and> writes w = [(0, 2, 2)] \<and> \<not> write_faults w"
proof -
  let ?nc = "(nc_init 0 True True)\<lparr>implShared := True\<rparr>"
  let ?w0 = "wstate_init ?nc"
  let ?w1 = "snd (new_block [7, 8] ?w0)"
  let ?w2 = "?w1\<lparr>client := emit (AsyncWrite [7, 8]) ?nc, writes := [(0, 2, 0)]\<rparr>"
  let ?w3 = "?w2\<lparr>wire := [7, 8], writes := [(0, 2, 2)]\<rparr>"
  have "w_reachable store_codec one_at_a_time not_in_use ?nc ?w1"
    by (rule w_reachable.step [OF w_reachable.start w_step.alloc])
  then have "w_reachable store_codec one_at_a_time not_in_use ?nc ?w2"
    by (rule w_reachable.step, intro w_step.send [of _ _ 0])
      (simp_all add: one_at_a_time_def wstate_init_def send_block_def sendAsync_eq compresses_def nc_init_def)
  then have r: "w_reachable store_codec one_at_a_time not_in_use ?nc ?w3"
    by (rule w_reachable.step, intro w_step.some [of 0 _ 0 2 0 2]) (simp_all add: write_some_def wstate_init_def)
  from orderly_writes_reach_wire [OF r] r show ?thesis by (intro exI [of _ ?w3]) simp
qed

text \<open>C16: The library's own senders are not such callers. The heartbeat thread and \<open>disconnectAsync\<close> send
  the temporary vector \<open>buildPacket\<close> returns: on every client that can send, the call succeeds, and
  with the vector gone at the end of the statement, any partial write that is still to be made
  reads freed memory.\<close>

theorem own_packets_dangle:
  assumes "connected (client w)" "implShared (client w)"
    and "heartbeat_bytes tpm now t = Inr d \<or> goodbye_bytes tps now = Inr d"
  shows "\<exists>w'. send_temporary deflater d w = (w', None) \<and>
    trace (client w') = trace (client w) @ [AsyncWrite d] \<and> write_faults w' \<and>
    (\<forall>n. write_some (length (writes w)) n w' = Inl (Undefined_behaviour ''read of freed memory''))"
proof -
  have "length d = 20" using assms(3) by (auto simp: heartbeat_bytes_eq goodbye_bytes_eq)
  with assms(1,2) have "sendAsync deflater d (client w) = Inr (emit (AsyncWrite d) (client w))"
    by (auto simp: sendAsync_Inr_iff short_not_compressed)
  from send_temporary_faults [of deflater d w, OF this] show ?thesis by auto
qed

theorem own_packets_dangle_witness:
  "\<exists>w'. send_temporary store_codec ([0xFF, 0, 20, 0] @ gb_toByteArray 1000 (GoodbyePacket 7000 5))
     (wstate_init ((nc_init 0 True True)\<lparr>implShared := True\<rparr>)) = (w', None) \<and> write_faults w'"
  using own_packets_dangle [of "wstate_init ((nc_init 0 True True)\<lparr>implShared := True\<rparr>)" 1 7000 0
      "[0xFF, 0, 20, 0] @ gb_toByteArray 1000 (GoodbyePacket 7000 5)" 1000 store_codec]
  by (auto simp: wstate_init_def nc_init_def goodbye_bytes_eq)

text \<open>C25: Nothing in \<open>sendAsync\<close> keeps a second write from starting while the first is under way, for
  example a heartbeat during a send. Two packets sent that way, from buffers that stay valid and
  with writes that all succeed, can reach the wire in pieces from which the receiver recovers no
  packet at all, although every byte of both was written.\<close>

theorem overlapping_sends_garble:
  "\<exists>w p q. Packet_TCP 1 [7, 7] False = Inr p \<and> Packet_TCP 2 [8, 8] False = Inr q \<and>
     w_reachable store_codec anything not_in_use ((nc_init 0 True True)\<lparr>implShared := True\<rparr>) w \<and>
     writes w = [] \<and> connected (client w) \<and>
     trace (client w) = [AsyncWrite (buildPacket p), AsyncWrite (buildPacket q)] \<and>
     length (wire w) = length (buildPacket p) + length (buildPacket q) \<and>
     frames_of next_frame (wire w) = []"
proof -
  obtain p q where pq: "Packet_TCP 1 [7, 7] False = Inr p" "Packet_TCP 2 [8, 8] False = Inr q"
    by (simp add: Packet_TCP_nonempty)
  let ?P = "[1, 0, 6, 0, 7, 7] :: bytes" and ?Q = "[2, 0, 6, 0, 8, 8] :: bytes"
  from pq have P: "buildPacket p = ?P" and Q: "buildPacket q = ?Q"
    by (auto simp: Packet_TCP_Inr_iff codec_simps length_bytes_def length_low_def length_high_def)
  let ?nc = "(nc_init 0 True True)\<lparr>implShared := True\<rparr>"
  let ?reach = "w_reachable store_codec anything not_in_use ?nc"
  let ?w2 = "snd (new_block ?Q (snd (new_block ?P (wstate_init ?nc))))"
  let ?nc' = "?nc\<lparr>trace := [AsyncWrite ?P, AsyncWrite ?Q]\<rparr>"
  let ?w4 = "?w2\<lparr>client := ?nc', writes := [(0, 6, 0), (1, 6, 0)]\<rparr>"
  let ?w7 = "?w4\<lparr>wire := [1, 0] @ ?Q @ [6, 0, 7, 7], writes := [(0, 6, 6), (1, 6, 6)]\<rparr>"
  have "?reach ?w2"
    by (rule w_reachable.step [OF w_reachable.step [OF w_reachable.start w_step.alloc] w_step.alloc])
  then have "?reach (?w2\<lparr>client := ?nc\<lparr>trace := [AsyncWrite ?P]\<rparr>, writes := [(0, 6, 0)]\<rparr>)"
    by (rule w_reachable.step, intro w_step.send [of _ _ 0])
      (simp_all add: anything_def wstate_init_def send_block_def sendAsync_eq compresses_def nc_init_def emit_def)
  then have "?reach ?w4"
    by (rule w_reachable.step, intro w_step.send [of _ _ 1])
      (simp_all add: anything_def wstate_init_def send_block_def sendAsync_eq compresses_def nc_init_def emit_def)
  then have "?reach (?w4\<lparr>wire := [1, 0], writes := [(0, 6, 2), (1, 6, 0)]\<rparr>)"
    by (rule w_reachable.step, intro w_step.some [of 0 _ 0 6 0 2]) (simp_all add: write_some_def wstate_init_def)
  then have "?reach (?w4\<lparr>wire := [1, 0] @ ?Q, writes := [(0, 6, 2), (1, 6, 6)]\<rparr>)"
    by (rule w_reachable.step, intro w_step.some [of 1 _ 1 6 0 6]) (simp_all add: write_some_def wstate_init_def)
  then have "?reach ?w7"
    by (rule w_reachable.step, intro w_step.some [of 0 _ 0 6 2 4]) (simp_all add: write_some_def wstate_init_def)
  then have "?reach ((drop_write 0 ?w7)\<lparr>client := ?nc'\<rparr>)"
    by (rule w_reachable.step, intro w_step.finish [of 0 _ 0 6]) (simp_all add: write_done_def)
  moreover have "(drop_write 0 ?w7)\<lparr>client := ?nc'\<rparr> = ?w7\<lparr>writes := [(1, 6, 6)]\<rparr>" (is "_ = ?w8")
    by (simp add: drop_write_def)
  ultimately have "?reach ?w8" by (simp only:)
  then have "?reach ((drop_write 0 ?w8)\<lparr>client := ?nc'\<rparr>)"
    by (rule w_reachable.step, intro w_step.finish [of 0 _ 1 6]) (simp_all add: write_done_def)
  moreover have "(drop_write 0 ?w8)\<lparr>client := ?nc'\<rparr> = ?w7\<lparr>writes := []\<rparr>"
    by (simp add: drop_write_def)
  ultimately have r: "?reach (?w7\<lparr>writes := []\<rparr>)" by (simp only:)
  have "next_frame ([1, 0] @ ?Q @ [6, 0, 7, 7]) = None" by (simp add: unat_combine_length)
  then have f: "frames_of next_frame ([1, 0] @ ?Q @ [6, 0, 7, 7]) = []" by (rule pb.frames_None)
  have "trace ?nc' = [AsyncWrite (buildPacket p), AsyncWrite (buildPacket q)]" by (simp add: P Q)
  moreover have "length ([1, 0] @ ?Q @ [6, 0, 7, 7]) = length (buildPacket p) + length (buildPacket q)"
    by (simp add: P Q)
  ultimately show ?thesis
    using r f pq by (intro exI [of _ "?w7\<lparr>writes := []\<rparr>"] exI [of _ p] exI [of _ q]) (simp add: nc_init_def)
qed

end
