(* ===== verification/Blocking_Queue.thy ===== *)
theory Blocking_Queue
  imports Parlo_Prelude "HOL-Library.Multiset"
begin

text \<open>
  BlockingQueue.h, the bounded queue the Listener keeps its clients in: the constructor, \<open>add\<close>,
  \<open>take(item)\<close>, \<open>count\<close> and \<open>isEmpty\<close>. (The two other members, \<open>tryTake()\<close> and \<open>take()\<close>, call
  \<open>pop()\<close> on a std::deque, which has no such member: they cannot be instantiated and nothing
  instantiates them.) The locale \<open>registry\<close> is what a client of the queue relies on; the
  interpretation \<open>bq\<close> discharges it. The second half models the callers of \<open>add\<close> that wait for
  room, with the monitor's notifications.
\<close>

section \<open>The interface\<close>

text \<open>
  A history of the members: what the interface's operations make of it (\<open>None\<close> if an insertion
  would wait), and the plain list it stands for.
\<close>

datatype 'c reg_event = Join 'c | Leave 'c

fun run_registry ::
  "('c \<Rightarrow> 's \<Rightarrow> 's option) \<Rightarrow> ('c \<Rightarrow> 's \<Rightarrow> 's \<times> bool) \<Rightarrow> 'c reg_event list \<Rightarrow> 's \<Rightarrow> 's option" where
  "run_registry ins rem [] s = Some s"
| "run_registry ins rem (Join c # evs) s =
     (case ins c s of None \<Rightarrow> None | Some s' \<Rightarrow> run_registry ins rem evs s')"
| "run_registry ins rem (Leave c # evs) s = run_registry ins rem evs (fst (rem c s))"

fun registered :: "'c reg_event list \<Rightarrow> 'c list \<Rightarrow> 'c list" where
  "registered [] ms = ms"
| "registered (Join c # evs) ms = registered evs (ms @ [c])"
| "registered (Leave c # evs) ms = registered evs (filter (\<lambda>d. d \<noteq> c) ms)"

definition joins :: "'c reg_event list \<Rightarrow> 'c list" where
  "joins evs = concat (map (\<lambda>e. case e of Join c \<Rightarrow> [c] | Leave c \<Rightarrow> []) evs)"

lemma joins_simps [simp]:
  "joins [] = []" "joins (Join c # evs) = c # joins evs" "joins (Leave c # evs) = joins evs"
  by (simp_all add: joins_def)

locale registry =
  fixes members :: "'s \<Rightarrow> 'c list"
    and insert_member :: "'c \<Rightarrow> 's \<Rightarrow> 's option"
    and remove_member :: "'c \<Rightarrow> 's \<Rightarrow> 's \<times> bool"
    and room :: "'s \<Rightarrow> nat"
  assumes insert_ok: "0 < room s \<Longrightarrow>
      \<exists>s'. insert_member c s = Some s' \<and> members s' = members s @ [c] \<and> room s' = room s - 1"
    and insert_full: "room s = 0 \<Longrightarrow> insert_member c s = None"
    and remove_hit: "snd (remove_member c s) \<longleftrightarrow> c \<in> set (members s)"
    and remove_members: "members (fst (remove_member c s)) = remove1 c (members s)"
    and remove_room: "room s \<le> room (fst (remove_member c s))"
begin

text \<open>A member that joins and leaves again leaves the others as they were.\<close>

lemma insert_remove:
  assumes "insert_member c s = Some s'" "c \<notin> set (members s)"
  shows "snd (remove_member c s') \<and> members (fst (remove_member c s')) = members s"
proof -
  have "0 < room s" using insert_full [of s c] assms(1) by (cases "room s") auto
  with insert_ok [of s c] assms(1) have "members s' = members s @ [c]" by auto
  with assms(2) show ?thesis
    by (simp add: remove_hit remove_members remove1_append)
qed

text \<open>Leaving twice: the second time there is nothing to remove and nothing changes.\<close>

lemma remove_twice:
  assumes "distinct (members s)"
  shows "\<not> snd (remove_member c (fst (remove_member c s))) \<and>
    members (fst (remove_member c (fst (remove_member c s)))) = members (fst (remove_member c s))"
  using assms by (simp add: remove_hit remove_members remove1_idem set_remove1_eq)

lemma insert_members: "insert_member c s = Some s' \<Longrightarrow> members s' = members s @ [c]"
  using insert_full [of s c] insert_ok [of s c] by (cases "room s") auto

text \<open>
  Where no member joins twice, the registry holds exactly the members its history says: each once,
  in the order they joined, without those that left.
\<close>

lemma run_members:
  assumes "run_registry insert_member remove_member evs s = Some s'" "distinct (members s @ joins evs)"
  shows "members s' = registered evs (members s) \<and> distinct (members s')"
  using assms
proof (induction evs arbitrary: s)
  case (Cons e evs)
  show ?case
  proof (cases e)
    case (Join c)
    with Cons.prems(1) obtain t where t: "insert_member c s = Some t"
      "run_registry insert_member remove_member evs t = Some s'" by (auto split: option.splits)
    with Cons.IH [of t] Cons.prems(2) insert_members [OF t(1)] Join show ?thesis by auto
  next
    case (Leave c)
    have "distinct (members s)" using Cons.prems(2) by simp
    then have "members (fst (remove_member c s)) = filter (\<lambda>d. d \<noteq> c) (members s)"
      by (simp add: remove_members distinct_remove1_removeAll removeAll_filter_not_eq)
        (rule filter_cong, auto)
    with Cons.IH [of "fst (remove_member c s)"] Cons.prems Leave show ?thesis by auto
  qed
qed simp

lemma remove_distinct: "distinct (members s) \<Longrightarrow> distinct (members (fst (remove_member c s)))"
  by (simp add: remove_members distinct_remove1)

lemma insert_distinct:
  assumes "insert_member c s = Some s'" "distinct (members s)" "c \<notin> set (members s)"
  shows "distinct (members s')"
proof -
  have "0 < room s" using insert_full [of s c] assms(1) by (cases "room s") auto
  with insert_ok [of s c] assms show ?thesis by auto
qed

end

section \<open>The queue\<close>

record 'a bqueue =
  queue :: "'a list"
  capacity :: nat

definition size_t_max :: nat where
  "size_t_max = 2 ^ 64 - 1"

definition BlockingQueue :: "nat \<Rightarrow> 'a bqueue" where
  "BlockingQueue maxCapacity = \<lparr>queue = [], capacity = maxCapacity\<rparr>"

text \<open>\<open>add\<close>: \<open>None\<close> is a caller that waits on \<open>notFull\<close>, because the predicate is false.\<close>

definition bq_add :: "'a \<Rightarrow> 'a bqueue \<Rightarrow> 'a bqueue option" where
  "bq_add item q =
     (if length (queue q) < capacity q then Some (q\<lparr>queue := queue q @ [item]\<rparr>) else None)"

text \<open>\<open>take(item)\<close>: std::find gives the position of the first equal item, or the end.\<close>

primrec std_find :: "'a list \<Rightarrow> 'a \<Rightarrow> nat" where
  "std_find [] item = 0"
| "std_find (x # xs) item = (if x = item then 0 else Suc (std_find xs item))"

definition erase_at :: "nat \<Rightarrow> 'a list \<Rightarrow> 'a list" where
  "erase_at i xs = take i xs @ drop (Suc i) xs"

definition bq_take_item :: "'a \<Rightarrow> 'a bqueue \<Rightarrow> 'a bqueue \<times> bool" where
  "bq_take_item item q =
     (let it = std_find (queue q) item
      in if it \<noteq> length (queue q) then (q\<lparr>queue := erase_at it (queue q)\<rparr>, True) else (q, False))"

definition bq_count :: "'a bqueue \<Rightarrow> nat" where
  "bq_count q = length (queue q)"

definition bq_isEmpty :: "'a bqueue \<Rightarrow> bool" where
  "bq_isEmpty q = (queue q = [])"

lemma std_find_le: "std_find xs x \<le> length xs"
  by (induction xs) simp_all

lemma std_find_iff: "std_find xs x = length xs \<longleftrightarrow> x \<notin> set xs"
  using std_find_le by (induction xs) auto

lemma erase_find: "erase_at (std_find xs x) xs = remove1 x xs"
  by (induction xs) (simp_all add: erase_at_def)

lemma bq_take_item_eq: "bq_take_item x q = (q\<lparr>queue := remove1 x (queue q)\<rparr>, x \<in> set (queue q))"
  by (simp add: bq_take_item_def Let_def std_find_iff erase_find remove1_idem)

definition bq_room :: "'a bqueue \<Rightarrow> nat" where
  "bq_room q = capacity q - length (queue q)"

interpretation bq: registry queue bq_add bq_take_item bq_room
  by unfold_locales (auto simp: bq_add_def bq_room_def bq_take_item_eq length_remove1)

section \<open>Callers waiting for room\<close>

text \<open>
  The mutex makes each critical section one step: a call of \<open>add\<close>, a woken caller testing the
  predicate again, a removal with its \<open>notify_one\<close> on \<open>notFull\<close>. \<open>waiting\<close> are the items of the
  callers blocked in the wait, \<open>woken\<close> those of the callers that were notified and have not got
  the mutex back yet. The wait may also wake up spuriously.
\<close>

record 'a bqsys =
  bq :: "'a bqueue"
  waiting :: "'a multiset"
  woken :: "'a multiset"

definition bqsys_init :: "nat \<Rightarrow> 'a bqsys" where
  "bqsys_init maxCapacity = \<lparr>bq = BlockingQueue maxCapacity, waiting = {#}, woken = {#}\<rparr>"

inductive bq_step :: "'a bqsys \<Rightarrow> 'a bqsys \<Rightarrow> bool" where
  add_now: "bq_add x (bq s) = Some q \<Longrightarrow> bq_step s (s\<lparr>bq := q\<rparr>)"
| add_wait: "bq_add x (bq s) = None \<Longrightarrow> bq_step s (s\<lparr>waiting := add_mset x (waiting s)\<rparr>)"
| retry_now: "x \<in># woken s \<Longrightarrow> bq_add x (bq s) = Some q \<Longrightarrow>
     bq_step s (s\<lparr>bq := q, woken := woken s - {#x#}\<rparr>)"
| retry_wait: "x \<in># woken s \<Longrightarrow> bq_add x (bq s) = None \<Longrightarrow>
     bq_step s (s\<lparr>woken := woken s - {#x#}, waiting := add_mset x (waiting s)\<rparr>)"
| take_notify: "bq_take_item y (bq s) = (q, True) \<Longrightarrow> x \<in># waiting s \<Longrightarrow>
     bq_step s (s\<lparr>bq := q, waiting := waiting s - {#x#}, woken := add_mset x (woken s)\<rparr>)"
| take_alone: "bq_take_item y (bq s) = (q, True) \<Longrightarrow> waiting s = {#} \<Longrightarrow> bq_step s (s\<lparr>bq := q\<rparr>)"
| take_missing: "bq_take_item y (bq s) = (q, False) \<Longrightarrow> bq_step s (s\<lparr>bq := q\<rparr>)"
| spurious: "x \<in># waiting s \<Longrightarrow>
     bq_step s (s\<lparr>waiting := waiting s - {#x#}, woken := add_mset x (woken s)\<rparr>)"

inductive bq_reachable :: "nat \<Rightarrow> 'a bqsys \<Rightarrow> bool" for maxCapacity where
  init: "bq_reachable maxCapacity (bqsys_init maxCapacity)"
| step: "bq_reachable maxCapacity s \<Longrightarrow> bq_step s t \<Longrightarrow> bq_reachable maxCapacity t"

inductive_cases bq_stepE: "bq_step s t"

text \<open>
  The queue never exceeds its capacity; while callers wait, every free slot has a woken caller
  to fill it.
\<close>

definition bq_inv :: "nat \<Rightarrow> 'a bqsys \<Rightarrow> bool" where
  "bq_inv maxCapacity s \<longleftrightarrow>
     capacity (bq s) = maxCapacity \<and> length (queue (bq s)) \<le> maxCapacity \<and>
     (waiting s = {#} \<or> maxCapacity \<le> length (queue (bq s)) + size (woken s))"

lemma bq_add_Some_iff [result_simps]:
  "bq_add x q = Some q' \<longleftrightarrow> length (queue q) < capacity q \<and> q' = q\<lparr>queue := queue q @ [x]\<rparr>"
  by (auto simp: bq_add_def)

lemma bq_add_None_iff [result_simps]: "bq_add x q = None \<longleftrightarrow> capacity q \<le> length (queue q)"
  by (auto simp: bq_add_def)

lemma bq_step_inv: "bq_step s t \<Longrightarrow> bq_inv n s \<Longrightarrow> bq_inv n t"
  by (erule bq_step.cases)
    (auto simp: bq_inv_def bq_add_Some_iff bq_add_None_iff bq_take_item_eq length_remove1
      size_Diff_singleton)

lemma bq_reachable_inv: "bq_reachable n s \<Longrightarrow> bq_inv n s"
  by (induction rule: bq_reachable.induct)
    (simp_all add: bq_step_inv, simp add: bq_inv_def bqsys_init_def BlockingQueue_def)

section \<open>Properties\<close>

text \<open>C32: Over any history of insertions and removals in which nobody is inserted twice, the queue holds
  exactly those who were inserted and not removed since, each once, in the order they came; the
  counters agree with that, and an insertion waits exactly when the queue holds its capacity.\<close>

theorem registry_history:
  assumes "run_registry bq_add bq_take_item evs q = Some q'" "distinct (queue q @ joins evs)"
  shows "queue q' = registered evs (queue q) \<and> distinct (queue q') \<and>
    bq_count q' = length (registered evs (queue q)) \<and>
    (bq_isEmpty q' \<longleftrightarrow> registered evs (queue q) = []) \<and>
    (bq_add c q' = None \<longleftrightarrow> capacity q' \<le> length (registered evs (queue q)))"
  using bq.run_members [OF assms] by (auto simp: bq_add_None_iff bq_count_def bq_isEmpty_def)

theorem registry_history_witness:
  "queue (\<lparr>queue = [1, 3], capacity = 5\<rparr>) = registered [Join 1, Join 2, Leave 2, Join 3, Leave 2] ([] :: nat list)"
proof -
  have "run_registry bq_add bq_take_item [Join 1, Join 2, Leave 2, Join 3, Leave 2]
      \<lparr>queue = [] :: nat list, capacity = 5\<rparr> = Some \<lparr>queue = [1, 3], capacity = 5\<rparr>"
    by (simp add: bq_add_def bq_take_item_eq)
  from registry_history [OF this] show ?thesis by simp
qed

text \<open>No caller of \<open>add\<close> sleeps beside a free slot: in every reachable state of the monitor the queue
  holds at most its capacity, and if callers wait there are at least as many woken callers as
  free slots, so with none woken the queue is full.\<close>

theorem no_lost_room:
  assumes "bq_reachable n s"
  shows "bq_count (bq s) \<le> n \<and>
    (waiting s \<noteq> {#} \<longrightarrow> n - bq_count (bq s) \<le> size (woken s)) \<and>
    (waiting s \<noteq> {#} \<and> woken s = {#} \<longrightarrow> bq_count (bq s) = n)"
  using bq_reachable_inv [OF assms] by (auto simp: bq_inv_def bq_count_def)

theorem no_lost_room_witness:
  "\<exists>s :: nat bqsys. bq_reachable 1 s \<and> waiting s = {#8#} \<and> bq_count (bq s) = 1"
proof -
  let ?s1 = "(bqsys_init 1)\<lparr>bq := \<lparr>queue = [7::nat], capacity = 1\<rparr>\<rparr>"
  have "bq_reachable 1 ?s1"
    by (rule bq_reachable.step [OF bq_reachable.init], rule add_now [where x = 7])
      (simp add: bqsys_init_def BlockingQueue_def bq_add_def)
  then have r: "bq_reachable 1 (?s1\<lparr>waiting := add_mset 8 (waiting ?s1)\<rparr>)"
    by (rule bq_reachable.step, intro add_wait) (simp add: bq_add_def)
  from no_lost_room [OF r] r show ?thesis
    by (intro exI [of _ "?s1\<lparr>waiting := add_mset 8 (waiting ?s1)\<rparr>"])
      (simp add: bqsys_init_def bq_count_def)
qed

end
