(* ===== verification/Listener.thy ===== *)
theory Listener
  imports Network_Client Blocking_Queue
begin

text \<open>
  Listener.cpp: its state with the queue of connected clients, starting and stopping, the accept
  loop and the completion handler of an accept, and the two handlers it gives to its clients.
  Clients are the elements of a type of identities (the shared_ptrs the queue compares). asio is
  outside the model: starting an accept appends an event to \<open>l_trace\<close>, which also records the calls
  of the listener's own handlers. The queue is used through the facts of the interpretation \<open>bq\<close>.
\<close>

section \<open>State\<close>

datatype 'c l_event = AsyncAccept | ClientConnected 'c | ClientGone 'c

record 'c listener =
  running :: bool
  l_applyCompression :: bool
  networkClients :: "'c bqueue"
  acceptFuture :: bool
  onClientConnected :: bool
  l_onClientDisconnected :: bool
  l_implShared :: bool
  listenerShared :: bool
  l_trace :: "'c l_event list"

text \<open>The queue's default capacity is the largest size_t; the Impl is held by a unique_ptr.\<close>

definition Listener :: "bool \<Rightarrow> 'c listener" where
  "Listener shared =
     \<lparr>running = False, l_applyCompression = False, networkClients = BlockingQueue size_t_max,
      acceptFuture = False, onClientConnected = False, l_onClientDisconnected = False,
      l_implShared = False, listenerShared = shared, l_trace = []\<rparr>"

definition l_emit :: "'c l_event \<Rightarrow> 'c listener \<Rightarrow> 'c listener" where
  "l_emit e l = l\<lparr>l_trace := l_trace l @ [e]\<rparr>"

section \<open>Operations\<close>

text \<open>
  \<open>startAccepting\<close> keeps \<open>running\<close> set when shared_from_this() raises. Assigning the new future waits
  for the task of the old one, which was launched with std::async: where that loop still runs, and
  \<open>running\<close> was just set, the call never returns (\<open>Diverges\<close>).
\<close>

definition startAccepting :: "'c listener \<Rightarrow> 'c listener \<times> exn option" where
  "startAccepting l =
     (let loops = acceptFuture l \<and> running l;
          l = l\<lparr>running := True\<rparr>
      in if \<not> l_implShared l then (l, Some Bad_weak_ptr)
         else (l\<lparr>acceptFuture := True\<rparr>, if loops then Some Diverges else None))"

text \<open>
  \<open>stopAccepting\<close>, also what the destructor does: the loop, if one was started, sees \<open>running\<close>
  cleared and its future becomes ready.
\<close>

definition stopAccepting :: "'c listener \<Rightarrow> 'c listener" where
  "stopAccepting l = l\<lparr>running := False\<rparr>"

definition clients :: "'c listener \<Rightarrow> 'c bqueue" where
  "clients l = networkClients l"

text \<open>
  The accept loop: \<open>n\<close> rounds (one every 10 ms) until another thread clears \<open>running\<close>. Every round
  starts one more accept on the same socket.
\<close>

fun acceptAsync :: "nat \<Rightarrow> 'c listener \<Rightarrow> 'c listener" where
  "acceptAsync 0 l = l"
| "acceptAsync (Suc n) l = (if running l then acceptAsync n (l_emit AsyncAccept l) else l)"

text \<open>
  Completion of an accept: \<open>ec\<close> is whether it failed, \<open>lingers\<close> whether the socket option could be
  set, \<open>c\<close> the identity and \<open>rtt0\<close> the uninitialised field of the new client, \<open>n\<close> the rounds of
  the loop that the handler runs at its end. A full queue makes \<open>add\<close> wait for ever here, since
  the handler is not \<open>take\<close>ing (\<open>Diverges\<close>).
\<close>

definition new_client_handlers :: "'c listener \<Rightarrow> nclient \<Rightarrow> nclient" where
  "new_client_handlers l newClient =
     (let newClient = setOnClientDisconnectedHandler True newClient;
          newClient = setOnConnectionLostHandler True newClient
      in if l_applyCompression l then setApplyCompression True newClient else newClient)"

definition accept_done ::
  "bool \<Rightarrow> bool \<Rightarrow> i32 \<Rightarrow> 'c \<Rightarrow> nat \<Rightarrow> 'c listener \<Rightarrow> ('c listener \<times> nclient option) result" where
  "accept_done ec lingers rtt0 c n l =
     (if \<not> ec
      then if \<not> lingers then Inl (Runtime_error ''Failed to set linger option: '')
           else if \<not> listenerShared l then Inl Bad_weak_ptr
           else and_then (NetworkClient_listener rtt0 True True) (\<lambda>newClient.
             let newClient = new_client_handlers l newClient
             in case bq_add c (networkClients l) of
                  None \<Rightarrow> Inl Diverges
                | Some q \<Rightarrow>
                    let l = l\<lparr>networkClients := q\<rparr>;
                        l = (if onClientConnected l then l_emit (ClientConnected c) l else l)
                    in Inr (acceptAsync n l, Some newClient))
      else Inr (acceptAsync n l, None))"

definition l_setApplyCompression :: "bool \<Rightarrow> 'c listener \<Rightarrow> 'c listener" where
  "l_setApplyCompression apply l = l\<lparr>l_applyCompression := apply\<rparr>"

definition setOnClientConnectedHandler :: "bool \<Rightarrow> 'c listener \<Rightarrow> 'c listener" where
  "setOnClientConnectedHandler handler l = l\<lparr>onClientConnected := handler\<rparr>"

text \<open>What the listener does when a client connects (nothing, and nobody calls it), disconnects or loses its
  connection.\<close>

definition NewClient_OnClientConnected :: "'c \<Rightarrow> 'c listener \<Rightarrow> 'c listener" where
  "NewClient_OnClientConnected client l = l"

definition NewClient_OnClientDisconnected :: "'c \<Rightarrow> 'c listener \<Rightarrow> 'c listener" where
  "NewClient_OnClientDisconnected client l =
     (let l = (if l_onClientDisconnected l then l_emit (ClientGone client) l else l)
      in l\<lparr>networkClients := fst (bq_take_item client (networkClients l))\<rparr>)"

definition NewClient_OnConnectionLost :: "'c \<Rightarrow> 'c listener \<Rightarrow> 'c listener" where
  "NewClient_OnConnectionLost client l =
     (let l = (if l_onClientDisconnected l then l_emit (ClientGone client) l else l)
      in l\<lparr>networkClients := fst (bq_take_item client (networkClients l))\<rparr>)"

section \<open>Everything that can happen to a listener\<close>

text \<open>
  One step: a call by the user (who can also add to the queue \<open>clients()\<close> gives out and take from
  it), rounds of a started accept loop, the completion of an accept that was started, a
  notification of a client.
\<close>

inductive l_step :: "'c listener \<Rightarrow> 'c listener \<Rightarrow> bool" where
  start: "startAccepting l = (l', r) \<Longrightarrow> l_step l l'"
| stop: "l_step l (stopAccepting l)"
| loop: "acceptFuture l \<Longrightarrow> l_step l (acceptAsync n l)"
| accept: "AsyncAccept \<in> set (l_trace l) \<Longrightarrow> accept_done ec lingers rtt0 c n l = Inr (l', nc) \<Longrightarrow> l_step l l'"
| user_add: "bq_add c (clients l) = Some q \<Longrightarrow> l_step l (l\<lparr>networkClients := q\<rparr>)"
| user_take: "bq_take_item c (clients l) = (q, b) \<Longrightarrow> l_step l (l\<lparr>networkClients := q\<rparr>)"
| compression: "l_step l (l_setApplyCompression b l)"
| handler: "l_step l (setOnClientConnectedHandler b l)"
| disconnected: "l_step l (NewClient_OnClientDisconnected c l)"
| lost: "l_step l (NewClient_OnConnectionLost c l)"

inductive l_reachable :: "'c listener \<Rightarrow> 'c listener \<Rightarrow> bool" for l0 where
  start: "l_reachable l0 l0"
| step: "l_reachable l0 l \<Longrightarrow> l_step l l' \<Longrightarrow> l_reachable l0 l'"

inductive_cases l_stepE: "l_step l l'"

section \<open>Lemmas\<close>

lemma l_emit_simps [simp]:
  "networkClients (l_emit e l) = networkClients l" "l_trace (l_emit e l) = l_trace l @ [e]"
  "running (l_emit e l) = running l" "listenerShared (l_emit e l) = listenerShared l"
  "l_implShared (l_emit e l) = l_implShared l" "acceptFuture (l_emit e l) = acceptFuture l"
  "l_onClientDisconnected (l_emit e l) = l_onClientDisconnected l"
  by (simp_all add: l_emit_def)

lemma acceptAsync_eq:
  "acceptAsync n l = (if running l then l\<lparr>l_trace := l_trace l @ replicate n AsyncAccept\<rparr> else l)"
  by (induction n arbitrary: l) (simp_all add: l_emit_def)

text \<open>The new client's constructor never returns, so no accept ever completes without an error.\<close>

lemma accept_success_raises: "accept_done False lingers rtt0 c n l \<noteq> Inr x"
  by (simp add: accept_done_def NetworkClient_listener_def nc_init_def receiveAsync_def Let_def)

lemma notified_queue [simp]:
  "networkClients (NewClient_OnClientDisconnected c l) = fst (bq_take_item c (networkClients l))"
  "networkClients (NewClient_OnConnectionLost c l) = fst (bq_take_item c (networkClients l))"
  by (simp_all add: NewClient_OnClientDisconnected_def NewClient_OnConnectionLost_def Let_def)

text \<open>A listener nobody can accept with.\<close>

definition deaf :: "'c listener \<Rightarrow> bool" where
  "deaf l \<longleftrightarrow> \<not> l_implShared l \<and> \<not> acceptFuture l \<and> l_trace l = [] \<and> \<not> l_onClientDisconnected l \<and>
     bq_count (networkClients l) \<le> size_t_max \<and> capacity (networkClients l) = size_t_max"

lemma deaf_step: "l_step l l' \<Longrightarrow> deaf l \<Longrightarrow> deaf l'"
  by (erule l_stepE)
    (auto simp: deaf_def startAccepting_def stopAccepting_def Let_def bq_add_Some_iff bq_count_def
      clients_def bq_take_item_eq length_remove1 l_setApplyCompression_def
      setOnClientConnectedHandler_def NewClient_OnClientDisconnected_def
      NewClient_OnConnectionLost_def split: if_splits)

lemma deaf_reachable: "l_reachable (Listener shared) l \<Longrightarrow> deaf l"
proof (induction rule: l_reachable.induct)
  case start
  show ?case by (simp add: deaf_def Listener_def bq_count_def BlockingQueue_def)
next
  case (step l l')
  then show ?case by (blast intro: deaf_step)
qed

text \<open>What the listener makes of the history of one of its clients: its two handlers, in order.\<close>

fun client_event :: "'c \<Rightarrow> nc_effect \<Rightarrow> 'c listener \<Rightarrow> 'c listener" where
  "client_event c ClientDisconnected l = NewClient_OnClientDisconnected c l"
| "client_event c ConnectionLost l = NewClient_OnConnectionLost c l"
| "client_event c _ l = l"

lemma client_event_queue:
  assumes "distinct (queue (networkClients l))"
  shows "networkClients (client_event c e l) = (networkClients l)\<lparr>queue :=
    (if e \<in> {ClientDisconnected, ConnectionLost}
     then filter (\<lambda>d. d \<noteq> c) (queue (networkClients l)) else queue (networkClients l))\<rparr>"
proof -
  have "remove1 c (queue (networkClients l)) = filter (\<lambda>d. d \<noteq> c) (queue (networkClients l))"
    using assms by (simp add: distinct_remove1_removeAll removeAll_filter_not_eq)
      (rule filter_cong, auto)
  then show ?thesis by (cases "(c, e, l)" rule: client_event.cases) (simp_all add: bq_take_item_eq)
qed

lemma client_events_queue:
  assumes "distinct (queue (networkClients l))"
  shows "queue (networkClients (fold (client_event c) es l)) =
    (if ClientDisconnected \<in> set es \<or> ConnectionLost \<in> set es
     then filter (\<lambda>d. d \<noteq> c) (queue (networkClients l)) else queue (networkClients l))"
  using assms
proof (induction es arbitrary: l)
  case (Cons e es)
  have "distinct (queue (networkClients (client_event c e l)))"
    using Cons.prems client_event_queue [OF Cons.prems, of c e] by simp
  from Cons.IH [OF this] client_event_queue [OF Cons.prems, of c e] show ?case by auto
qed simp

section \<open>Properties\<close>

text \<open>C33: A listener made with its constructor never accepts anybody. In every state it can reach, whatever
  its user and its clients do, no accept was ever started and none of its handlers was called;
  \<open>startAccepting\<close> raises std::bad_weak_ptr and leaves \<open>running\<close> set; and the completion of an accept
  without an error could only end in an exception or in std::terminate.\<close>

theorem listener_never_accepts:
  assumes "l_reachable (Listener shared) l"
  shows "l_trace l = [] \<and> \<not> acceptFuture l \<and> bq_count (clients l) \<le> size_t_max \<and>
    startAccepting l = (l\<lparr>running := True\<rparr>, Some Bad_weak_ptr) \<and>
    (\<exists>e. accept_done False lingers rtt0 c n l = Inl e)"
proof -
  have "\<exists>e. accept_done False lingers rtt0 c n l = Inl e"
    using accept_success_raises [of lingers rtt0 c n l] by (cases "accept_done False lingers rtt0 c n l") auto
  with deaf_reachable [OF assms] show ?thesis
    by (simp add: deaf_def startAccepting_def clients_def)
qed

theorem listener_never_accepts_witness:
  "startAccepting (stopAccepting (Listener True :: nat listener)) =
     ((stopAccepting (Listener True))\<lparr>running := True\<rparr>, Some Bad_weak_ptr)"
proof -
  have "l_reachable (Listener True) (stopAccepting (Listener True :: nat listener))"
    by (rule l_reachable.step [OF l_reachable.start l_step.stop])
  from listener_never_accepts [OF this] show ?thesis by blast
qed

text \<open>Whatever one client's history is, the listener's queue loses exactly that client, once its
  connection was lost or it said goodbye, and keeps the others in their order; further
  notifications of the same client find nothing to remove.\<close>

theorem client_leaves_once:
  assumes "distinct (queue (clients l))"
  shows "queue (clients (fold (client_event c) es l)) =
      (if ClientDisconnected \<in> set es \<or> ConnectionLost \<in> set es
       then filter (\<lambda>d. d \<noteq> c) (queue (clients l)) else queue (clients l)) \<and>
    (ConnectionLost \<in> set es \<longrightarrow>
       queue (clients (fold (client_event c) (es @ [ConnectionLost]) l)) = queue (clients (fold (client_event c) es l)))"
proof -
  have *: "distinct (queue (networkClients l))" using assms by (simp add: clients_def)
  show ?thesis
    using client_events_queue [OF *, of c es] client_events_queue [OF *, of c "es @ [ConnectionLost]"]
    by (simp add: clients_def)
qed

theorem client_leaves_once_witness:
  "queue (clients (fold (client_event 2) [HeartbeatReceived, ConnectionLost, ConnectionLost]
     ((Listener True)\<lparr>networkClients := \<lparr>queue = [1, 2, 3 :: nat], capacity = 9\<rparr>\<rparr>))) = [1, 3]"
  using client_leaves_once [of "(Listener True)\<lparr>networkClients := \<lparr>queue = [1, 2, 3 :: nat], capacity = 9\<rparr>\<rparr>" 2
      "[HeartbeatReceived, ConnectionLost, ConnectionLost]"]
  by (simp add: clients_def)

end
