(* ===== verification/Client_Departure.thy ===== *)
theory Client_Departure
  imports Listener
begin

text \<open>
  Who owns a client of a Listener, and what happens when the last owner lets go. Owners are the
  listener's queue and the user's shared_ptrs; a handler that is called with a client holds one more
  for the time of the call. The destructor runs on the thread that lets go last: it joins the
  heartbeat threads, and where nobody else holds the Impl (a pending operation of asio would), the
  buffer in it joins its worker. Joining the own thread raises out of a destructor. The theorems say
  which owners are safe.
\<close>

section \<open>State and steps\<close>

text \<open>
  \<open>present\<close>: the NetworkClient object has not been destroyed. \<open>handles\<close> counts the user's
  shared_ptrs. \<open>held\<close>, a parameter below, is whether the Impl has another owner.
\<close>

record 'c session =
  room :: "'c listener"
  peer :: nclient
  handles :: nat
  present :: bool

datatype place = OnChecker | OnBuffer | Elsewhere

definition owners :: "'c \<Rightarrow> 'c session \<Rightarrow> nat" where
  "owners c s = count_list (queue (clients (room s))) c + handles s"

text \<open>The end of a shared_ptr on a given thread.\<close>

definition let_go :: "bool \<Rightarrow> place \<Rightarrow> 'c \<Rightarrow> 'c session \<Rightarrow> 'c session result" where
  "let_go held pl c s =
     (if \<not> present s \<or> owners c s \<noteq> 0 then Inr s
      else and_then (destroy_client (if pl = OnChecker then CheckThread else OtherThread) (peer s)) (\<lambda>nc.
        if \<not> held \<and> pl = OnBuffer then Inl (Std_terminate ''exception in a destructor'')
        else Inr (s\<lparr>peer := nc, present := False\<rparr>)))"

text \<open>
  A callback of the client: what it did is \<open>nc\<close>, the listener's handlers react to the events that
  were added, then the shared_ptr of the call ends.
\<close>

definition after_callback :: "bool \<Rightarrow> place \<Rightarrow> 'c \<Rightarrow> 'c session \<Rightarrow> nclient \<Rightarrow> 'c session result" where
  "after_callback held pl c s nc =
     (let events = drop (length (trace (peer s))) (trace nc)
      in let_go held pl c (s\<lparr>room := fold (client_event c) events (room s), peer := nc\<rparr>))"

definition checker_round :: "bool \<Rightarrow> 'c \<Rightarrow> 'c session \<Rightarrow> 'c session result" where
  "checker_round held c s =
     (if stopCheckMissedHeartbeats (peer s) then Inr s
      else and_then (check_iteration (peer s)) (after_callback held OnChecker c s))"

text \<open>
  The packet handler is a lambda that captured the client's \<open>this\<close>; the completion handlers reach
  the client through \<open>owner\<close>, where there is a connection-lost handler to call.
\<close>

definition packet_arrives ::
  "int \<Rightarrow> int \<Rightarrow> 'z codec \<Rightarrow> bool \<Rightarrow> 'c \<Rightarrow> packet \<Rightarrow> 'c session \<Rightarrow> 'c session result" where
  "packet_arrives tpm now inflater held c p s =
     (if \<not> present s then Inl (Undefined_behaviour ''this of a destroyed client'')
      else and_then (on_packet tpm now inflater p (peer s)) (after_callback held OnBuffer c s))"

definition operation_fails :: "bool \<Rightarrow> 'c \<Rightarrow> 'c session \<Rightarrow> 'c session result" where
  "operation_fails held c s =
     (if \<not> present s \<and> onConnectionLost (peer s) then Inl (Undefined_behaviour ''owner was destroyed'')
      else and_then (write_done True (peer s)) (after_callback held Elsewhere c s))"

definition drop_handle :: "bool \<Rightarrow> 'c \<Rightarrow> 'c session \<Rightarrow> 'c session result" where
  "drop_handle held c s = let_go held Elsewhere c (s\<lparr>handles := handles s - 1\<rparr>)"

text \<open>
  Everything that can happen; \<open>may_drop\<close> is the rule the user follows for giving up a handle.
  Calls need a handle; a handle can be copied or come from the listener's queue.
\<close>

inductive d_step ::
  "int \<Rightarrow> 'z codec \<Rightarrow> 'y codec \<Rightarrow> bool \<Rightarrow> ('c \<Rightarrow> 'c session \<Rightarrow> bool) \<Rightarrow> 'c \<Rightarrow> 'c session \<Rightarrow>
   'c session result \<Rightarrow> bool" for tpm deflater inflater held may_drop c where
  round: "d_step tpm deflater inflater held may_drop c s (checker_round held c s)"
| packet: "d_step tpm deflater inflater held may_drop c s (packet_arrives tpm now inflater held c p s)"
| failure: "d_step tpm deflater inflater held may_drop c s (operation_fails held c s)"
| send: "0 < handles s \<Longrightarrow> sendAsync deflater d (peer s) = Inr nc \<Longrightarrow>
     d_step tpm deflater inflater held may_drop c s (Inr (s\<lparr>peer := nc\<rparr>))"
| disconnect: "0 < handles s \<Longrightarrow> disconnectAsync tps deflater now OtherThread sd cl msg (peer s) = Inr nc \<Longrightarrow>
     d_step tpm deflater inflater held may_drop c s (Inr (s\<lparr>peer := nc\<rparr>))"
| take: "0 < owners c s \<Longrightarrow> d_step tpm deflater inflater held may_drop c s (Inr (s\<lparr>handles := handles s + 1\<rparr>))"
| give: "0 < handles s \<Longrightarrow> may_drop c s \<Longrightarrow>
     d_step tpm deflater inflater held may_drop c s (drop_handle held c s)"

inductive d_reachable ::
  "int \<Rightarrow> 'z codec \<Rightarrow> 'y codec \<Rightarrow> bool \<Rightarrow> ('c \<Rightarrow> 'c session \<Rightarrow> bool) \<Rightarrow> 'c \<Rightarrow> 'c session \<Rightarrow>
   'c session \<Rightarrow> bool" for tpm deflater inflater held may_drop c s0 where
  start: "d_reachable tpm deflater inflater held may_drop c s0 s0"
| step: "d_reachable tpm deflater inflater held may_drop c s0 s \<Longrightarrow>
     d_step tpm deflater inflater held may_drop c s (Inr t) \<Longrightarrow>
     d_reachable tpm deflater inflater held may_drop c s0 t"

text \<open>The checker's rounds without a heartbeat in between.\<close>

fun silent_rounds :: "nat \<Rightarrow> bool \<Rightarrow> 'c \<Rightarrow> 'c session \<Rightarrow> 'c session result" where
  "silent_rounds 0 held c s = Inr s"
| "silent_rounds (Suc n) held c s = and_then (checker_round held c s) (silent_rounds n held c)"

text \<open>A careful user gives up the last handle only when the listener has let go and no thread is left.\<close>

definition careful :: "'c \<Rightarrow> 'c session \<Rightarrow> bool" where
  "careful c s \<longleftrightarrow> handles s = 1 \<longrightarrow> c \<notin> set (queue (clients (room s))) \<and>
     \<not> heartbeatCheckThread (peer s) \<and> \<not> sendHeartbeatsThread (peer s)"

section \<open>Lemmas\<close>

lemma let_go_kept: "0 < handles s \<Longrightarrow> let_go held pl c s = Inr s"
  by (simp add: let_go_def owners_def)

lemma owners_none: "owners c s = 0 \<longleftrightarrow> c \<notin> set (queue (clients (room s))) \<and> handles s = 0"
  by (simp add: owners_def count_list_0_iff)

inductive_cases d_stepE: "d_step tpm deflater inflater held may_drop c s r"

text \<open>Which operations keep whether the client can be reached, and what they never raise.\<close>

definition reachable_client :: "nclient \<Rightarrow> bool" where
  "reachable_client nc \<longleftrightarrow> clientShared nc \<and> ownerSet nc"

definition no_death :: "exn \<Rightarrow> bool" where
  "no_death e \<longleftrightarrow> e \<noteq> Bad_weak_ptr \<and> (\<forall>m. e \<noteq> Std_terminate m)"

lemma check_survives:
  assumes "reachable_client nc"
  shows "check_iteration nc = Inr nc' \<Longrightarrow> reachable_client nc'" "check_iteration nc = Inl e \<Longrightarrow> no_death e"
  using assms
  by (auto simp: check_iteration_def reachable_client_def fire_lost_def Let_def split: if_splits)

lemma write_survives:
  assumes "reachable_client nc"
  shows "write_done b nc = Inr nc' \<Longrightarrow> reachable_client nc'" "write_done b nc = Inl e \<Longrightarrow> no_death e"
  using assms
  by (auto simp: write_done_def reachable_client_def fire_lost_def split: if_splits)

lemma heartbeat_survives:
  assumes "reachable_client nc"
  shows "on_heartbeat tpm now p nc = Inr nc' \<Longrightarrow> reachable_client nc'"
    "on_heartbeat tpm now p nc = Inl e \<Longrightarrow> no_death e"
  using assms
  by (auto simp: on_heartbeat_def and_then_Inl_iff and_then_Inr_iff hb_byteArrayToObject_def checked_i64_def
      fire_def reachable_client_def no_death_def Let_def split: if_splits)

lemma decompress_survives: "decompressData inflater d = Inl e \<Longrightarrow> no_death e"
  by (auto simp: decompressData_def no_death_def split: if_splits option.splits prod.splits)

lemma packet_survives:
  assumes "reachable_client nc"
  shows "on_packet tpm now inflater p nc = Inr nc' \<Longrightarrow> reachable_client nc'"
    "on_packet tpm now inflater p nc = Inl e \<Longrightarrow> no_death e"
  using assms heartbeat_survives [OF assms, of tpm now p] decompress_survives [of inflater "getData p" e]
  by (auto simp: on_packet_def and_then_Inl_iff and_then_Inr_iff Packet_TCP_Inl_iff
      fire_def reachable_client_def no_death_def split: if_splits)

lemma after_callback_kept:
  "0 < handles s \<Longrightarrow> after_callback held pl c s nc =
     Inr (s\<lparr>room := fold (client_event c) (drop (length (trace (peer s))) (trace nc)) (room s), peer := nc\<rparr>)"
  by (simp add: after_callback_def let_go_kept Let_def)

lemma destroy_idle:
  assumes "\<not> heartbeatCheckThread nc" "\<not> sendHeartbeatsThread nc"
  shows "\<exists>nc'. destroy_client th nc = Inr nc' \<and> \<not> heartbeatCheckThread nc' \<and> \<not> sendHeartbeatsThread nc'"
  using assms by (simp add: destroy_client_def stop_check_def stop_send_def Let_def)

lemma destroy_outside:
  assumes "\<not> stopCheckMissedHeartbeats nc" "\<not> stopSendingHeartbeats nc"
  shows "destroy_client OtherThread nc = Inr (nc\<lparr>stopCheckMissedHeartbeats := True, heartbeatCheckThread := False,
    stopSendingHeartbeats := True, sendHeartbeatsThread := False\<rparr>)"
  using assms by (cases nc) (simp add: destroy_client_def stop_check_def stop_send_def Let_def)

text \<open>The invariant of a careful user.\<close>

definition cared_for :: "'c session \<Rightarrow> bool" where
  "cared_for s \<longleftrightarrow> (present s \<longrightarrow> 0 < handles s \<and> reachable_client (peer s))"

definition gone_cleanly :: "'c \<Rightarrow> 'c session \<Rightarrow> bool" where
  "gone_cleanly c s \<longleftrightarrow> handles s = 0 \<and> c \<notin> set (queue (clients (room s))) \<and>
     \<not> heartbeatCheckThread (peer s) \<and> \<not> sendHeartbeatsThread (peer s)"

lemma let_go_absent: "\<not> present s \<Longrightarrow> let_go held pl c s = Inr s"
  by (simp add: let_go_def)

lemma absent_step:
  "d_step tpm deflater inflater held may_drop c s r \<Longrightarrow> r = Inr t \<Longrightarrow> \<not> present s \<Longrightarrow> \<not> present t"
  by (cases rule: d_step.cases, assumption)
    (auto simp: checker_round_def packet_arrives_def operation_fails_def drop_handle_def
      after_callback_def and_then_Inr_iff let_go_absent Let_def split: if_splits)

lemma stop_threads_owner: "ownerSet (stop_threads th nc) = ownerSet nc"
  by (simp add: stop_threads_def stop_check_def stop_send_def Let_def)

lemma disconnect_owner:
  "disconnectAsync tps deflater now th sd cl msg nc = Inr nc' \<Longrightarrow> ownerSet nc' = ownerSet nc"
  by (auto simp: disconnectAsync_def and_then_Inr_iff sendAsync_Inr_iff stop_threads_owner Let_def
      split: if_splits sum.splits)

lemma careful_drop:
  assumes "0 < handles s" "careful c s" "present s" "reachable_client (peer s)"
  shows "\<exists>t. drop_handle held c s = Inr t \<and> cared_for t \<and> (\<not> present t \<longrightarrow> gone_cleanly c t)"
proof (cases "handles s = 1")
  case True
  with assms have idle: "c \<notin> set (queue (clients (room s)))" "\<not> heartbeatCheckThread (peer s)"
    "\<not> sendHeartbeatsThread (peer s)" by (simp_all add: careful_def)
  from destroy_idle [OF idle(2,3), of OtherThread] obtain nc where
    "destroy_client OtherThread (peer s) = Inr nc" "\<not> heartbeatCheckThread nc" "\<not> sendHeartbeatsThread nc" by blast
  with True idle assms(3) show ?thesis
    by (simp add: drop_handle_def let_go_def owners_def cared_for_def gone_cleanly_def)
next
  case False
  with assms show ?thesis by (simp add: drop_handle_def let_go_kept cared_for_def)
qed

lemma careful_step:
  assumes "d_step tpm deflater inflater held careful c s r" "cared_for s" "present s"
  shows "case r of Inl e \<Rightarrow> no_death e | Inr t \<Rightarrow> cared_for t \<and> (\<not> present t \<longrightarrow> gone_cleanly c t)"
proof -
  from assms(2,3) have ok: "0 < handles s" "reachable_client (peer s)" by (simp_all add: cared_for_def)
  from assms(1) show ?thesis
  proof (cases rule: d_step.cases)
    case round
    with ok assms(3) check_survives [OF ok(2)] show ?thesis
      by (cases "check_iteration (peer s)") (simp_all add: checker_round_def after_callback_kept cared_for_def)
  next
    case (packet now p)
    with ok assms(3) packet_survives [OF ok(2), of tpm now inflater p] show ?thesis
      by (cases "on_packet tpm now inflater p (peer s)")
        (simp_all add: packet_arrives_def after_callback_kept cared_for_def)
  next
    case failure
    with ok assms(3) write_survives [OF ok(2), of True] show ?thesis
      by (cases "write_done True (peer s)") (simp_all add: operation_fails_def after_callback_kept cared_for_def)
  next
    case (send d nc)
    with ok assms(3) show ?thesis by (auto simp: cared_for_def sendAsync_Inr_iff reachable_client_def)
  next
    case (disconnect tps now sd cl msg nc)
    from evolves_disconnect [OF disconnect(3)] disconnect_owner [OF disconnect(3)] disconnect ok assms(3) show ?thesis
      by (simp add: cared_for_def reachable_client_def evolves_def)
  next
    case take
    with ok assms(3) show ?thesis by (simp add: cared_for_def)
  next
    case give
    with careful_drop [OF ok(1) _ assms(3) ok(2), of c held] show ?thesis by auto
  qed
qed

lemma careful_reachable:
  assumes "d_reachable tpm deflater inflater held careful c s0 s" "cared_for s0" "present s0"
  shows "cared_for s \<and> (\<not> present s \<longrightarrow>
    (\<exists>u t. cared_for u \<and> present u \<and> \<not> present t \<and> gone_cleanly c t \<and>
      d_step tpm deflater inflater held careful c u (Inr t) \<and>
      d_reachable tpm deflater inflater held careful c s0 u))"
  using assms
proof (induction rule: d_reachable.induct)
  case (step s t)
  show ?case
  proof (cases "present s")
    case True
    with step careful_step [OF step.hyps(2)] show ?thesis by fastforce
  next
    case False
    with step absent_step [OF step.hyps(2)] show ?thesis by (auto simp: cared_for_def)
  qed
qed simp

text \<open>A client nobody but the listener owns, watched in silence.\<close>

definition watched :: "nat \<Rightarrow> 'c session \<Rightarrow> bool" where
  "watched k s \<longleftrightarrow> missedHeartbeats (peer s) = word_of_nat k \<and> \<not> stopCheckMissedHeartbeats (peer s) \<and>
     heartbeatCheckThread (peer s) \<and> reachable_client (peer s) \<and> onConnectionLost (peer s) \<and> present s \<and>
     distinct (queue (clients (room s)))"

lemma watched_round:
  assumes "watched k s" "Suc k < 2 ^ 31"
  shows "k < 6 \<Longrightarrow> 0 < owners c s \<Longrightarrow> checker_round held c s =
      Inr (s\<lparr>peer := (peer s)\<lparr>missedHeartbeats := word_of_nat (Suc k)\<rparr>\<rparr>)"
    "6 \<le> k \<Longrightarrow> checker_round held c s = let_go held OnChecker c (s\<lparr>room := NewClient_OnConnectionLost c (room s),
      peer := emit ConnectionLost ((peer s)\<lparr>missedHeartbeats := word_of_nat (Suc k), isAlive := False\<rparr>)\<rparr>)"
  using assms check_iteration_eq [of "peer s" k]
  by (simp_all add: watched_def reachable_client_def checker_round_def after_callback_def let_go_def owners_def
      Let_def del: of_nat_Suc)

lemma lost_queue:
  assumes "distinct (queue (clients l))"
  shows "queue (clients (NewClient_OnConnectionLost c l)) = filter (\<lambda>d. d \<noteq> c) (queue (clients l))"
  using client_event_queue [of l c ConnectionLost] assms by (simp add: clients_def)

lemma silent_rounds_kept:
  "watched k s \<Longrightarrow> k + n < 2 ^ 31 \<Longrightarrow> 0 < handles s \<Longrightarrow>
    \<exists>t. silent_rounds n held c s = Inr t \<and> present t \<and> handles t = handles s \<and> watched (k + n) t \<and>
      queue (clients (room t)) = (if 6 < k + n \<and> 0 < n then filter (\<lambda>d. d \<noteq> c) (queue (clients (room s)))
        else queue (clients (room s)))"
proof (induction n arbitrary: k s)
  case 0
  then show ?case by (simp add: watched_def)
next
  case (Suc n)
  have "\<exists>t. checker_round held c s = Inr t \<and> handles t = handles s \<and> watched (Suc k) t \<and>
    queue (clients (room t)) = (if 6 < Suc k then filter (\<lambda>d. d \<noteq> c) (queue (clients (room s)))
      else queue (clients (room s)))"
  proof (cases "k < 6")
    case True
    with watched_round(1) [OF Suc.prems(1), of c held] Suc.prems show ?thesis
      by (simp add: watched_def owners_def reachable_client_def del: of_nat_Suc)
  next
    case False
    with watched_round(2) [OF Suc.prems(1), of held c] Suc.prems lost_queue [of "room s" c] show ?thesis
      by (simp add: watched_def let_go_kept reachable_client_def emit_def del: of_nat_Suc)
  qed
  then obtain t where t: "checker_round held c s = Inr t" "handles t = handles s" "watched (Suc k) t"
    "queue (clients (room t)) = (if 6 < Suc k then filter (\<lambda>d. d \<noteq> c) (queue (clients (room s)))
      else queue (clients (room s)))" by blast
  from Suc.IH [OF t(3)] Suc.prems t show ?case by (auto simp: filter_filter split: if_splits)
qed

lemma silent_rounds_alone:
  assumes "handles s = 0" "c \<in> set (queue (clients (room s)))"
  shows "watched k s \<Longrightarrow> k + n < 2 ^ 31 \<Longrightarrow> silent_rounds n held c s =
    (if k + n \<le> 6 \<or> n = 0 then Inr (s\<lparr>peer := (peer s)\<lparr>missedHeartbeats := word_of_nat (k + n)\<rparr>\<rparr>)
     else Inl (Std_terminate ''exception in a destructor''))"
  using assms
proof (induction n arbitrary: k s)
  case 0
  then show ?case by (cases s) (simp add: watched_def)
next
  case (Suc n)
  show ?case
  proof (cases "k < 6")
    case True
    let ?s = "s\<lparr>peer := (peer s)\<lparr>missedHeartbeats := word_of_nat (Suc k)\<rparr>\<rparr>"
    have "owners c s \<noteq> 0" using Suc.prems(4) by (simp add: owners_none)
    then have "0 < owners c s" by simp
    with watched_round(1) [OF Suc.prems(1), of c held] True Suc.prems have "checker_round held c s = Inr ?s" by simp
    moreover have "watched (Suc k) ?s" using Suc.prems(1) by (simp add: watched_def reachable_client_def)
    ultimately show ?thesis using Suc.IH [of "Suc k" ?s] Suc.prems True by simp
  next
    case False
    let ?s = "s\<lparr>room := NewClient_OnConnectionLost c (room s),
      peer := emit ConnectionLost ((peer s)\<lparr>missedHeartbeats := word_of_nat (Suc k), isAlive := False\<rparr>)\<rparr>"
    have "owners c ?s = 0"
      using Suc.prems lost_queue [of "room s" c] by (simp add: owners_none watched_def)
    then have "let_go held OnChecker c ?s = Inl (Std_terminate ''exception in a destructor'')"
      using Suc.prems(1)
      by (simp add: let_go_def watched_def destroy_client_def stop_check_def emit_def Let_def)
    with watched_round(2) [OF Suc.prems(1), of held c] False Suc.prems show ?thesis by simp
  qed
qed

section \<open>Properties\<close>


definition sample_session :: "nat \<Rightarrow> nat session" where
  "sample_session n = \<lparr>room = (Listener True)\<lparr>networkClients := \<lparr>queue = [1, 2, 3], capacity = 9\<rparr>\<rparr>,
     peer = (nc_init 0 True True)\<lparr>ownerSet := True, onConnectionLost := True, onClientDisconnected := True,
       heartbeatCheckThread := True, sendHeartbeatsThread := True\<rparr>, handles = n, present = True\<rparr>"

definition sample_goodbye :: packet where
  "sample_goodbye = \<lparr>p_id = parlo_id CGoodbye, p_isCompressed = 0, p_isReliable = 0, p_length = 5,
     p_data = [0], p_isUDP = False\<rparr>"

lemma sample_session_simps:
  "watched 0 (sample_session n)" "handles (sample_session n) = n" "present (sample_session n)"
  "queue (clients (room (sample_session n))) = [1, 2, 3]" "clientShared (peer (sample_session n))"
  "ownerSet (peer (sample_session n))"
  by (simp_all add: sample_session_def watched_def reachable_client_def nc_init_def clients_def)


text \<open>C21: A silent client and its owners, for n rounds of the watchdog. While the user holds a handle, the
  listener's queue loses exactly that client at the seventh round and the client lives on. Where
  the queue is the only owner, the first six rounds change the counter only, and the seventh ends
  the process: the handler takes the client out of the queue, the destructor runs on the watchdog's
  thread and joins that thread.\<close>

theorem silent_client_departs:
  assumes "missedHeartbeats (peer s) = 0" "\<not> stopCheckMissedHeartbeats (peer s)" "heartbeatCheckThread (peer s)"
    and "clientShared (peer s)" "ownerSet (peer s)" "onConnectionLost (peer s)" "present s"
    and "distinct (queue (clients (room s)))" "c \<in> set (queue (clients (room s)))" "n < 2 ^ 31"
  shows "if handles s = 0
    then silent_rounds n held c s =
      (if n \<le> 6 then Inr (s\<lparr>peer := (peer s)\<lparr>missedHeartbeats := word_of_nat n\<rparr>\<rparr>)
       else Inl (Std_terminate ''exception in a destructor''))
    else \<exists>t. silent_rounds n held c s = Inr t \<and> present t \<and> handles t = handles s \<and>
      queue (clients (room t)) = (if 6 < n then filter (\<lambda>d. d \<noteq> c) (queue (clients (room s)))
        else queue (clients (room s)))"
proof -
  have w: "watched 0 s" using assms(1-8) by (simp add: watched_def reachable_client_def)
  show ?thesis
    using silent_rounds_alone [OF _ assms(9) w, of n held] silent_rounds_kept [OF w, of n held c] assms(10)
    by auto
qed

theorem silent_client_departs_witness:
  "silent_rounds 7 False 2 (sample_session 0) = Inl (Std_terminate ''exception in a destructor'') \<and>
   (\<exists>t. silent_rounds 7 False 2 (sample_session 1) = Inr t \<and> queue (clients (room t)) = [1, 3])"
  using silent_client_departs [of "sample_session 0" 2 7 False] silent_client_departs [of "sample_session 1" 2 7 False]
    sample_session_simps [of 0] sample_session_simps [of 1]
  by (auto simp: watched_def reachable_client_def)

text \<open>C27: A client that says goodbye, where only the listener's queue owns it. The worker that handles the
  goodbye destroys the client and joins both heartbeat threads. If nothing else holds the Impl, the
  buffer's destructor then joins the worker it runs on, which ends the process; if a pending
  operation holds it, the worker goes on, and the next packet is handled through the pointer of the
  destroyed client. With a handle of the user, the listener just loses the client.\<close>

theorem goodbye_departs:
  assumes "getID p = parlo_id CGoodbye" "onClientDisconnected (peer s)" "clientShared (peer s)" "present s"
    and "\<not> stopCheckMissedHeartbeats (peer s)" "\<not> stopSendingHeartbeats (peer s)"
    and "distinct (queue (clients (room s)))"
  shows "\<exists>nc. on_packet tpm now inflater p (peer s) = Inr nc \<and>
    packet_arrives tpm now inflater held c p s =
     (let t = s\<lparr>room := NewClient_OnClientDisconnected c (room s), peer := nc\<rparr>
      in if handles s \<noteq> 0 then Inr t
         else if held then Inr (t\<lparr>peer := nc\<lparr>stopCheckMissedHeartbeats := True, heartbeatCheckThread := False,
           stopSendingHeartbeats := True, sendHeartbeatsThread := False\<rparr>, present := False\<rparr>)
         else Inl (Std_terminate ''exception in a destructor'')) \<and>
    queue (clients (NewClient_OnClientDisconnected c (room s))) =
      filter (\<lambda>d. d \<noteq> c) (queue (clients (room s))) \<and>
    packet_arrives tpm now inflater held c p (s\<lparr>present := False\<rparr>) =
      Inl (Undefined_behaviour ''this of a destroyed client'')"
proof -
  let ?nc = "emit ClientDisconnected (peer s)"
  let ?t = "s\<lparr>room := NewClient_OnClientDisconnected c (room s), peer := ?nc\<rparr>"
  have nc: "on_packet tpm now inflater p (peer s) = Inr ?nc"
    using assms(1-3) by (simp add: on_packet_def fire_def)
  have q: "queue (clients (NewClient_OnClientDisconnected c (room s))) = filter (\<lambda>d. d \<noteq> c) (queue (clients (room s)))"
    using client_event_queue [of "room s" c ClientDisconnected] assms(7) by (simp add: clients_def)
  have "destroy_client OtherThread ?nc = Inr (?nc\<lparr>stopCheckMissedHeartbeats := True, heartbeatCheckThread := False,
      stopSendingHeartbeats := True, sendHeartbeatsThread := False\<rparr>)"
    using destroy_outside [of ?nc] assms(5,6) by simp
  moreover have "packet_arrives tpm now inflater held c p s = let_go held OnBuffer c ?t"
    using nc assms(4) by (simp add: packet_arrives_def after_callback_def Let_def)
  moreover have "owners c ?t = handles s" using q by (simp add: owners_def count_list_0_iff)
  ultimately show ?thesis
    using nc q assms(4) by (simp add: let_go_def Let_def) (simp add: packet_arrives_def)
qed

theorem goodbye_departs_witness:
  "packet_arrives 1 0 store_codec False 2 sample_goodbye (sample_session 0) =
     Inl (Std_terminate ''exception in a destructor'')"
  using goodbye_departs [of sample_goodbye "sample_session 0" 1 0 store_codec False 2]
  by (simp add: sample_session_def sample_goodbye_def nc_init_def clients_def getID_def)

end
