(* ===== verification/Sockets.thy ===== *)
theory Sockets
  imports Network_Client
begin

text \<open>
  Socket.cpp and Socket.h: the wrapper around an asio socket. asio is outside the model: whether an
  operation of it fails is an argument; what it documents is used, that a close() that fails closes
  all the same and that a socket that was moved from is closed. The second part is about the one
  Socket object of a Listener, which the callback of an accept passes on and every client refers to.
\<close>

section \<open>The wrapper\<close>

record sock =
  s_open :: bool
  s_linger :: "(bool \<times> 32 word) option"
  s_sends :: bool
  s_receives :: bool

text \<open>A socket made from an io_context or an executor.\<close>

definition Socket :: sock where
  "Socket = \<lparr>s_open = False, s_linger = None, s_sends = False, s_receives = False\<rparr>"

text \<open>Moving, and move assignment with its test for self-assignment; the results are target and source.\<close>

definition Socket_move :: "sock \<Rightarrow> sock \<times> sock" where
  "Socket_move other = (other, Socket)"

definition Socket_assign :: "bool \<Rightarrow> sock \<Rightarrow> sock \<Rightarrow> sock \<times> sock" where
  "Socket_assign same this other = (if \<not> same then Socket_move other else (this, other))"

text \<open>
  A connection that is accepted opens the socket; connecting opens it too, also when it fails. The
  callback gets the error code.
\<close>

definition Socket_connected :: "bool \<Rightarrow> sock \<Rightarrow> sock" where
  "Socket_connected ec s = (if ec then s else s\<lparr>s_open := True, s_sends := True, s_receives := True\<rparr>)"

definition Socket_acceptAsync :: "(bool \<Rightarrow> sock \<Rightarrow> 'r) \<Rightarrow> bool \<Rightarrow> sock \<Rightarrow> 'r" where
  "Socket_acceptAsync callback ec s = callback ec (Socket_connected ec s)"

definition Socket_connectAsync :: "(bool \<Rightarrow> 'r) \<Rightarrow> bool \<Rightarrow> sock \<Rightarrow> 'r \<times> sock" where
  "Socket_connectAsync callback ec s = (callback ec, Socket_connected ec (s\<lparr>s_open := True\<rparr>))"

text \<open>The timeout in seconds is cast to an unsigned int of 32 bits.\<close>

definition setLinger :: "bool \<Rightarrow> bool \<Rightarrow> int \<Rightarrow> sock \<Rightarrow> sock result" where
  "setLinger ec enable secs s =
     (if ec then Inl (Runtime_error ''Failed to set linger option: '')
      else Inr (s\<lparr>s_linger := Some (enable, word_of_int secs)\<rparr>))"

definition Socket_shutdown :: "bool \<Rightarrow> sock \<Rightarrow> sock result" where
  "Socket_shutdown ec s = (if ec then Inl System_error else Inr (s\<lparr>s_sends := False, s_receives := False\<rparr>))"

definition shutdownSend :: "bool \<Rightarrow> sock \<Rightarrow> sock result" where
  "shutdownSend ec s = (if ec then Inl System_error else Inr (s\<lparr>s_sends := False\<rparr>))"

definition shutdownReceive :: "bool \<Rightarrow> sock \<Rightarrow> sock result" where
  "shutdownReceive ec s = (if ec then Inl System_error else Inr (s\<lparr>s_receives := False\<rparr>))"

text \<open>The state after a close, and whether it raised.\<close>

definition Socket_close :: "bool \<Rightarrow> sock \<Rightarrow> sock \<times> exn option" where
  "Socket_close ec s =
     (s\<lparr>s_open := False, s_sends := False, s_receives := False\<rparr>, if ec then Some System_error else None)"

definition isOpen :: "sock \<Rightarrow> bool" where
  "isOpen s = s_open s"

section \<open>Clients that refer to one socket\<close>

text \<open>
  A client's member \<open>socket\<close> is a reference. \<open>on_socket\<close> runs an operation of a client on the object
  it refers to: the client sees whether that object is open, and what the operation closes is
  closed for everybody who refers to it.
\<close>

definition on_socket :: "(nclient \<Rightarrow> nclient result) \<Rightarrow> sock \<times> nclient \<Rightarrow> (sock \<times> nclient) result" where
  "on_socket operation sn = (case sn of (s, nc) \<Rightarrow>
     and_then (operation (nc\<lparr>socketOpen := isOpen s\<rparr>)) (\<lambda>nc'.
       Inr (if isOpen s \<and> \<not> socketOpen nc' then fst (Socket_close False s) else s, nc')))"

text \<open>What the accept's callback does to the listener's socket before it makes the client.\<close>

definition accepted_socket :: "bool \<Rightarrow> sock \<Rightarrow> sock result" where
  "accepted_socket lingers s =
     Socket_acceptAsync (\<lambda>ec acceptedSocket. setLinger (\<not> lingers) True 5 acceptedSocket) False s"

section \<open>Lemmas\<close>

lemma linger_value: "int (unat (word_of_int secs :: 32 word)) = secs mod 2 ^ 32"
  by (simp add: uint_word_of_int)

lemma linger_exact:
  "int (unat (word_of_int secs :: 32 word)) = secs \<longleftrightarrow> 0 \<le> secs \<and> secs < 2 ^ 32"
proof -
  have "secs mod 2 ^ 32 = secs \<longleftrightarrow> 0 \<le> secs \<and> secs < 2 ^ 32" by (rule zmod_trivial_iff [THEN trans]) auto
  then show ?thesis by (simp only: linger_value)
qed

lemma accepted_socket_eq:
  "accepted_socket lingers s =
     (if lingers then Inr (s\<lparr>s_open := True, s_sends := True, s_receives := True, s_linger := Some (True, 5)\<rparr>)
      else Inl (Runtime_error ''Failed to set linger option: ''))"
  by (cases s) (simp add: accepted_socket_def Socket_acceptAsync_def setLinger_def Socket_connected_def)

lemma disconnect_not_open:
  "\<not> socketOpen nc \<or> \<not> connected nc \<Longrightarrow> disconnectAsync tps deflater now th sd cl msg nc = Inr nc"
  by (auto simp: disconnectAsync_def)

lemma disconnect_closes:
  assumes "connected nc" "socketOpen nc"
    and "disconnectAsync tps deflater now th sd cl msg nc = Inr nc'" "\<not> connected nc'"
  shows "\<not> socketOpen nc'"
  using assms
  by (auto simp: disconnectAsync_def stop_threads_def stop_check_def stop_send_def and_then_Inr_iff
      sendAsync_Inr_iff Let_def split: if_splits sum.splits)

section \<open>Properties\<close>



text \<open>What a socket does with its linger time and with its states. \<open>setLinger\<close> raises and changes nothing
  when asio refuses the option; otherwise the timeout is kept exactly if it lies between 0 and 2^32
  - 1 seconds and wraps otherwise, and the 5 seconds of an accepted connection are kept. A closed
  socket, also one whose close() raised, and one that was moved from are not open; assigning a
  socket to itself leaves it alone.\<close>

theorem socket_states:
  "(case setLinger ec enable secs s of
      Inl e \<Rightarrow> ec \<and> e = Runtime_error ''Failed to set linger option: ''
    | Inr t \<Rightarrow> \<not> ec \<and> isOpen t = isOpen s \<and>
        (\<exists>v. s_linger t = Some (enable, v) \<and> int (unat v) = secs mod 2 ^ 32 \<and>
          (int (unat v) = secs \<longleftrightarrow> 0 \<le> secs \<and> secs < 2 ^ 32))) \<and>
   (case accepted_socket lingers s of Inl e \<Rightarrow> \<not> lingers
    | Inr t \<Rightarrow> lingers \<and> isOpen t \<and> s_linger t = Some (True, 5)) \<and>
   \<not> isOpen (fst (Socket_close ec s)) \<and> (snd (Socket_close ec s) = None \<longleftrightarrow> \<not> ec) \<and>
   Socket_assign False s other = (other, Socket) \<and> \<not> isOpen Socket \<and> Socket_assign True s s = (s, s)"
proof (intro conjI)
  show "case setLinger ec enable secs s of
      Inl e \<Rightarrow> ec \<and> e = Runtime_error ''Failed to set linger option: ''
    | Inr t \<Rightarrow> \<not> ec \<and> isOpen t = isOpen s \<and>
        (\<exists>v. s_linger t = Some (enable, v) \<and> int (unat v) = secs mod 2 ^ 32 \<and>
          (int (unat v) = secs \<longleftrightarrow> 0 \<le> secs \<and> secs < 2 ^ 32))"
    using linger_value [of secs] linger_exact [of secs] by (auto simp: setLinger_def isOpen_def)
qed (simp_all add: accepted_socket_eq isOpen_def Socket_close_def Socket_assign_def Socket_move_def Socket_def)

end
