(* ===== verification/Handler_Setup.thy ===== *)
theory Handler_Setup
  imports Processing_Buffer "HOL-Library.Sublist"
begin

text \<open>
  \<open>setOnPacketProcessedHandler\<close> of ProcessingBuffer.cpp. The worker runs from the constructor on, so
  packets can be complete before a handler is set; the handler a packet gets is the one that is set
  when the worker processes it.
\<close>

section \<open>The buffer with its handler\<close>

record 'u hbuffer =
  h_buf :: procbuf
  onPacketProcessedHandler :: "(packet \<Rightarrow> 'u \<Rightarrow> 'u result) option"

definition hbuffer_init :: "'u hbuffer" where
  "hbuffer_init = \<lparr>h_buf = pb_init, onPacketProcessedHandler = None\<rparr>"

text \<open>An empty std::function is \<open>None\<close>.\<close>

definition setOnPacketProcessedHandler ::
  "(packet \<Rightarrow> 'u \<Rightarrow> 'u result) option \<Rightarrow> 'u hbuffer \<Rightarrow> 'u hbuffer" where
  "setOnPacketProcessedHandler callback h = h\<lparr>onPacketProcessedHandler := callback\<rparr>"

datatype 'u h_event = Plain feed_event | SetHandler "(packet \<Rightarrow> 'u \<Rightarrow> 'u result) option"

fun h_step :: "'u h_event \<Rightarrow> 'u hbuffer \<times> 'u \<Rightarrow> ('u hbuffer \<times> 'u) result" where
  "h_step (SetHandler callback) (h, u) = Inr (setOnPacketProcessedHandler callback h, u)"
| "h_step (Plain e) (h, u) =
     and_then (run_events pb_feed (worker_turn (onPacketProcessedHandler h)) [e] (h_buf h, u))
       (\<lambda>(b, u). Inr (h\<lparr>h_buf := b\<rparr>, u))"

primrec h_run :: "'u h_event list \<Rightarrow> 'u hbuffer \<times> 'u \<Rightarrow> ('u hbuffer \<times> 'u) result" where
  "h_run [] hu = Inr hu"
| "h_run (e # es) hu = and_then (h_step e hu) (h_run es)"

section \<open>Lemmas\<close>

lemma h_run_append: "h_run (es @ fs) hu = and_then (h_run es hu) (h_run fs)"
  by (induction es arbitrary: hu) (simp_all add: and_then_assoc cong: and_then_cong)

text \<open>While the handler stays the same the buffer runs as before.\<close>

lemma h_run_plain:
  "h_run (map Plain es) (h, u) =
     and_then (run_events pb_feed (worker_turn (onPacketProcessedHandler h)) es (h_buf h, u))
       (\<lambda>(b, u). Inr (h\<lparr>h_buf := b\<rparr>, u))"
proof (induction es arbitrary: h u)
  case Nil
  show ?case by (cases h) simp
next
  case (Cons e es)
  let ?r = "run_events pb_feed (worker_turn (onPacketProcessedHandler h)) [e] (h_buf h, u)"
  have run: "run_events pb_feed (worker_turn (onPacketProcessedHandler h)) (e # es) (h_buf h, u) =
      and_then ?r (run_events pb_feed (worker_turn (onPacketProcessedHandler h)) es)"
    using run_events_append [of pb_feed "worker_turn (onPacketProcessedHandler h)" "[e]" es] by simp
  show ?case
  proof (cases ?r)
    case (Inl x)
    with run show ?thesis by simp
  next
    case (Inr r)
    obtain b v where "r = (b, v)" by (cases r) auto
    with Inr run Cons.IH [of "h\<lparr>h_buf := b\<rparr>" v] show ?thesis by simp
  qed
qed

lemma deliver_nothing:
  "\<forall>p \<in> set ps. sendable p \<Longrightarrow> deliver_all (deliver_frame None) (map frame_of ps) u = Inr u"
  by (induction ps) (simp_all add: frame_of_def deliver_frame_def call_handler_def Packet_of_frame)

text \<open>Before the handler is set: the worker takes the first packets out of the queue and drops them.\<close>

lemma unhandled_run:
  assumes ps: "\<forall>p \<in> set ps. sendable p" and fed: "prefix (fed_bytes pb_accepts es) (concat (map buildPacket ps))"
    and cap: "length (fed_bytes pb_accepts es) \<le> queue_cap"
  shows "\<exists>b k. run_events pb_feed (worker_turn None) es (pb_init, u) = Inr (b, u) \<and> pb_inv b \<and> k \<le> length ps \<and>
    length (pending b) \<le> length (fed_bytes pb_accepts es) \<and>
    frames_of next_frame (fed_bytes pb_accepts es) = map frame_of (take k ps) @ frames_of next_frame (pending b) \<and>
    same_stream next_frame (rest_of next_frame (pending b)) (rest_of next_frame (fed_bytes pb_accepts es))"
proof -
  let ?run = "run_events pb_feed (worker_turn (None :: (packet \<Rightarrow> 'a \<Rightarrow> 'a result) option)) es (pb_init, u)"
  from fed obtain cs where cs: "concat (map buildPacket ps) = fed_bytes pb_accepts es @ cs" by (auto simp: prefix_def)
  have "frames_of next_frame (concat (map buildPacket ps)) = map frame_of ps"
    using frames_of_packets [OF ps, of "[]"] by (simp add: pb.frames_None)
  with cs have all: "map frame_of ps = frames_of next_frame (fed_bytes pb_accepts es) @
      frames_of next_frame (rest_of next_frame (fed_bytes pb_accepts es) @ cs)"
    using pb.frames_append [of "fed_bytes pb_accepts es" cs] by simp
  have quiet: "deliver_all (deliver_frame None) ds u = Inr u \<and> length ds \<le> length ps \<and>
      ds = map frame_of (take (length ds) ps)"
    if "frames_of next_frame (fed_bytes pb_accepts es) = ds @ tl" for ds tl
  proof -
    from all that have eq: "map frame_of ps = ds @ (tl @ frames_of next_frame (rest_of next_frame (fed_bytes pb_accepts es) @ cs))"
      by simp
    then have "ds = take (length ds) (map frame_of ps)" by simp
    then have ds: "ds = map frame_of (take (length ds) ps)" by (simp only: take_map)
    have "\<forall>p \<in> set (take (length ds) ps). sendable p" using ps by (meson in_set_takeD)
    from deliver_nothing [OF this, of u] ds arg_cong [OF eq, of length] show ?thesis by simp
  qed
  have cap': "length (pending pb_init) + length (fed_bytes pb_accepts es) \<le> queue_cap" using cap by simp
  show ?thesis
  proof (cases ?run)
    case (Inl e)
    from pb.run_failure [OF pb_inv_init cap' this] obtain ds tl where
      "frames_of next_frame (fed_bytes pb_accepts es) = ds @ tl" "deliver_all (deliver_frame None) ds u = Inl e" by auto
    with quiet show ?thesis by fastforce
  next
    case (Inr s)
    then obtain b v where s: "?run = Inr (b, v)" by (cases s) auto
    from pb.run_prefix [OF pb_inv_init cap' s] obtain ds where
      ds: "frames_of next_frame (fed_bytes pb_accepts es) = ds @ frames_of next_frame (pending b)"
        "deliver_all (deliver_frame None) ds u = Inr v" "pb_inv b"
        "same_stream next_frame (rest_of next_frame (pending b)) (rest_of next_frame (fed_bytes pb_accepts es))"
      by auto
    from pb.run_length [OF pb_inv_init cap' s] have "length (pending b) \<le> length (fed_bytes pb_accepts es)" by simp
    with s ds quiet [OF ds(1)] show ?thesis by (intro exI [of _ b] exI [of _ "length ds"]) auto
  qed
qed

section \<open>Properties\<close>

text \<open>Packets that are complete before a handler is set may be lost, and only those. Whatever arrives and
  however the worker is scheduled before and after \<open>setOnPacketProcessedHandler\<close>, the handler gets
  the packets from some point of the stream on, without a gap, in order, each once; the packets
  before that point had all arrived completely before the call, and they are dropped without a
  trace. If the worker took no turn before the call, nothing is lost.\<close>

theorem late_handler_misses:
  assumes "\<forall>p \<in> set ps. sendable p"
    and "fed_bytes pb_accepts (es @ fs) = concat (map buildPacket ps)"
    and "length (fed_bytes pb_accepts (es @ fs)) \<le> queue_cap" "length ps \<le> n"
  shows "\<exists>h k. h_run (map Plain es @ [SetHandler (Some log_packet)] @ map Plain (fs @ replicate n Work))
      (hbuffer_init, []) = Inr (h, drop k ps) \<and> pending (h_buf h) = [] \<and>
    k \<le> length (frames_of next_frame (fed_bytes pb_accepts es)) \<and> k \<le> length ps \<and> (Work \<notin> set es \<longrightarrow> k = 0)"
proof -
  let ?es = "fed_bytes pb_accepts es" and ?fs = "fed_bytes pb_accepts fs"
  have split: "?es @ ?fs = concat (map buildPacket ps)" using assms(2) by (simp add: fed_bytes_append)
  then have "prefix ?es (concat (map buildPacket ps))" by (metis prefixI)
  moreover have cap: "length ?es + length ?fs \<le> queue_cap" using assms(3) by (simp add: fed_bytes_append)
  ultimately obtain b k where b: "run_events pb_feed (worker_turn None) es (pb_init, [] :: packet list) = Inr (b, [])"
      "pb_inv b" "k \<le> length ps" "length (pending b) \<le> length ?es"
      "frames_of next_frame ?es = map frame_of (take k ps) @ frames_of next_frame (pending b)"
      "same_stream next_frame (rest_of next_frame (pending b)) (rest_of next_frame ?es)"
    using unhandled_run [OF assms(1), of es "[]"] by auto
  have "map frame_of ps = frames_of next_frame ?es @ frames_of next_frame (rest_of next_frame ?es @ ?fs)"
    using frames_of_packets [OF assms(1), of "[]"] pb.frames_append [of ?es ?fs] split
    by (simp add: pb.frames_None)
  also have "\<dots> = map frame_of (take k ps) @ frames_of next_frame (pending b @ ?fs)"
    using b(5) pb.frames_append [of "pending b" ?fs]
      pb.frames_same_stream [OF same_stream_append [OF b(6)], of ?fs] by simp
  finally have later: "frames_of next_frame (pending b @ ?fs) = map frame_of (drop k ps)"
    by (metis append_take_drop_id map_append same_append_eq)
  have "rest_of next_frame (?es @ ?fs) = []"
    using rest_of_packets [OF assms(1), of "[]"] split by (simp add: pb.rest_None)
  with pb.rest_same_stream [OF same_stream_append [OF b(6)], of ?fs]
  have rest: "rest_of next_frame (pending b @ ?fs) = []"
    by (simp add: pb.rest_append [of ?es] pb.rest_append [of "pending b"])
  have c: "length (pending b) + length ?fs \<le> queue_cap" using b(4) cap by simp
  have m: "length (frames_of next_frame (pending b @ ?fs)) \<le> n" using later assms(4) by simp
  have s: "\<forall>p \<in> set (drop k ps). sendable p" using assms(1) by (meson in_set_dropD)
  have "\<exists>b'. pending b' = [] \<and>
    run_events pb_feed (worker_turn (Some log_packet)) (fs @ replicate n Work) (b, []) = Inr (b', drop k ps)"
    by (rule pb.complete [OF b(2) c m, of "Some log_packet" "[]"])
      (use deliver_packets [OF s, of "[]"] later rest in auto)
  then obtain b' where b': "pending b' = []"
    "run_events pb_feed (worker_turn (Some log_packet)) (fs @ replicate n Work) (b, []) = Inr (b', drop k ps)" by blast
  let ?h = "\<lparr>h_buf = b', onPacketProcessedHandler = Some log_packet\<rparr>"
  have "h_run (map Plain es @ [SetHandler (Some log_packet)] @ map Plain (fs @ replicate n Work)) (hbuffer_init, []) =
      Inr (?h, drop k ps)"
    using b(1) b'(2)
    by (simp add: h_run_append h_run_plain hbuffer_init_def setOnPacketProcessedHandler_def del: map_append)
  moreover have "k \<le> length (frames_of next_frame ?es)" using b(3,5) by simp
  moreover have "k = 0" if "Work \<notin> set es"
  proof -
    from pb.arrivals_only [OF that, of None pb_init "[] :: packet list"] b(1) have "pending b = ?es" by simp
    with arg_cong [OF b(5), of length] b(3) show ?thesis by simp
  qed
  ultimately show ?thesis using b'(1) b(3) by (intro exI [of _ ?h] exI [of _ k]) simp
qed

theorem late_handler_misses_witness:
  "\<exists>h p. buildPacket p = [1, 0, 5, 0, 7] \<and>
     h_run [Plain (Arrive [1, 0, 5]), Plain (Arrive [0, 7]), SetHandler (Some log_packet), Plain Work] (hbuffer_init, []) =
       Inr (h, [p])"
proof -
  obtain p where p: "Packet_TCP 1 [7] False = Inr p" by (simp add: Packet_TCP_nonempty)
  then have d: "buildPacket p = [1, 0, 5, 0, 7]"
    by (auto simp: Packet_TCP_Inr_iff codec_simps length_bytes_def length_low_def length_high_def)
  have s: "\<forall>q \<in> set [p]. sendable q"
    using p wf_Packet_TCP [OF p] d by (auto simp: sendable_def Packet_TCP_Inr_iff)
  from late_handler_misses [OF s, of "[Arrive [1, 0, 5], Arrive [0, 7]]" "[]" 1] d show ?thesis
    by (auto simp: pb_accepts_def MAX_PACKET_SIZE_def queue_cap_def)
qed

end
