(* ===== verification/Utilities.thy ===== *)
theory Utilities
  imports Packet
begin

text \<open>
  The two small classes beside the components: Logger.h (Logger.cpp defines its static member) and
  PacketHandler.h, and dllmain.cpp. What a user's function does is a parameter, as a function on its state.
\<close>

section \<open>Logger\<close>

datatype LogLevel = Level_error | Level_warn | Level_info | Level_verbose

primrec LogLevel_value :: "LogLevel \<Rightarrow> int" where
  "LogLevel_value Level_error = 1"
| "LogLevel_value Level_warn = 2"
| "LogLevel_value Level_info = 3"
| "LogLevel_value Level_verbose = 4"

record LogMessage =
  message :: string
  level :: LogLevel

text \<open>
  \<open>Log\<close> with DEBUG defined or not; \<open>out\<close> are the lines written to std::cout. Without DEBUG the
  body is empty.
\<close>

definition Log ::
  "bool \<Rightarrow> (LogMessage \<Rightarrow> 'u \<Rightarrow> 'u result) option \<Rightarrow> string \<Rightarrow> LogLevel \<Rightarrow> 'u \<times> string list \<Rightarrow> ('u \<times> string list) result" where
  "Log debug onMessageLogged msg lvl s =
     (if \<not> debug then Inr s
      else let m = \<lparr>message = msg, level = lvl\<rparr>
           in case onMessageLogged of
                Some f \<Rightarrow> and_then (f m (fst s)) (\<lambda>u. Inr (u, snd s))
              | None \<Rightarrow> Inr (fst s, snd s @ [message m]))"

definition onMessageLogged_init :: "(LogMessage \<Rightarrow> 'u \<Rightarrow> 'u result) option" where
  "onMessageLogged_init = None"

section \<open>The entry point of the Windows library\<close>

text \<open>All four reasons for the call fall through to the \<open>break\<close>, and every other has no case.\<close>

definition DllMain :: "32 word \<Rightarrow> bool" where
  "DllMain ul_reason_for_call = True"

section \<open>PacketHandler\<close>

record ('c, 'u) packet_handler =
  ph_id :: byte
  ph_encrypted :: bool
  ph_handler :: "('c \<Rightarrow> packet \<Rightarrow> 'u \<Rightarrow> 'u result) option"

definition PacketHandler ::
  "byte \<Rightarrow> bool \<Rightarrow> ('c \<Rightarrow> packet \<Rightarrow> 'u \<Rightarrow> 'u result) option \<Rightarrow> ('c, 'u) packet_handler" where
  "PacketHandler i encrypted handler = \<lparr>ph_id = i, ph_encrypted = encrypted, ph_handler = handler\<rparr>"

definition ph_getID :: "('c, 'u) packet_handler \<Rightarrow> byte" where
  "ph_getID h = ph_id h"

definition isEncrypted :: "('c, 'u) packet_handler \<Rightarrow> bool" where
  "isEncrypted h = ph_encrypted h"

definition handlePacket :: "('c, 'u) packet_handler \<Rightarrow> 'c \<Rightarrow> packet \<Rightarrow> 'u \<Rightarrow> 'u result" where
  "handlePacket h c packet u = (case ph_handler h of None \<Rightarrow> Inr u | Some f \<Rightarrow> f c packet u)"

section \<open>Lemmas\<close>

text \<open>A sequence of log calls in a program that sets no handler, and one whose handler keeps the messages.\<close>

primrec log_all ::
  "bool \<Rightarrow> (LogMessage \<Rightarrow> 'u \<Rightarrow> 'u result) option \<Rightarrow> (string \<times> LogLevel) list \<Rightarrow> 'u \<times> string list \<Rightarrow>
   ('u \<times> string list) result" where
  "log_all debug f [] s = Inr s"
| "log_all debug f (m # ms) s = and_then (Log debug f (fst m) (snd m) s) (log_all debug f ms)"

definition keep_message :: "LogMessage \<Rightarrow> LogMessage list \<Rightarrow> LogMessage list result" where
  "keep_message m u = Inr (u @ [m])"

lemma log_all_release: "log_all False f ms s = Inr s"
  by (induction ms) (simp_all add: Log_def)

lemma log_all_printed: "log_all True onMessageLogged_init ms (u, out) = Inr (u, out @ map fst ms)"
  by (induction ms arbitrary: out) (simp_all add: Log_def onMessageLogged_init_def)

lemma log_all_kept:
  "log_all True (Some keep_message) ms (u, out) =
     Inr (u @ map (\<lambda>(msg, lvl). \<lparr>message = msg, level = lvl\<rparr>) ms, out)"
  by (induction ms arbitrary: u) (simp_all add: Log_def keep_message_def split_beta)

lemma LogLevel_inject: "LogLevel_value a = LogLevel_value b \<longleftrightarrow> a = b"
  by (cases a; cases b) simp_all

lemma PacketHandler_simps [simp]:
  "ph_getID (PacketHandler i e f) = i" "isEncrypted (PacketHandler i e f) = e"
  "handlePacket (PacketHandler i e (Some g)) c p u = g c p u"
  "handlePacket (PacketHandler i e None) c p u = Inr u"
  by (simp_all add: PacketHandler_def ph_getID_def isEncrypted_def handlePacket_def)

end
