(* ===== verification/Worker_Threads.thy ===== *)
theory Worker_Threads
  imports Processing_Buffer
begin

text \<open>
  The threads of ProcessingBuffer.cpp: the worker that runs \<open>processPackets\<close>, any number of
  threads that call \<open>addData\<close>, and the destructor, over the mutex, the condition variable and
  the flag \<open>stopProcessing\<close>. Each step relation has one rule per atomic action of the code. The
  invariant gives mutual exclusion and shows that no arrival is lost to a sleeping worker; every
  run is an interleaving of the sequential model, so its theorems hold for every schedule. The
  destructor, which sets the flag without holding the mutex, can lose its wake-up.
\<close>

section \<open>Threads and their program counters\<close>

datatype agent = Worker | Producer nat

text \<open>
  Worker: \<open>LoopTest\<close> is the loop's condition, \<open>Locking\<close> the unique_lock's constructor,
  \<open>Testing\<close> the predicate of \<open>cv.wait\<close>, \<open>Parking\<close> the gap between a false predicate and the
  atomic release-and-block, \<open>Blocked\<close> the wait itself, \<open>Relocking\<close> the reacquisition after a
  wake-up, \<open>Woken\<close> the test of the flag after the wait, \<open>Processing\<close> the body, \<open>Napping\<close> the
  sleep at its end (the lock is still held), \<open>Exited\<close> the end of the thread function and
  \<open>Terminated\<close> an exception that left it.
\<close>

datatype worker_pc =
    LoopTest | Locking | Testing | Parking | Blocked | Relocking | Woken | Processing | Napping
  | Exited | Terminated exn

text \<open>Producer: a call of \<open>addData\<close> past its size check, holding the lock, and past it.\<close>

datatype producer_pc = Idle | Adding bytes | Pushing bytes | Notifying

text \<open>Destructor: before the store, between store and \<open>notify_all\<close>, in \<open>join\<close>, and done.\<close>

datatype dtor_pc = Alive | Stored | Joining | Destroyed

record 'u pbsys =
  lock :: "agent option"
  buf :: procbuf
  hstate :: 'u
  stopProcessing :: bool
  wpc :: worker_pc
  ppc :: "nat \<Rightarrow> producer_pc"
  dpc :: dtor_pc

definition pbsys_init :: "'u \<Rightarrow> 'u pbsys" where
  "pbsys_init u = \<lparr>lock = None, buf = pb_init, hstate = u, stopProcessing = False, wpc = LoopTest,
     ppc = (\<lambda>_. Idle), dpc = Alive\<rparr>"

section \<open>Steps\<close>

text \<open>A notification wakes the worker if it is blocked in the wait; otherwise it is lost.\<close>

definition wake :: "worker_pc \<Rightarrow> worker_pc" where
  "wake pc = (if pc = Blocked then Relocking else pc)"

inductive worker_step ::
  "(packet \<Rightarrow> 'u \<Rightarrow> 'u result) option \<Rightarrow> 'u pbsys \<Rightarrow> 'u pbsys \<Rightarrow> bool"
  for handler where
  loop_go: "wpc s = LoopTest \<Longrightarrow> \<not> stopProcessing s \<Longrightarrow>
     worker_step handler s (s\<lparr>wpc := Locking\<rparr>)"
| loop_end: "wpc s = LoopTest \<Longrightarrow> stopProcessing s \<Longrightarrow>
     worker_step handler s (s\<lparr>wpc := Exited\<rparr>)"
| acquire: "wpc s = Locking \<Longrightarrow> lock s = None \<Longrightarrow>
     worker_step handler s (s\<lparr>wpc := Testing, lock := Some Worker\<rparr>)"
| pred_true: "wpc s = Testing \<Longrightarrow> internalBuffer (buf s) \<noteq> [] \<or> stopProcessing s \<Longrightarrow>
     worker_step handler s (s\<lparr>wpc := Woken\<rparr>)"
| pred_false: "wpc s = Testing \<Longrightarrow> internalBuffer (buf s) = [] \<Longrightarrow> \<not> stopProcessing s \<Longrightarrow>
     worker_step handler s (s\<lparr>wpc := Parking\<rparr>)"
| block: "wpc s = Parking \<Longrightarrow>
     worker_step handler s (s\<lparr>wpc := Blocked, lock := None\<rparr>)"
| reacquire: "wpc s = Relocking \<Longrightarrow> lock s = None \<Longrightarrow>
     worker_step handler s (s\<lparr>wpc := Testing, lock := Some Worker\<rparr>)"
| break_out: "wpc s = Woken \<Longrightarrow> stopProcessing s \<Longrightarrow>
     worker_step handler s (s\<lparr>wpc := Exited, lock := None\<rparr>)"
| go_on: "wpc s = Woken \<Longrightarrow> \<not> stopProcessing s \<Longrightarrow>
     worker_step handler s (s\<lparr>wpc := Processing\<rparr>)"
| iterate: "wpc s = Processing \<Longrightarrow> process_iteration handler (buf s, hstate s) = Inr (b, u) \<Longrightarrow>
     worker_step handler s (s\<lparr>wpc := Napping, buf := b, hstate := u\<rparr>)"
| uncaught: "wpc s = Processing \<Longrightarrow> process_iteration handler (buf s, hstate s) = Inl e \<Longrightarrow>
     worker_step handler s (s\<lparr>wpc := Terminated e\<rparr>)"
| nap_over: "wpc s = Napping \<Longrightarrow>
     worker_step handler s (s\<lparr>wpc := LoopTest, lock := None\<rparr>)"

text \<open>A producer's step is labelled with the bytes it adds to the queue.\<close>

inductive producer_step :: "'u pbsys \<Rightarrow> bytes \<Rightarrow> 'u pbsys \<Rightarrow> bool" where
  call: "ppc s i = Idle \<Longrightarrow> length d \<le> MAX_PACKET_SIZE \<Longrightarrow>
     producer_step s [] (s\<lparr>ppc := (ppc s)(i := Adding d)\<rparr>)"
| enter: "ppc s i = Adding d \<Longrightarrow> lock s = None \<Longrightarrow>
     producer_step s [] (s\<lparr>ppc := (ppc s)(i := Pushing d), lock := Some (Producer i)\<rparr>)"
| add: "ppc s i = Pushing d \<Longrightarrow> addData d (buf s) = Inr b \<Longrightarrow>
     producer_step s d (s\<lparr>ppc := (ppc s)(i := Notifying), buf := b, lock := None\<rparr>)"
| notify: "ppc s i = Notifying \<Longrightarrow>
     producer_step s [] (s\<lparr>ppc := (ppc s)(i := Idle), wpc := wake (wpc s)\<rparr>)"

inductive dtor_step :: "'u pbsys \<Rightarrow> 'u pbsys \<Rightarrow> bool" where
  store: "dpc s = Alive \<Longrightarrow> dtor_step s (s\<lparr>stopProcessing := True, dpc := Stored\<rparr>)"
| notify_all: "dpc s = Stored \<Longrightarrow> dtor_step s (s\<lparr>wpc := wake (wpc s), dpc := Joining\<rparr>)"
| joined: "dpc s = Joining \<Longrightarrow> wpc s = Exited \<Longrightarrow> dtor_step s (s\<lparr>dpc := Destroyed\<rparr>)"

text \<open>The standard allows the wait to wake up spuriously, but does not promise it.\<close>

inductive spurious_step :: "'u pbsys \<Rightarrow> 'u pbsys \<Rightarrow> bool" where
  "wpc s = Blocked \<Longrightarrow> spurious_step s (s\<lparr>wpc := Relocking\<rparr>)"

definition sys_step ::
  "(packet \<Rightarrow> 'u \<Rightarrow> 'u result) option \<Rightarrow> 'u pbsys \<Rightarrow> bytes \<Rightarrow> 'u pbsys \<Rightarrow> bool" where
  "sys_step handler s d t \<longleftrightarrow>
     producer_step s d t \<or> d = [] \<and> (worker_step handler s t \<or> dtor_step s t \<or> spurious_step s t)"

text \<open>The states a schedule reaches, with the bytes queued on the way, in the order of the pushes.\<close>

inductive reachable_sys ::
  "(packet \<Rightarrow> 'u \<Rightarrow> 'u result) option \<Rightarrow> 'u \<Rightarrow> bytes \<Rightarrow> 'u pbsys \<Rightarrow> bool"
  for handler u where
  start: "reachable_sys handler u [] (pbsys_init u)"
| step: "reachable_sys handler u fed s \<Longrightarrow> sys_step handler s d t \<Longrightarrow> reachable_sys handler u (fed @ d) t"

inductive_cases worker_stepE: "worker_step handler s t"
inductive_cases producer_stepE: "producer_step s d t"
inductive_cases dtor_stepE: "dtor_step s t"
inductive_cases spurious_stepE: "spurious_step s t"

section \<open>The invariant\<close>

definition holds_lock :: "worker_pc \<Rightarrow> bool" where
  "holds_lock pc = (case pc of Testing \<Rightarrow> True | Parking \<Rightarrow> True | Woken \<Rightarrow> True
     | Processing \<Rightarrow> True | Napping \<Rightarrow> True | Terminated e \<Rightarrow> True | _ \<Rightarrow> False)"

text \<open>
  Who holds the mutex is what the program counters say; a worker about to block saw an empty
  queue and nothing has been pushed since; a blocked worker has either an empty queue or a
  notification on its way; the body runs on a queue that is not empty.
\<close>

definition lock_inv :: "'u pbsys \<Rightarrow> bool" where
  "lock_inv s \<longleftrightarrow>
     (lock s = Some Worker \<longleftrightarrow> holds_lock (wpc s)) \<and>
     (\<forall>i. lock s = Some (Producer i) \<longleftrightarrow> (\<exists>d. ppc s i = Pushing d))"

definition wait_inv :: "'u pbsys \<Rightarrow> bool" where
  "wait_inv s \<longleftrightarrow>
     (wpc s = Parking \<longrightarrow> internalBuffer (buf s) = []) \<and>
     (wpc s = Blocked \<longrightarrow> internalBuffer (buf s) \<noteq> [] \<longrightarrow> (\<exists>i. ppc s i = Notifying)) \<and>
     (wpc s = Woken \<longrightarrow> internalBuffer (buf s) \<noteq> [] \<or> stopProcessing s) \<and>
     (wpc s = Processing \<longrightarrow> internalBuffer (buf s) \<noteq> [])"

lemma holds_lock_simps [simp]:
  "holds_lock Testing" "holds_lock Parking" "holds_lock Woken" "holds_lock Processing"
  "holds_lock Napping" "holds_lock (Terminated e)" "\<not> holds_lock LoopTest"
  "\<not> holds_lock Locking" "\<not> holds_lock Blocked" "\<not> holds_lock Relocking" "\<not> holds_lock Exited"
  by (simp_all add: holds_lock_def)

lemma holds_lock_wake [simp]: "holds_lock (wake pc) = holds_lock pc"
  by (simp add: wake_def)

lemma wake_eq_iff [simp]:
  "wake pc = Parking \<longleftrightarrow> pc = Parking" "wake pc = Woken \<longleftrightarrow> pc = Woken"
  "wake pc = Processing \<longleftrightarrow> pc = Processing" "wake pc \<noteq> Blocked"
  by (auto simp: wake_def)

lemma lock_inv_init [simp]: "lock_inv (pbsys_init u)"
  and wait_inv_init [simp]: "wait_inv (pbsys_init u)"
  by (simp_all add: lock_inv_def wait_inv_def pbsys_init_def)

lemma worker_step_lock_inv: "worker_step handler s t \<Longrightarrow> lock_inv s \<Longrightarrow> lock_inv t"
  by (erule worker_step.cases) (auto simp: lock_inv_def)

lemma producer_step_lock_inv: "producer_step s d t \<Longrightarrow> lock_inv s \<Longrightarrow> lock_inv t"
  by (erule producer_step.cases) (auto simp: lock_inv_def, metis agent.inject option.inject)

lemma dtor_step_lock_inv: "dtor_step s t \<Longrightarrow> lock_inv s \<Longrightarrow> lock_inv t"
  by (erule dtor_step.cases) (auto simp: lock_inv_def)

lemma spurious_step_lock_inv: "spurious_step s t \<Longrightarrow> lock_inv s \<Longrightarrow> lock_inv t"
  by (erule spurious_step.cases) (auto simp: lock_inv_def)

lemma worker_step_wait_inv: "worker_step handler s t \<Longrightarrow> wait_inv s \<Longrightarrow> wait_inv t"
  by (erule worker_step.cases) (auto simp: wait_inv_def)

text \<open>A producer in its critical section excludes the worker from the gap before its wait.\<close>

lemma other_notifier:
  "\<exists>j. ppc s j = Notifying \<Longrightarrow> ppc s i \<noteq> Notifying \<Longrightarrow> \<exists>j. ((ppc s)(i := x)) j = Notifying"
  by auto

lemma producer_step_wait_inv:
  assumes "producer_step s l t" "lock_inv s" "wait_inv s"
  shows "wait_inv t"
  using assms(1)
proof cases
  case (call i d)
  with assms(3) other_notifier [of s i "Adding d"] show ?thesis by (auto simp: wait_inv_def)
next
  case (enter i d)
  with assms(3) other_notifier [of s i "Pushing d"] show ?thesis by (auto simp: wait_inv_def)
next
  case (add i b)
  with assms(2) have "\<not> holds_lock (wpc s)" by (metis agent.distinct(1) lock_inv_def option.inject)
  then have "wpc s \<noteq> Parking" "wpc s \<noteq> Woken" "wpc s \<noteq> Processing" by auto
  with add show ?thesis by (auto simp: wait_inv_def)
next
  case (notify i)
  with assms(3) show ?thesis by (auto simp: wait_inv_def)
qed

lemma dtor_step_wait_inv: "dtor_step s t \<Longrightarrow> wait_inv s \<Longrightarrow> wait_inv t"
  by (erule dtor_step.cases) (auto simp: wait_inv_def)

lemma spurious_step_wait_inv: "spurious_step s t \<Longrightarrow> wait_inv s \<Longrightarrow> wait_inv t"
  by (erule spurious_step.cases) (auto simp: wait_inv_def)

lemmas lock_inv_steps =
  worker_step_lock_inv producer_step_lock_inv dtor_step_lock_inv spurious_step_lock_inv
lemmas wait_inv_steps =
  worker_step_wait_inv producer_step_wait_inv dtor_step_wait_inv spurious_step_wait_inv

lemma sys_step_invs: "sys_step handler s d t \<Longrightarrow> lock_inv s \<Longrightarrow> wait_inv s \<Longrightarrow> lock_inv t \<and> wait_inv t"
  unfolding sys_step_def
  by (elim disjE conjE) (simp_all add: lock_inv_steps wait_inv_steps)

lemma reachable_invs: "reachable_sys handler u fed s \<Longrightarrow> lock_inv s \<and> wait_inv s"
  by (induction rule: reachable_sys.induct) (simp_all add: sys_step_invs)

text \<open>The destructor: the flag is set once it has begun, and it is done only after the worker.\<close>

definition dtor_inv :: "'u pbsys \<Rightarrow> bool" where
  "dtor_inv s \<longleftrightarrow> (stopProcessing s \<longleftrightarrow> dpc s \<noteq> Alive) \<and> (dpc s = Destroyed \<longrightarrow> wpc s = Exited) \<and>
     (wpc s = Exited \<longrightarrow> stopProcessing s)"

lemma sys_step_dtor_inv: "sys_step handler s d t \<Longrightarrow> dtor_inv s \<Longrightarrow> dtor_inv t"
  unfolding sys_step_def
  by (elim disjE conjE; erule worker_stepE producer_stepE dtor_stepE spurious_stepE)
    (auto simp: dtor_inv_def wake_def)

lemma reachable_dtor_inv: "reachable_sys handler u fed s \<Longrightarrow> dtor_inv s"
  by (induction rule: reachable_sys.induct)
    (simp add: dtor_inv_def pbsys_init_def, rule sys_step_dtor_inv)

section \<open>Every schedule is an interleaving of the sequential model\<close>

text \<open>
  The only steps that touch the buffer are a push (the arrival of a chunk) and the body of the
  loop (a turn of the worker); all other steps leave buffer and handler state alone.
\<close>

lemma step_as_events:
  assumes "sys_step handler s d t" "wait_inv s"
  shows "\<exists>evs. fed_bytes pb_accepts evs = d \<and>
    run_events pb_feed (worker_turn handler) evs (buf s, hstate s) = Inr (buf t, hstate t)"
proof -
  have stutter: "\<exists>evs. fed_bytes pb_accepts evs = [] \<and>
      run_events pb_feed (worker_turn handler) evs su = Inr su" for su
    by (intro exI [of _ "[]"]) simp
  consider (worker) "d = []" "worker_step handler s t" | (producer) "producer_step s d t"
    | (other) "d = []" "dtor_step s t \<or> spurious_step s t"
    using assms(1) unfolding sys_step_def by blast
  then show ?thesis
  proof cases
    case worker
    from worker(2) show ?thesis
    proof cases
      case (iterate b u)
      then have "worker_turn handler (buf s, hstate s) = Inr (b, u)"
        using assms(2) by (simp add: worker_turn_def wait_inv_def)
      with iterate worker(1) show ?thesis by (intro exI [of _ "[Work]"]) simp
    qed (simp_all add: stutter worker(1) del: run_events.simps)
  next
    case producer
    then show ?thesis
    proof cases
      case (add i b)
      then have "pb_feed d (buf s) = b" by (simp add: pb_feed_def)
      moreover have "pb_accepts d"
        using add(3) by (simp add: addData_Inr_iff pb_accepts_def MAX_PACKET_SIZE_def)
      ultimately show ?thesis using add by (intro exI [of _ "[Arrive d]"]) simp
    qed (simp_all add: stutter del: run_events.simps)
  next
    case other
    then have "buf t = buf s" "hstate t = hstate s" by (auto elim: dtor_stepE spurious_stepE)
    with other(1) stutter show ?thesis by simp
  qed
qed

lemma schedule_linearises:
  "reachable_sys handler u fed s \<Longrightarrow>
     \<exists>evs. fed_bytes pb_accepts evs = fed \<and>
       run_events pb_feed (worker_turn handler) evs (pb_init, u) = Inr (buf s, hstate s)"
proof (induction rule: reachable_sys.induct)
  case start
  show ?case by (intro exI [of _ "[]"]) (simp add: pbsys_init_def)
next
  case (step fed s d t)
  then obtain evs where evs: "fed_bytes pb_accepts evs = fed"
    "run_events pb_feed (worker_turn handler) evs (pb_init, u) = Inr (buf s, hstate s)" by blast
  from step_as_events [OF step.hyps(2)] reachable_invs [OF step.hyps(1)] obtain es where
    "fed_bytes pb_accepts es = d"
    "run_events pb_feed (worker_turn handler) es (buf s, hstate s) = Inr (buf t, hstate t)" by blast
  with evs show ?case
    by (intro exI [of _ "evs @ es"]) (simp add: run_events_append fed_bytes_append)
qed

text \<open>What has been delivered, and what a sleeping worker means for it.\<close>

lemma schedule_prefix:
  assumes "reachable_sys (Some log_packet) [] fed s" "length fed \<le> queue_cap"
  shows "pb_inv (buf s) \<and>
    frames_of next_frame fed = map frame_of (hstate s) @ frames_of next_frame (pending (buf s))"
proof -
  obtain evs where evs: "fed_bytes pb_accepts evs = fed"
    "run_events pb_feed (worker_turn (Some log_packet)) evs (pb_init, []) = Inr (buf s, hstate s)"
    using schedule_linearises [OF assms(1)] by blast
  have "length (pending pb_init) + length (fed_bytes pb_accepts evs) \<le> queue_cap"
    using assms(2) evs(1) by simp
  from pb.run_prefix [OF pb_inv_init this evs(2)] evs(1) obtain ds where inv: "pb_inv (buf s)"
    and ds: "frames_of next_frame fed = ds @ frames_of next_frame (pending (buf s))"
      "deliver_all (deliver_frame (Some log_packet)) ds [] = Inr (hstate s)" by auto
  from deliver_log_packets [OF ds(2)] ds(1) inv show ?thesis by auto
qed

lemma sleeping_worker_idle:
  assumes "reachable_sys handler u fed s" "wpc s = Blocked" "\<forall>i. ppc s i \<noteq> Notifying" "pb_inv (buf s)"
  shows "next_frame (pending (buf s)) = None"
  using reachable_invs [OF assms(1)] assms(2-4) by (auto simp: wait_inv_def intro: empty_queue_idle)

section \<open>Some schedules\<close>

lemma reachable_worker:
  "reachable_sys handler u fed s \<Longrightarrow> worker_step handler s t \<Longrightarrow> reachable_sys handler u fed t"
  using reachable_sys.step [of handler u fed s "[]" t] by (simp add: sys_step_def)

lemma reachable_dtor:
  "reachable_sys handler u fed s \<Longrightarrow> dtor_step s t \<Longrightarrow> reachable_sys handler u fed t"
  using reachable_sys.step [of handler u fed s "[]" t] by (simp add: sys_step_def)

lemma reachable_producer:
  assumes "reachable_sys handler u fed s" "producer_step s d t"
  shows "reachable_sys handler u (fed @ d) t"
  using assms by (intro reachable_sys.step [of handler u fed s]) (auto simp: sys_step_def)

text \<open>The worker reaches the gap before its wait, and then the wait.\<close>

definition sys_at :: "'u \<Rightarrow> procbuf \<Rightarrow> agent option \<Rightarrow> worker_pc \<Rightarrow> producer_pc \<Rightarrow> 'u pbsys" where
  "sys_at u b l w p = \<lparr>lock = l, buf = b, hstate = u, stopProcessing = False, wpc = w,
     ppc = (\<lambda>_. Idle)(0 := p), dpc = Alive\<rparr>"

lemma reach_parking: "reachable_sys handler u [] (sys_at u pb_init (Some Worker) Parking Idle)"
proof -
  have "worker_step handler (pbsys_init u) (sys_at u pb_init None Locking Idle)"
    using loop_go [of "pbsys_init u" handler] by (simp add: pbsys_init_def sys_at_def fun_upd_idem)
  moreover have "worker_step handler (sys_at u pb_init None Locking Idle)
      (sys_at u pb_init (Some Worker) Testing Idle)"
    using acquire [of "sys_at u pb_init None Locking Idle" handler] by (simp add: sys_at_def)
  moreover have "worker_step handler (sys_at u pb_init (Some Worker) Testing Idle)
      (sys_at u pb_init (Some Worker) Parking Idle)"
    using pred_false [of "sys_at u pb_init (Some Worker) Testing Idle" handler]
    by (simp add: sys_at_def pb_init_def)
  ultimately show ?thesis using reachable_worker reachable_sys.start by metis
qed

lemma reach_blocked: "reachable_sys handler u [] (sys_at u pb_init None Blocked Idle)"
  using reachable_worker [OF reach_parking, OF block, of u handler] by (simp add: sys_at_def)

text \<open>A chunk is queued while the worker is blocked: its notification is on the way.\<close>

lemma reach_notifying:
  assumes "length d \<le> 1024"
  shows "reachable_sys handler u d (sys_at u (pb_init\<lparr>internalBuffer := d\<rparr>) None Blocked Notifying)"
proof -
  have "producer_step (sys_at u pb_init None Blocked Idle) [] (sys_at u pb_init None Blocked (Adding d))"
    using call [of "sys_at u pb_init None Blocked Idle" 0 d] assms
    by (simp add: sys_at_def MAX_PACKET_SIZE_def)
  note s1 = reachable_producer [OF reach_blocked this]
  have "producer_step (sys_at u pb_init None Blocked (Adding d)) []
      (sys_at u pb_init (Some (Producer 0)) Blocked (Pushing d))"
    using enter [of "sys_at u pb_init None Blocked (Adding d)" 0 d] by (simp add: sys_at_def)
  note s2 = reachable_producer [OF s1 this]
  have "producer_step (sys_at u pb_init (Some (Producer 0)) Blocked (Pushing d)) d
      (sys_at u (pb_init\<lparr>internalBuffer := d\<rparr>) None Blocked Notifying)"
    using add [of "sys_at u pb_init (Some (Producer 0)) Blocked (Pushing d)" 0 d] assms
    by (simp add: sys_at_def addData_Inr_iff pb_init_def)
  from reachable_producer [OF s2 this] show ?thesis by simp
qed

lemma reach_woken:
  assumes "length d \<le> 1024"
  shows "reachable_sys handler u d (sys_at u (pb_init\<lparr>internalBuffer := d\<rparr>) None Relocking Idle)"
proof -
  have "producer_step (sys_at u (pb_init\<lparr>internalBuffer := d\<rparr>) None Blocked Notifying) []
      (sys_at u (pb_init\<lparr>internalBuffer := d\<rparr>) None Relocking Idle)"
    using notify [of "sys_at u (pb_init\<lparr>internalBuffer := d\<rparr>) None Blocked Notifying" 0]
    by (simp add: sys_at_def wake_def)
  from reachable_producer [OF reach_notifying [OF assms] this] show ?thesis by simp
qed

lemma reach_processing:
  assumes "length d \<le> 1024" "d \<noteq> []"
  shows "reachable_sys handler u d (sys_at u (pb_init\<lparr>internalBuffer := d\<rparr>) (Some Worker) Processing Idle)"
proof -
  let ?at = "\<lambda>l w. sys_at u (pb_init\<lparr>internalBuffer := d\<rparr>) l w Idle"
  have "worker_step handler (?at None Relocking) (?at (Some Worker) Testing)"
    "worker_step handler (?at (Some Worker) Testing) (?at (Some Worker) Woken)"
    "worker_step handler (?at (Some Worker) Woken) (?at (Some Worker) Processing)"
    using reacquire [of "?at None Relocking" handler] pred_true [of "?at (Some Worker) Testing" handler]
      go_on [of "?at (Some Worker) Woken" handler] assms(2) by (simp_all add: sys_at_def)
  with reach_woken [OF assms(1)] show ?thesis by (metis reachable_worker)
qed

text \<open>From the nap back to the wait, when the queue is empty.\<close>

lemma nap_to_wait:
  "worker_step h (sys_at u b (Some Worker) Napping Idle) (sys_at u b None LoopTest Idle)"
  "worker_step h (sys_at u b None LoopTest Idle) (sys_at u b None Locking Idle)"
  "worker_step h (sys_at u b None Locking Idle) (sys_at u b (Some Worker) Testing Idle)"
  "internalBuffer b = [] \<Longrightarrow>
     worker_step h (sys_at u b (Some Worker) Testing Idle) (sys_at u b (Some Worker) Parking Idle)"
  "worker_step h (sys_at u b (Some Worker) Parking Idle) (sys_at u b None Blocked Idle)"
  using nap_over [of "sys_at u b (Some Worker) Napping Idle" h] loop_go [of "sys_at u b None LoopTest Idle" h]
    acquire [of "sys_at u b None Locking Idle" h] pred_false [of "sys_at u b (Some Worker) Testing Idle" h]
    block [of "sys_at u b (Some Worker) Parking Idle" h]
  by (simp_all add: sys_at_def)

text \<open>The worker takes the first packet of the stream out of the queue and calls the handler.\<close>

lemma first_call:
  assumes p: "sendable p" and small: "length (buildPacket p) \<le> 1024"
  obtains b where "internalBuffer b = []"
    "reachable_sys (Some log_packet) [] (buildPacket p)
       (sys_at [] (pb_init\<lparr>internalBuffer := buildPacket p\<rparr>) (Some Worker) Processing Idle)"
    "worker_step (Some log_packet)
       (sys_at [] (pb_init\<lparr>internalBuffer := buildPacket p\<rparr>) (Some Worker) Processing Idle)
       (sys_at [p] b (Some Worker) Napping Idle)"
proof -
  let ?in = "pb_init\<lparr>internalBuffer := buildPacket p\<rparr>"
  define b where "b = (with_header ?in)\<lparr>internalBuffer := [], hasReadHeader := False\<rparr>"
  have ne: "buildPacket p \<noteq> []"
    using length_buildPacket [of p] by (cases "p_isUDP p") (auto simp: packet_header_def)
  have pend: "pending ?in = buildPacket p @ []" by (simp add: pending_def pb_init_def)
  have "process_iteration (Some log_packet) (?in, []) = Inr (b, [p])"
    using iteration_refines [of ?in "Some log_packet" "[]"] p small
    by (simp only: pend next_frame_build) (simp add: queue_cap_def frame_of_def Packet_of_frame b_def)
  then have "worker_step (Some log_packet) (sys_at [] ?in (Some Worker) Processing Idle) (sys_at [p] b (Some Worker) Napping Idle)"
    using iterate [of "sys_at [] ?in (Some Worker) Processing Idle" "Some log_packet" b "[p]"]
    by (simp add: sys_at_def)
  with that [of b] reach_processing [OF small ne, of "Some log_packet" "[]"] show ?thesis by (simp add: b_def)
qed

text \<open>A whole round: the woken worker serves one packet and goes back to its wait.\<close>

lemma reach_served:
  assumes p: "sendable p" and small: "length (buildPacket p) \<le> 1024"
  obtains b where "internalBuffer b = []"
    "reachable_sys (Some log_packet) [] (buildPacket p) (sys_at [p] b None Blocked Idle)"
proof -
  obtain b where b: "internalBuffer b = []" and run: "reachable_sys (Some log_packet) [] (buildPacket p)
       (sys_at [] (pb_init\<lparr>internalBuffer := buildPacket p\<rparr>) (Some Worker) Processing Idle)"
    and call: "worker_step (Some log_packet)
       (sys_at [] (pb_init\<lparr>internalBuffer := buildPacket p\<rparr>) (Some Worker) Processing Idle)
       (sys_at [p] b (Some Worker) Napping Idle)"
    using first_call [OF assms] by blast
  note rounds = nap_to_wait [where h = "Some log_packet" and u = "[p]" and b = b]
  have "reachable_sys (Some log_packet) [] (buildPacket p) (sys_at [p] b None Blocked Idle)"
    by (rule reachable_worker [OF _ rounds(5)], rule reachable_worker [OF _ rounds(4) [OF b]],
        rule reachable_worker [OF _ rounds(3)], rule reachable_worker [OF _ rounds(2)],
        rule reachable_worker [OF _ rounds(1)], rule reachable_worker [OF run call])
  with that b show ?thesis by blast
qed

section \<open>Properties\<close>

text \<open>Mutual exclusion on the queue, in every reachable state of every schedule: while the worker
  tests the predicate, parks, runs the body (the handler's call included) or naps, no \<open>addData\<close>
  is in its critical section, and two calls of \<open>addData\<close> never are in it together.\<close>

theorem queue_mutual_exclusion:
  assumes "reachable_sys handler u fed s"
  shows "\<not> (holds_lock (wpc s) \<and> ppc s i = Pushing d) \<and>
    (ppc s i = Pushing d \<and> ppc s j = Pushing e \<longrightarrow> i = j)"
  using reachable_invs [OF assms] by (auto simp: lock_inv_def) (metis agent.inject option.inject)

theorem queue_mutual_exclusion_witness:
  "\<exists>s. reachable_sys None () [] s \<and> holds_lock (wpc s) \<and> ppc s 0 \<noteq> Pushing [1]"
  using queue_mutual_exclusion [OF reach_parking [of None "()"], of 0 "[1]"] reach_parking [of None "()"]
  by (intro exI [of _ "sys_at () pb_init (Some Worker) Parking Idle"]) (simp add: sys_at_def)

text \<open>No arrival is lost to a sleeping worker: in every reachable state in which the worker is
  blocked in its wait although bytes are queued, some \<open>addData\<close> is about to notify, and that
  notification wakes the worker.\<close>

theorem no_lost_arrival:
  assumes "reachable_sys handler u fed s" "wpc s = Blocked" "internalBuffer (buf s) \<noteq> []"
  shows "\<exists>i t. ppc s i = Notifying \<and> producer_step s [] t \<and> wpc t = Relocking"
proof -
  from reachable_invs [OF assms(1)] assms(2,3) obtain i where "ppc s i = Notifying"
    by (auto simp: wait_inv_def)
  with assms(2) producer_step.notify [of s i] show ?thesis
    by (intro exI [of _ i] exI [of _ "s\<lparr>ppc := (ppc s)(i := Idle), wpc := wake (wpc s)\<rparr>"])
      (simp add: wake_def)
qed

theorem no_lost_arrival_witness:
  "\<exists>s i t. reachable_sys None () [9] s \<and> ppc s i = Notifying \<and> producer_step s [] t \<and> wpc t = Relocking"
proof -
  have r: "reachable_sys None () [9] (sys_at () (pb_init\<lparr>internalBuffer := [9]\<rparr>) None Blocked Notifying)"
    by (rule reach_notifying) simp
  have "wpc (sys_at () (pb_init\<lparr>internalBuffer := [9]\<rparr>) None Blocked Notifying) = Blocked"
    "internalBuffer (buf (sys_at () (pb_init\<lparr>internalBuffer := [9]\<rparr>) None Blocked Notifying)) \<noteq> []"
    by (simp_all add: sys_at_def)
  from no_lost_arrival [OF r this] r show ?thesis by blast
qed

text \<open>C4: Every schedule of the worker, of any number of callers of \<open>addData\<close> and of the destructor is
  an interleaving of the sequential model: there is a sequence of arrivals and worker turns, with
  the bytes arriving in the order they were pushed, that ends in the same buffer and the same
  handler state.\<close>

theorem schedules_refine_sequential:
  assumes "reachable_sys handler u fed s"
  shows "\<exists>evs. fed_bytes pb_accepts evs = fed \<and>
    run_events pb_feed (worker_turn handler) evs (pb_init, u) = Inr (buf s, hstate s)"
  using assms by (rule schedule_linearises)

theorem schedules_refine_sequential_witness:
  "\<exists>evs. fed_bytes pb_accepts evs = [9] \<and>
     run_events pb_feed (worker_turn None) evs (pb_init, ()) = Inr (pb_init\<lparr>internalBuffer := [9]\<rparr>, ())"
proof -
  have r: "reachable_sys None () [9] (sys_at () (pb_init\<lparr>internalBuffer := [9]\<rparr>) None Blocked Notifying)"
    by (rule reach_notifying) simp
  from schedules_refine_sequential [OF r] show ?thesis by (simp add: sys_at_def)
qed

text \<open>Completeness at rest: when the worker is blocked in its wait and no \<open>addData\<close> still has to
  notify, the packets handed over are all the frames of all the bytes ever queued, whatever the
  schedule was.\<close>

theorem quiescent_complete:
  assumes "reachable_sys (Some log_packet) [] fed s" "length fed \<le> queue_cap"
    and "wpc s = Blocked" "\<forall>i. ppc s i \<noteq> Notifying"
  shows "frames_of next_frame fed = map frame_of (hstate s)"
  using schedule_prefix [OF assms(1,2)] sleeping_worker_idle [OF assms(1,3,4)]
  by (simp add: pb.frames_None)

theorem quiescent_complete_witness:
  "\<exists>p s. reachable_sys (Some log_packet) [] (buildPacket p) s \<and> hstate s = [p] \<and>
     frames_of next_frame (buildPacket p) = [(1, False, [5])]"
proof -
  obtain p where p: "Packet_TCP 1 [5] False = Inr p" by (simp add: Packet_TCP_def)
  have s: "sendable p" and len: "length (buildPacket p) = 5" and f: "frame_of p = (1, False, [5])"
    using p wf_Packet_TCP [OF p]
    by (auto simp: sendable_def result_simps length_buildPacket packet_header_def frame_of_def)
  obtain b where r: "reachable_sys (Some log_packet) [] (buildPacket p) (sys_at [p] b None Blocked Idle)"
    using reach_served [OF s] len by auto
  from quiescent_complete [OF r] r f len show ?thesis
    by (intro exI [of _ p] exI [of _ "sys_at [p] b None Blocked Idle"])
      (simp add: sys_at_def queue_cap_def)
qed

text \<open>The destructor never finishes before the worker: in every reachable state the flag is set
  exactly when the destructor has begun, and \<open>join\<close> has returned only if the worker has left its
  thread function.\<close>

theorem destructor_joins:
  assumes "reachable_sys handler u fed s"
  shows "(stopProcessing s \<longleftrightarrow> dpc s \<noteq> Alive) \<and> (dpc s = Destroyed \<longrightarrow> wpc s = Exited)"
  using reachable_dtor_inv [OF assms] by (simp add: dtor_inv_def)

theorem destructor_joins_witness: "\<exists>s. reachable_sys None () [] s \<and> \<not> stopProcessing s"
  using destructor_joins [OF reach_parking [of None "()"]] reach_parking [of None "()"]
  by (intro exI [of _ "sys_at () pb_init (Some Worker) Parking Idle"]) (simp add: sys_at_def)

text \<open>C30: The destructor can lose its wake-up. It sets the flag and notifies without holding the mutex,
  so both can fall between the worker's test of the predicate and its wait: a reachable state in
  which the destructor waits in \<open>join\<close>, the worker is blocked, no \<open>addData\<close> is running, and
  neither the worker nor the destructor has a step to take.\<close>

theorem shutdown_deadlock:
  "\<exists>s. reachable_sys handler u [] s \<and> stopProcessing s \<and> dpc s = Joining \<and> wpc s = Blocked \<and>
     (\<forall>i. ppc s i = Idle) \<and> \<not> (\<exists>t. worker_step handler s t) \<and> \<not> (\<exists>t. dtor_step s t)"
proof -
  let ?s0 = "sys_at u pb_init (Some Worker) Parking Idle"
  let ?s1 = "?s0\<lparr>stopProcessing := True, dpc := Stored\<rparr>"
  let ?s2 = "?s1\<lparr>wpc := wake (wpc ?s1), dpc := Joining\<rparr>"
  let ?s3 = "?s2\<lparr>wpc := Blocked, lock := None\<rparr>"
  have "reachable_sys handler u [] ?s1"
    by (rule reachable_dtor [OF reach_parking], rule store) (simp add: sys_at_def)
  then have "reachable_sys handler u [] ?s2"
    by (rule reachable_dtor, intro notify_all) simp
  then have "reachable_sys handler u [] ?s3"
    by (rule reachable_worker, intro block) (simp add: sys_at_def wake_def)
  moreover have "\<not> worker_step handler ?s3 t" "\<not> dtor_step ?s3 t" for t
    by (auto elim: worker_stepE dtor_stepE)
  ultimately show ?thesis
    by (intro exI [of _ ?s3]) (simp add: sys_at_def)
qed

end
