(* ===== verification/Buffer_Object.thy ===== *)
theory Buffer_Object
  imports Worker_Threads
begin

text \<open>
  The public class ProcessingBuffer of ProcessingBuffer.cpp around its Impl. Both have a destructor,
  and both set the flag, notify and join: the outer one runs first, then that of the Impl. The
  object with both destructors refines the system of Worker_Threads, whose destructor is the first
  to run; and for every state in which it waits, whether it can ever finish is decided by the
  worker's program counter alone.
\<close>

section \<open>The object\<close>

datatype outer_pc =
    Outer_Alive | Outer_Stored | Outer_Joining | Outer_Joined | Impl_Stored | Impl_Joining | Object_Destroyed

record 'u pbobject =
  pImpl :: "'u pbsys"
  opc :: outer_pc
  joinable :: bool

definition ProcessingBuffer :: "'u \<Rightarrow> 'u pbobject" where
  "ProcessingBuffer u = \<lparr>pImpl = pbsys_init u, opc = Outer_Alive, joinable = True\<rparr>"

definition o_addData :: "bytes \<Rightarrow> 'u pbobject \<Rightarrow> 'u pbobject result" where
  "o_addData data b = and_then (addData data (buf (pImpl b))) (\<lambda>pb. Inr (b\<lparr>pImpl := (pImpl b)\<lparr>buf := pb\<rparr>\<rparr>))"

definition o_at :: "'u pbobject \<Rightarrow> nat \<Rightarrow> byte result" where
  "o_at b index = pb_at (buf (pImpl b)) index"

definition o_bufferCount :: "'u pbobject \<Rightarrow> nat" where
  "o_bufferCount b = bufferCount (buf (pImpl b))"

text \<open>The outer destructor, and then that of the Impl.\<close>

inductive outer_step :: "'u pbobject \<Rightarrow> 'u pbobject \<Rightarrow> bool" where
  store: "opc b = Outer_Alive \<Longrightarrow>
     outer_step b (b\<lparr>pImpl := (pImpl b)\<lparr>stopProcessing := True\<rparr>, opc := Outer_Stored\<rparr>)"
| notify_all: "opc b = Outer_Stored \<Longrightarrow>
     outer_step b (b\<lparr>pImpl := (pImpl b)\<lparr>wpc := wake (wpc (pImpl b))\<rparr>,
       opc := (if joinable b then Outer_Joining else Outer_Joined)\<rparr>)"
| joined: "opc b = Outer_Joining \<Longrightarrow> wpc (pImpl b) = Exited \<Longrightarrow>
     outer_step b (b\<lparr>opc := Outer_Joined, joinable := False\<rparr>)"
| impl_store: "opc b = Outer_Joined \<Longrightarrow>
     outer_step b (b\<lparr>pImpl := (pImpl b)\<lparr>stopProcessing := True\<rparr>, opc := Impl_Stored\<rparr>)"
| impl_notify_all: "opc b = Impl_Stored \<Longrightarrow>
     outer_step b (b\<lparr>pImpl := (pImpl b)\<lparr>wpc := wake (wpc (pImpl b))\<rparr>,
       opc := (if joinable b then Impl_Joining else Object_Destroyed)\<rparr>)"
| impl_joined: "opc b = Impl_Joining \<Longrightarrow> wpc (pImpl b) = Exited \<Longrightarrow>
     outer_step b (b\<lparr>opc := Object_Destroyed, joinable := False\<rparr>)"

text \<open>The threads of the Impl: the worker, the callers of \<open>addData\<close>, and spurious wake-ups.\<close>

definition impl_step ::
  "(packet \<Rightarrow> 'u \<Rightarrow> 'u result) option \<Rightarrow> 'u pbsys \<Rightarrow> bytes \<Rightarrow> 'u pbsys \<Rightarrow> bool" where
  "impl_step handler s d t \<longleftrightarrow>
     producer_step s d t \<or> d = [] \<and> (worker_step handler s t \<or> spurious_step s t)"

inductive reachable_object ::
  "(packet \<Rightarrow> 'u \<Rightarrow> 'u result) option \<Rightarrow> 'u \<Rightarrow> bytes \<Rightarrow> 'u pbobject \<Rightarrow> bool"
  for handler u where
  start: "reachable_object handler u [] (ProcessingBuffer u)"
| impl: "reachable_object handler u fed b \<Longrightarrow> impl_step handler (pImpl b) d s \<Longrightarrow>
     reachable_object handler u (fed @ d) (b\<lparr>pImpl := s\<rparr>)"
| outer: "reachable_object handler u fed b \<Longrightarrow> outer_step b b' \<Longrightarrow> reachable_object handler u fed b'"

text \<open>What the worker and the destructor do when nobody else moves and no wait wakes up by itself.\<close>

inductive left_alone ::
  "(packet \<Rightarrow> 'u \<Rightarrow> 'u result) option \<Rightarrow> 'u pbobject \<Rightarrow> 'u pbobject \<Rightarrow> bool" for handler b where
  start: "left_alone handler b b"
| worker: "left_alone handler b b' \<Longrightarrow> worker_step handler (pImpl b') s \<Longrightarrow> left_alone handler b (b'\<lparr>pImpl := s\<rparr>)"
| outer: "left_alone handler b b' \<Longrightarrow> outer_step b' b'' \<Longrightarrow> left_alone handler b b''"

inductive_cases outer_stepE: "outer_step b b'"

section \<open>The refinement\<close>

fun abs_dpc :: "outer_pc \<Rightarrow> dtor_pc" where
  "abs_dpc Outer_Alive = Alive"
| "abs_dpc Outer_Stored = Stored"
| "abs_dpc Outer_Joining = Joining"
| "abs_dpc _ = Destroyed"

definition abs_object :: "'u pbobject \<Rightarrow> 'u pbsys" where
  "abs_object b = (pImpl b)\<lparr>dpc := abs_dpc (opc b)\<rparr>"

definition object_inv :: "'u pbobject \<Rightarrow> bool" where
  "object_inv b \<longleftrightarrow> dpc (pImpl b) = Alive \<and> opc b \<noteq> Impl_Joining \<and>
     (joinable b \<longleftrightarrow> opc b \<in> {Outer_Alive, Outer_Stored, Outer_Joining})"

text \<open>The threads of the Impl do not look at the destructor.\<close>

lemma worker_step_dpc: "worker_step handler s t \<Longrightarrow> worker_step handler (s\<lparr>dpc := x\<rparr>) (t\<lparr>dpc := x\<rparr>) \<and> dpc t = dpc s"
  by (erule worker_stepE) (auto simp: worker_step.simps)

lemma producer_step_dpc: "producer_step s d t \<Longrightarrow> producer_step (s\<lparr>dpc := x\<rparr>) d (t\<lparr>dpc := x\<rparr>) \<and> dpc t = dpc s"
  by (erule producer_stepE) (auto simp: producer_step.simps)

lemma spurious_step_dpc: "spurious_step s t \<Longrightarrow> spurious_step (s\<lparr>dpc := x\<rparr>) (t\<lparr>dpc := x\<rparr>) \<and> dpc t = dpc s"
  by (erule spurious_stepE) (auto simp: spurious_step.simps)

lemma impl_step_dpc:
  "impl_step handler s d t \<Longrightarrow> sys_step handler (s\<lparr>dpc := x\<rparr>) d (t\<lparr>dpc := x\<rparr>) \<and> dpc t = dpc s"
  unfolding impl_step_def sys_step_def using worker_step_dpc producer_step_dpc spurious_step_dpc by blast

text \<open>The first destructor takes the steps of the abstract one, the second takes none.\<close>

lemma outer_step_abs:
  assumes "outer_step b b'" "object_inv b" "dtor_inv (abs_object b)"
  shows "object_inv b' \<and> (dtor_step (abs_object b) (abs_object b') \<or> abs_object b' = abs_object b)"
  using assms(1)
proof cases
  case store
  then show ?thesis using assms(2) by (auto simp: object_inv_def abs_object_def dtor_step.simps)
next
  case notify_all
  then show ?thesis using assms(2) by (auto simp: object_inv_def abs_object_def dtor_step.simps)
next
  case joined
  then show ?thesis using assms(2) by (auto simp: object_inv_def abs_object_def dtor_step.simps)
next
  case impl_store
  then show ?thesis using assms(2,3) by (auto simp: object_inv_def abs_object_def dtor_inv_def)
next
  case impl_notify_all
  then show ?thesis using assms(2,3) by (auto simp: object_inv_def abs_object_def dtor_inv_def wake_def)
next
  case impl_joined
  then show ?thesis using assms(2) by (simp add: object_inv_def)
qed

lemma object_refines:
  "reachable_object handler u fed b \<Longrightarrow> object_inv b \<and> reachable_sys handler u fed (abs_object b)"
proof (induction rule: reachable_object.induct)
  case start
  have "abs_object (ProcessingBuffer u) = pbsys_init u"
    by (simp add: abs_object_def ProcessingBuffer_def pbsys_init_def)
  then show ?case
    using reachable_sys.start [of handler u] by (simp add: object_inv_def ProcessingBuffer_def pbsys_init_def)
next
  case (impl fed b d s)
  from impl_step_dpc [OF impl.hyps(2), of "abs_dpc (opc b)"] impl.IH show ?case
    by (auto simp: object_inv_def abs_object_def intro: reachable_sys.step)
next
  case (outer fed b b')
  from outer_step_abs [OF outer.hyps(2)] outer.IH reachable_dtor_inv [of handler u fed "abs_object b"]
  show ?case using reachable_dtor [of handler u fed "abs_object b" "abs_object b'"] by auto
qed

section \<open>Does the destructor finish\<close>

text \<open>A worker that will not leave: it waits or is about to, or an exception has left it or is about to.\<close>

definition hung :: "(packet \<Rightarrow> 'u \<Rightarrow> 'u result) option \<Rightarrow> 'u pbsys \<Rightarrow> bool" where
  "hung handler s \<longleftrightarrow> wpc s \<in> {Parking, Blocked} \<or> (\<exists>e. wpc s = Terminated e) \<or>
     wpc s = Processing \<and> (\<exists>e. process_iteration handler (buf s, hstate s) = Inl e)"

lemma hung_worker: "worker_step handler s t \<Longrightarrow> hung handler s \<Longrightarrow> hung handler t"
  by (erule worker_stepE) (auto simp: hung_def)

lemma hung_for_good:
  "left_alone handler b b' \<Longrightarrow> opc b = Outer_Joining \<Longrightarrow> hung handler (pImpl b) \<Longrightarrow>
     opc b' = Outer_Joining \<and> hung handler (pImpl b')"
proof (induction rule: left_alone.induct)
  case (worker b' s)
  then show ?case using hung_worker [OF worker.hyps(2)] by simp
next
  case (outer b' b'')
  then have "opc b' = Outer_Joining" "hung handler (pImpl b')" by simp_all
  with outer.hyps(2) show ?case by (auto simp: hung_def elim: outer_stepE)
qed simp

definition finishes :: "(packet \<Rightarrow> 'u \<Rightarrow> 'u result) option \<Rightarrow> 'u pbobject \<Rightarrow> bool" where
  "finishes handler b \<longleftrightarrow> (\<exists>b'. left_alone handler b b' \<and> opc b' = Object_Destroyed)"

lemma left_alone_trans: "left_alone handler b' b'' \<Longrightarrow> left_alone handler b b' \<Longrightarrow> left_alone handler b b''"
  by (induction rule: left_alone.induct) (auto intro: left_alone.worker left_alone.outer)

lemma finishes_outer: "outer_step b b' \<Longrightarrow> finishes handler b' \<Longrightarrow> finishes handler b"
  unfolding finishes_def using left_alone_trans left_alone.outer [OF left_alone.start] by blast

lemma finishes_worker: "worker_step handler (pImpl b) s \<Longrightarrow> finishes handler (b\<lparr>pImpl := s\<rparr>) \<Longrightarrow> finishes handler b"
  unfolding finishes_def using left_alone_trans left_alone.worker [OF left_alone.start] by blast

definition waiting_for :: "worker_pc \<Rightarrow> 'u pbobject \<Rightarrow> bool" where
  "waiting_for pc b \<longleftrightarrow> opc b = Outer_Joining \<and> joinable b \<and> stopProcessing (pImpl b) \<and> wpc (pImpl b) = pc"

lemma finishes_exited: "waiting_for Exited b \<Longrightarrow> finishes handler b"
proof -
  assume w: "waiting_for Exited b"
  let ?b1 = "b\<lparr>opc := Outer_Joined, joinable := False\<rparr>"
  let ?b2 = "?b1\<lparr>pImpl := (pImpl ?b1)\<lparr>stopProcessing := True\<rparr>, opc := Impl_Stored\<rparr>"
  let ?b3 = "?b2\<lparr>pImpl := (pImpl ?b2)\<lparr>wpc := wake (wpc (pImpl ?b2))\<rparr>, opc := Object_Destroyed\<rparr>"
  have steps: "outer_step b ?b1" "outer_step ?b1 ?b2"
    using w outer_step.joined [of b] outer_step.impl_store [of ?b1] by (simp_all add: waiting_for_def)
  have "outer_step ?b2 ?b3" using outer_step.impl_notify_all [of ?b2] by simp
  moreover have "finishes handler ?b3"
    unfolding finishes_def by (rule exI [of _ ?b3]) (simp add: left_alone.start)
  ultimately show ?thesis using steps finishes_outer by blast
qed

lemma finishes_step:
  assumes "waiting_for pc b" "worker_step handler (pImpl b) s" "wpc s = pc'" "stopProcessing s"
    and "\<And>b. waiting_for pc' b \<Longrightarrow> finishes handler b"
  shows "finishes handler b"
  using assms by (intro finishes_worker [OF assms(2)] assms(5)) (simp add: waiting_for_def)

lemma finishes_woken: "waiting_for Woken b \<Longrightarrow> finishes handler b"
  by (rule finishes_step [where pc = Woken, OF _ worker_step.break_out _ _ finishes_exited])
    (simp_all add: waiting_for_def)

lemma finishes_testing: "waiting_for Testing b \<Longrightarrow> finishes handler b"
  by (rule finishes_step [where pc = Testing, OF _ worker_step.pred_true _ _ finishes_woken])
    (simp_all add: waiting_for_def)

lemma finishes_locking: "waiting_for Locking b \<Longrightarrow> lock (pImpl b) = None \<Longrightarrow> finishes handler b"
  by (rule finishes_step [where pc = Locking, OF _ worker_step.acquire _ _ finishes_testing])
    (simp_all add: waiting_for_def)

lemma finishes_relocking: "waiting_for Relocking b \<Longrightarrow> lock (pImpl b) = None \<Longrightarrow> finishes handler b"
  by (rule finishes_step [where pc = Relocking, OF _ worker_step.reacquire _ _ finishes_testing])
    (simp_all add: waiting_for_def)

lemma finishes_looptest: "waiting_for LoopTest b \<Longrightarrow> finishes handler b"
  by (rule finishes_step [where pc = LoopTest, OF _ worker_step.loop_end _ _ finishes_exited])
    (simp_all add: waiting_for_def)

lemma finishes_napping: "waiting_for Napping b \<Longrightarrow> finishes handler b"
  by (rule finishes_step [where pc = Napping, OF _ worker_step.nap_over _ _ finishes_looptest])
    (simp_all add: waiting_for_def)

lemma finishes_processing:
  "waiting_for Processing b \<Longrightarrow> process_iteration handler (buf (pImpl b), hstate (pImpl b)) = Inr (pb, u) \<Longrightarrow>
     finishes handler b"
  by (rule finishes_step [where pc = Processing, OF _ worker_step.iterate _ _ finishes_napping])
    (simp_all add: waiting_for_def)

lemma not_hung_finishes:
  assumes "waiting_for pc b" "\<not> hung handler (pImpl b)" "lock_inv (pImpl b)" "\<forall>i. ppc (pImpl b) i = Idle"
  shows "finishes handler b"
proof -
  have free: "lock (pImpl b) = None" if "\<not> holds_lock pc"
  proof (rule ccontr)
    assume "lock (pImpl b) \<noteq> None"
    then obtain a where "lock (pImpl b) = Some a" by blast
    with that assms show False by (cases a) (auto simp: lock_inv_def waiting_for_def)
  qed
  have pc: "wpc (pImpl b) = pc" using assms(1) by (simp add: waiting_for_def)
  show ?thesis
  proof (cases pc)
    case Processing
    with assms(1,2) pc obtain pb u where "process_iteration handler (buf (pImpl b), hstate (pImpl b)) = Inr (pb, u)"
      by (cases "process_iteration handler (buf (pImpl b), hstate (pImpl b))") (auto simp: hung_def)
    with finishes_processing [of b handler pb u] assms(1) Processing show ?thesis by simp
  qed (use assms(1,2) pc free in \<open>auto simp: hung_def intro: finishes_looptest finishes_locking finishes_testing
    finishes_relocking finishes_woken finishes_napping finishes_exited\<close>)
qed

section \<open>Properties\<close>

text \<open>C24: Destroying a ProcessingBuffer. In every reachable state the object is in step with the system of its
  Impl and the destructor that runs first, so all that is shown of that system holds of the object;
  once the first destructor has joined the worker, that of the Impl changes nothing and waits for
  nobody. And whether the destructor, once it waits, can finish is decided by the worker's next
  action: it cannot exactly if the worker is in its wait or between its test and its wait, or has
  raised or is about to.\<close>

theorem buffer_destruction:
  assumes "reachable_object handler u fed b"
  shows "reachable_sys handler u fed (abs_object b) \<and>
    (opc b \<in> {Outer_Joined, Impl_Stored, Object_Destroyed} \<longrightarrow>
      wpc (pImpl b) = Exited \<and> (\<forall>b'. outer_step b b' \<longrightarrow> pImpl b' = pImpl b) \<and>
      (opc b \<noteq> Object_Destroyed \<longrightarrow> (\<exists>b'. outer_step b b'))) \<and>
    (opc b = Outer_Joining \<and> (\<forall>i. ppc (pImpl b) i = Idle) \<longrightarrow>
      ((\<exists>b'. left_alone handler b b' \<and> opc b' = Object_Destroyed) \<longleftrightarrow>
       \<not> (wpc (pImpl b) \<in> {Parking, Blocked} \<or> (\<exists>e. wpc (pImpl b) = Terminated e) \<or>
          wpc (pImpl b) = Processing \<and> (\<exists>e. process_iteration handler (buf (pImpl b), hstate (pImpl b)) = Inl e))))"
proof (intro conjI impI)
  from object_refines [OF assms] have inv: "object_inv b" and reach: "reachable_sys handler u fed (abs_object b)"
    by blast+
  show "reachable_sys handler u fed (abs_object b)" by (rule reach)
  have dtor: "dtor_inv (abs_object b)" by (rule reachable_dtor_inv [OF reach])
  {
    assume late: "opc b \<in> {Outer_Joined, Impl_Stored, Object_Destroyed}"
    with dtor have w: "wpc (pImpl b) = Exited" "stopProcessing (pImpl b)"
      by (auto simp: dtor_inv_def abs_object_def)
    then show "wpc (pImpl b) = Exited" by simp
    show "\<forall>b'. outer_step b b' \<longrightarrow> pImpl b' = pImpl b"
      using late w by (auto simp: wake_def elim: outer_stepE)
    assume "opc b \<noteq> Object_Destroyed"
    with late show "\<exists>b'. outer_step b b'" by (auto intro: outer_step.impl_store outer_step.impl_notify_all)
  }
  assume j: "opc b = Outer_Joining \<and> (\<forall>i. ppc (pImpl b) i = Idle)"
  have "lock_inv (pImpl b)" using reachable_invs [OF reach] by (simp add: lock_inv_def abs_object_def)
  moreover have "waiting_for (wpc (pImpl b)) b"
    using j inv dtor by (simp add: waiting_for_def object_inv_def dtor_inv_def abs_object_def)
  ultimately have "\<not> hung handler (pImpl b) \<Longrightarrow> finishes handler b" using not_hung_finishes j by blast
  then have "finishes handler b \<longleftrightarrow> \<not> hung handler (pImpl b)"
    using hung_for_good [of handler b] j unfolding finishes_def by fastforce
  then show "(\<exists>b'. left_alone handler b b' \<and> opc b' = Object_Destroyed) \<longleftrightarrow>
       \<not> (wpc (pImpl b) \<in> {Parking, Blocked} \<or> (\<exists>e. wpc (pImpl b) = Terminated e) \<or>
          wpc (pImpl b) = Processing \<and> (\<exists>e. process_iteration handler (buf (pImpl b), hstate (pImpl b)) = Inl e))"
    by (simp add: finishes_def hung_def)
qed

text \<open>The destructor runs as soon as the object is made.\<close>

lemma destroyed_at_once:
  "\<exists>b. reachable_object handler u [] b \<and> opc b = Outer_Joining \<and> wpc (pImpl b) = LoopTest \<and> (\<forall>i. ppc (pImpl b) i = Idle)"
proof -
  let ?b0 = "ProcessingBuffer u"
  let ?b1 = "?b0\<lparr>pImpl := (pImpl ?b0)\<lparr>stopProcessing := True\<rparr>, opc := Outer_Stored\<rparr>"
  let ?b2 = "?b1\<lparr>pImpl := (pImpl ?b1)\<lparr>wpc := wake (wpc (pImpl ?b1))\<rparr>, opc := Outer_Joining\<rparr>"
  have "outer_step ?b0 ?b1" by (rule outer_step.store) (simp add: ProcessingBuffer_def)
  moreover have "outer_step ?b1 ?b2" using outer_step.notify_all [of ?b1] by (simp add: ProcessingBuffer_def)
  ultimately have "reachable_object handler u [] ?b2"
    by (intro reachable_object.outer [of handler u "[]" ?b1 ?b2] reachable_object.outer [of handler u "[]" ?b0 ?b1]
        reachable_object.start)
  then show ?thesis by (intro exI [of _ ?b2]) (simp add: ProcessingBuffer_def pbsys_init_def wake_def)
qed

theorem buffer_destruction_witness:
  "\<exists>b b'. reachable_object (None :: (packet \<Rightarrow> unit \<Rightarrow> unit result) option) () [] b \<and> opc b = Outer_Joining \<and>
     left_alone None b b' \<and> opc b' = Object_Destroyed"
proof -
  from destroyed_at_once [of "None :: (packet \<Rightarrow> unit \<Rightarrow> unit result) option" "()"] obtain b where
    b: "reachable_object (None :: (packet \<Rightarrow> unit \<Rightarrow> unit result) option) () [] b" "opc b = Outer_Joining"
      "wpc (pImpl b) = LoopTest" "\<forall>i. ppc (pImpl b) i = Idle" by blast
  from buffer_destruction [OF b(1)] b(2-4) have "\<exists>b'. left_alone None b b' \<and> opc b' = Object_Destroyed" by simp
  with b show ?thesis by blast
qed

end
