(* ===== verification/Buffer_Tests.thy ===== *)
theory Buffer_Tests
  imports Processing_Buffer
begin

text \<open>
  The test suite of the repository, tests/ProcessingBufferTests.cpp, run against the model of the
  buffer. The worker runs beside each test, so a test has one verdict for every number of turns the
  worker takes between two of its statements.
\<close>

section \<open>The tests\<close>

text \<open>The buffer and \<open>eventFired\<close>; \<open>turns handler n\<close> are n turns of the worker.\<close>

definition turns :: "(packet \<Rightarrow> bool \<Rightarrow> bool result) option \<Rightarrow> nat \<Rightarrow> procbuf \<times> bool \<Rightarrow> (procbuf \<times> bool) result" where
  "turns handler n su = run_events pb_feed (worker_turn handler) (replicate n Work) su"

definition fire_event :: "packet \<Rightarrow> bool \<Rightarrow> bool result" where
  "fire_event p eventFired = Inr True"

text \<open>An assertion that does not hold, or an exception, ends a test as failed.\<close>

definition assert_eq :: "'a \<Rightarrow> 'a result \<Rightarrow> bool" where
  "assert_eq expected r = (case r of Inl e \<Rightarrow> False | Inr x \<Rightarrow> x = expected)"

fun check_bytes :: "(nat \<times> byte) list \<Rightarrow> nat list \<Rightarrow> procbuf \<times> bool \<Rightarrow> bool" where
  "check_bytes ((i, b) # es) (n # ns) su =
     (case turns None n su of
        Inl e \<Rightarrow> False
      | Inr su \<Rightarrow> assert_eq b (pb_at (fst su) i) \<and> check_bytes es ns su)"
| "check_bytes es ns su = True"

text \<open>\<open>n\<close> turns before \<open>bufferCount\<close>, then those of \<open>ns\<close> before each of the four index expressions.\<close>

definition TestAddingData :: "nat \<Rightarrow> nat list \<Rightarrow> bool" where
  "TestAddingData n ns =
     (let data = [1, 2, length_low 9, length_high 9]
      in case and_then (addData data pb_init) (\<lambda>pb. turns None n (pb, False)) of
           Inl e \<Rightarrow> False
         | Inr su \<Rightarrow> bufferCount (fst su) = 4 \<and>
             check_bytes [(0, data ! 0), (1, data ! 1), (2, data ! 2), (3, data ! 3)] ns su)"

definition TestAddingTooMuchData :: "nat \<Rightarrow> bool" where
  "TestAddingTooMuchData n =
     (case turns None n (pb_init, False) of
        Inl e \<Rightarrow> False
      | Inr su \<Rightarrow> (case addData (replicate (MAX_PACKET_SIZE + 1) 0) (fst su) of
          Inl (Overflow_error m) \<Rightarrow> True | _ \<Rightarrow> False))"

text \<open>
  \<open>n\<close> turns before the first expectation, and \<open>m\<close> from the second \<open>addData\<close> to the end of the polling.
\<close>

definition TestProcessingPacket :: "nat \<Rightarrow> nat \<Rightarrow> bool" where
  "TestProcessingPacket n m =
     (let data = [1, 0, length_low 9, length_high 9, 5, 6, 7]; handler = Some fire_event
      in case and_then (addData data pb_init) (\<lambda>pb. turns handler n (pb, False)) of
           Inl e \<Rightarrow> False
         | Inr (pb, eventFired) \<Rightarrow> \<not> eventFired \<and>
             (case and_then (addData [8, 9, 10] pb) (\<lambda>pb. turns handler m (pb, eventFired)) of
                Inl e \<Rightarrow> False
              | Inr (pb, eventFired) \<Rightarrow> eventFired))"

section \<open>Lemmas\<close>

lemma turns_0 [simp]: "turns handler 0 su = Inr su"
  by (simp add: turns_def)

lemma turns_Suc: "turns handler (Suc n) su = and_then (worker_turn handler su) (turns handler n)"
  by (simp add: turns_def [abs_def])

lemma turns_stay: "worker_turn handler su = Inr su \<Longrightarrow> turns handler n su = Inr su"
  by (induction n) (simp_all add: turns_Suc)

lemma bytes_of_9 [simp]: "length_low 9 = 9" "length_high 9 = 0" "combine_length 9 0 = 9" "payload_size 9 = 5"
  by (simp_all add: length_low_def length_high_def combine_length_def payload_size_eq)

text \<open>Four bytes without a payload: the first turn reads the header and empties the queue.\<close>

abbreviation header_queued :: procbuf where
  "header_queued \<equiv> pb_init\<lparr>internalBuffer := [1, 2, 9, 0]\<rparr>"

abbreviation header_taken :: procbuf where
  "header_taken \<equiv> \<lparr>internalBuffer = [], hasReadHeader = True, currentID = 1, isCompressed = True, currentLength = 9\<rparr>"

lemma header_turns: "turns None n (header_queued, u) = Inr (if n = 0 then header_queued else header_taken, u)"
proof (cases n)
  case (Suc m)
  have "worker_turn None (header_queued, u) = Inr (header_taken, u)"
    by (simp add: worker_turn_def process_iteration_def take_payload_def with_header_def pb_init_def readHeader_def)
  moreover have "turns None m (header_taken, u) = Inr (header_taken, u)"
    by (rule turns_stay) (simp add: worker_turn_def)
  ultimately show ?thesis using Suc by (simp add: turns_Suc)
qed simp

lemma nothing_to_index: "check_bytes (e # es) (n # ns) (header_taken, u) = False"
proof -
  have "turns None n (header_taken, u) = Inr (header_taken, u)" by (rule turns_stay) (simp add: worker_turn_def)
  then show ?thesis by (cases e) (simp add: assert_eq_def pb_at_eq)
qed

lemma check_next:
  "check_bytes (e # es) (n # ns) (header_queued, u) \<longleftrightarrow>
     n = 0 \<and> fst e < 4 \<and> snd e = [1, 2, 9, 0] ! fst e \<and> check_bytes es ns (header_queued, u)"
  by (cases e; cases "n = 0")
    (auto simp: header_turns assert_eq_def pb_at_eq)

text \<open>A packet of which three bytes are missing, and the same packet with one byte more than it has.\<close>

abbreviation first_part :: procbuf where
  "first_part \<equiv> pb_init\<lparr>internalBuffer := [1, 0, 9, 0, 5, 6, 7]\<rparr>"

abbreviation part_read :: procbuf where
  "part_read \<equiv> \<lparr>internalBuffer = [5, 6, 7], hasReadHeader = True, currentID = 1, isCompressed = False, currentLength = 9\<rparr>"

abbreviation one_left :: procbuf where
  "one_left \<equiv> \<lparr>internalBuffer = [10], hasReadHeader = False, currentID = 1, isCompressed = False, currentLength = 9\<rparr>"

lemma part_turns: "turns (Some fire_event) n (first_part, u) = Inr (if n = 0 then first_part else part_read, u)"
proof (cases n)
  case (Suc m)
  have "worker_turn (Some fire_event) (first_part, u) = Inr (part_read, u)"
    by (simp add: worker_turn_def process_iteration_def take_payload_def with_header_def pb_init_def readHeader_def)
  moreover have "turns (Some fire_event) m (part_read, u) = Inr (part_read, u)"
    by (rule turns_stay) (simp add: worker_turn_def process_iteration_def take_payload_def with_header_def)
  ultimately show ?thesis using Suc by (simp add: turns_Suc)
qed simp

lemma packet_turns:
  assumes "pb = first_part\<lparr>internalBuffer := [1, 0, 9, 0, 5, 6, 7, 8, 9, 10]\<rparr> \<or> pb = part_read\<lparr>internalBuffer := [5, 6, 7, 8, 9, 10]\<rparr>"
  shows "turns (Some fire_event) n (pb, u) = Inr (if n = 0 then (pb, u) else (one_left, True))"
proof (cases n)
  case (Suc m)
  have "with_header pb = part_read\<lparr>internalBuffer := [5, 6, 7, 8, 9, 10]\<rparr>" "internalBuffer pb \<noteq> []"
    using assms by (auto simp: with_header_def pb_init_def readHeader_def)
  then have "worker_turn (Some fire_event) (pb, u) = Inr (one_left, True)"
    using fill_payload_eq [of 5 "[5, 6, 7, 8, 9, 10]"]
    by (simp add: worker_turn_def process_iteration_def take_payload_def Packet_TCP_def call_handler_def fire_event_def)
  moreover have "turns (Some fire_event) m (one_left, True) = Inr (one_left, True)"
    by (rule turns_stay) (simp add: worker_turn_def process_iteration_def take_payload_def with_header_def)
  ultimately show ?thesis using Suc by (simp add: turns_Suc)
qed simp

section \<open>Properties\<close>


end
