(* ===== verification/Client_Threads.thy ===== *)
theory Client_Threads
  imports Network_Client
begin

text \<open>
  The threads of one client, one rule per atomic action: the thread that checks for missed
  heartbeats, the thread that sends them, the buffer's worker inside the packet handler, and the
  caller that stops both threads (the end of \<open>disconnectAsync\<close>; the destructor does the same without
  the last assignment). They share the client's fields, \<open>aliveMutex\<close> and \<open>heartbeatsMutex\<close>. The
  invariant says who holds which mutex and what a join has established; a measure shows that a
  caller outside the handlers can always get to the end. The rules refine the atomic rounds of
  Network_Client.
\<close>

section \<open>State\<close>

datatype ct_agent = Checker | HandlerThread

text \<open>
  Checker: the loop's test, the sleep, waiting for \<open>heartbeatsMutex\<close>, holding it, the comparison,
  waiting for \<open>aliveMutex\<close>, holding it, and the call of the connection-lost handler.
\<close>

datatype check_pc =
    CheckLoop | CheckSleep | CheckLockBeats | CheckCount | CheckCompare | CheckLockAlive | CheckMark
  | CheckReport | CheckDone | CheckTerminated exn

datatype send_pc = SendLoop | SendBody | SendSleep | SendDone | SendTerminated exn

text \<open>
  Worker in the handler: waiting for \<open>aliveMutex\<close>, holding it, waiting for \<open>heartbeatsMutex\<close>, holding
  both, about to parse, and in the heartbeat handler of the user, still holding both.
\<close>

datatype handler_pc =
    HandlerIdle | HandlerLockAlive packet | HandlerAlive packet | HandlerLockBeats packet
  | HandlerClear packet | HandlerParse packet | HandlerCallback | HandlerTerminated exn

datatype closer_pc =
    CloserIdle | CloserStopCheck | CloserJoinCheck | CloserStopSend | CloserJoinSend | CloserFinish
  | CloserDone

text \<open>Where the closing call is made: on a thread of the user, or inside the heartbeat handler.\<close>

datatype closer_place = Outside | InCallback

record ctsys =
  cl :: nclient
  aliveMutex :: "ct_agent option"
  heartbeatsMutex :: "ct_agent option"
  cpc :: check_pc
  spc :: send_pc
  hpc :: handler_pc
  xpc :: closer_pc

definition ct_init :: "nclient \<Rightarrow> ctsys" where
  "ct_init nc = \<lparr>cl = nc, aliveMutex = None, heartbeatsMutex = None, cpc = CheckLoop, spc = SendLoop,
     hpc = HandlerIdle, xpc = CloserIdle\<rparr>"

text \<open>The process ends when an exception leaves a thread.\<close>

definition process_runs :: "ctsys \<Rightarrow> bool" where
  "process_runs s \<longleftrightarrow>
     (case cpc s of CheckTerminated e \<Rightarrow> False | _ \<Rightarrow> True) \<and>
     (case spc s of SendTerminated e \<Rightarrow> False | _ \<Rightarrow> True) \<and>
     (case hpc s of HandlerTerminated e \<Rightarrow> False | _ \<Rightarrow> True)"

section \<open>Steps\<close>

inductive check_step :: "ctsys \<Rightarrow> ctsys \<Rightarrow> bool" where
  loop_go: "cpc s = CheckLoop \<Longrightarrow> \<not> stopCheckMissedHeartbeats (cl s) \<Longrightarrow>
     check_step s (s\<lparr>cpc := CheckSleep\<rparr>)"
| loop_end: "cpc s = CheckLoop \<Longrightarrow> stopCheckMissedHeartbeats (cl s) \<Longrightarrow>
     check_step s (s\<lparr>cpc := CheckDone\<rparr>)"
| sleep: "cpc s = CheckSleep \<Longrightarrow> check_step s (s\<lparr>cpc := CheckLockBeats\<rparr>)"
| lock_beats: "cpc s = CheckLockBeats \<Longrightarrow> heartbeatsMutex s = None \<Longrightarrow>
     check_step s (s\<lparr>cpc := CheckCount, heartbeatsMutex := Some Checker\<rparr>)"
| count: "cpc s = CheckCount \<Longrightarrow>
     check_step s (s\<lparr>cpc := CheckCompare, heartbeatsMutex := None,
       cl := (cl s)\<lparr>missedHeartbeats := missedHeartbeats (cl s) + 1\<rparr>\<rparr>)"
| compare_ok: "cpc s = CheckCompare \<Longrightarrow> \<not> sint (missedHeartbeats (cl s)) > maxMissedHeartbeats \<Longrightarrow>
     check_step s (s\<lparr>cpc := CheckLoop\<rparr>)"
| compare_lost: "cpc s = CheckCompare \<Longrightarrow> sint (missedHeartbeats (cl s)) > maxMissedHeartbeats \<Longrightarrow>
     check_step s (s\<lparr>cpc := CheckLockAlive\<rparr>)"
| lock_alive: "cpc s = CheckLockAlive \<Longrightarrow> aliveMutex s = None \<Longrightarrow>
     check_step s (s\<lparr>cpc := CheckMark, aliveMutex := Some Checker\<rparr>)"
| mark: "cpc s = CheckMark \<Longrightarrow>
     check_step s (s\<lparr>cpc := CheckReport, aliveMutex := None, cl := (cl s)\<lparr>isAlive := False\<rparr>\<rparr>)"
| report: "cpc s = CheckReport \<Longrightarrow> fire_lost (cl s) = Inr nc \<Longrightarrow>
     check_step s (s\<lparr>cpc := CheckLoop, cl := nc\<rparr>)"
| report_raises: "cpc s = CheckReport \<Longrightarrow> fire_lost (cl s) = Inl e \<Longrightarrow>
     check_step s (s\<lparr>cpc := CheckTerminated e\<rparr>)"

inductive send_step :: "int \<Rightarrow> 'z codec \<Rightarrow> ctsys \<Rightarrow> ctsys \<Rightarrow> bool" for tpm deflater where
  loop_go: "spc s = SendLoop \<Longrightarrow> \<not> stopSendingHeartbeats (cl s) \<Longrightarrow>
     send_step tpm deflater s (s\<lparr>spc := SendBody\<rparr>)"
| loop_end: "spc s = SendLoop \<Longrightarrow> stopSendingHeartbeats (cl s) \<Longrightarrow>
     send_step tpm deflater s (s\<lparr>spc := SendDone\<rparr>)"
| body: "spc s = SendBody \<Longrightarrow> sendHeartbeat_iteration tpm deflater clock (cl s) = Inr nc \<Longrightarrow>
     send_step tpm deflater s (s\<lparr>spc := SendSleep, cl := nc\<rparr>)"
| body_raises: "spc s = SendBody \<Longrightarrow> sendHeartbeat_iteration tpm deflater clock (cl s) = Inl e \<Longrightarrow>
     send_step tpm deflater s (s\<lparr>spc := SendTerminated e\<rparr>)"
| wake: "spc s = SendSleep \<Longrightarrow> send_step tpm deflater s (s\<lparr>spc := SendLoop\<rparr>)"

text \<open>What the handler does with a heartbeat once it holds both mutexes and has cleared the counter.\<close>

definition heartbeat_rtt :: "int \<Rightarrow> int \<Rightarrow> packet \<Rightarrow> nclient \<Rightarrow> nclient result" where
  "heartbeat_rtt tpm now packet nc =
     and_then (hb_byteArrayToObject tpm now (getData packet)) (\<lambda>hb.
       and_then (checked_i64 (now - getSentTimestamp hb)) (\<lambda>elapsed.
         and_then (checked_i64 (elapsed sdiv tpm + getTimeSinceLast hb)) (\<lambda>rtt.
           let nc = nc\<lparr>lastRTT := word_of_int rtt\<rparr>
           in fire (onReceivedHeartbeat nc) HeartbeatReceived nc)))"

text \<open>Both lock_guards live to the end of the branch, so the user's handler runs under both mutexes.\<close>

inductive handler_step ::
  "int \<Rightarrow> 'y codec \<Rightarrow> closer_place \<Rightarrow> ctsys \<Rightarrow> ctsys \<Rightarrow> bool" for tpm inflater place where
  start: "hpc s = HandlerIdle \<Longrightarrow> getID p = parlo_id Heartbeat \<Longrightarrow>
     handler_step tpm inflater place s (s\<lparr>hpc := HandlerLockAlive p\<rparr>)"
| lock_alive: "hpc s = HandlerLockAlive p \<Longrightarrow> aliveMutex s = None \<Longrightarrow>
     handler_step tpm inflater place s (s\<lparr>hpc := HandlerAlive p, aliveMutex := Some HandlerThread\<rparr>)"
| set_alive: "hpc s = HandlerAlive p \<Longrightarrow>
     handler_step tpm inflater place s (s\<lparr>hpc := HandlerLockBeats p, cl := (cl s)\<lparr>isAlive := True\<rparr>\<rparr>)"
| lock_beats: "hpc s = HandlerLockBeats p \<Longrightarrow> heartbeatsMutex s = None \<Longrightarrow>
     handler_step tpm inflater place s (s\<lparr>hpc := HandlerClear p, heartbeatsMutex := Some HandlerThread\<rparr>)"
| clear: "hpc s = HandlerClear p \<Longrightarrow>
     handler_step tpm inflater place s (s\<lparr>hpc := HandlerParse p, cl := (cl s)\<lparr>missedHeartbeats := 0\<rparr>\<rparr>)"
| parse: "hpc s = HandlerParse p \<Longrightarrow> heartbeat_rtt tpm now p (cl s) = Inr nc \<Longrightarrow>
     handler_step tpm inflater place s (s\<lparr>hpc := HandlerCallback, cl := nc\<rparr>)"
| parse_raises: "hpc s = HandlerParse p \<Longrightarrow> heartbeat_rtt tpm now p (cl s) = Inl e \<Longrightarrow>
     handler_step tpm inflater place s (s\<lparr>hpc := HandlerTerminated e\<rparr>)"
| release: "hpc s = HandlerCallback \<Longrightarrow> place = InCallback \<longrightarrow> xpc s \<in> {CloserIdle, CloserDone} \<Longrightarrow>
     handler_step tpm inflater place s (s\<lparr>hpc := HandlerIdle, aliveMutex := None, heartbeatsMutex := None\<rparr>)"
| other: "hpc s = HandlerIdle \<Longrightarrow> getID p \<noteq> parlo_id Heartbeat \<Longrightarrow>
     on_packet tpm now inflater p (cl s) = Inr nc \<Longrightarrow>
     handler_step tpm inflater place s (s\<lparr>cl := nc\<rparr>)"
| other_raises: "hpc s = HandlerIdle \<Longrightarrow> getID p \<noteq> parlo_id Heartbeat \<Longrightarrow>
     on_packet tpm now inflater p (cl s) = Inl e \<Longrightarrow>
     handler_step tpm inflater place s (s\<lparr>hpc := HandlerTerminated e\<rparr>)"

inductive closer_step :: "closer_place \<Rightarrow> ctsys \<Rightarrow> ctsys \<Rightarrow> bool" for place where
  call: "xpc s = CloserIdle \<Longrightarrow>
     place = InCallback \<longrightarrow> hpc s = HandlerCallback \<and> onReceivedHeartbeat (cl s) \<Longrightarrow>
     closer_step place s (s\<lparr>xpc := CloserStopCheck\<rparr>)"
| stop_check: "xpc s = CloserStopCheck \<Longrightarrow> \<not> stopCheckMissedHeartbeats (cl s) \<Longrightarrow>
     closer_step place s (s\<lparr>cl := (cl s)\<lparr>stopCheckMissedHeartbeats := True\<rparr>,
       xpc := (if heartbeatCheckThread (cl s) then CloserJoinCheck else CloserStopSend)\<rparr>)"
| skip_check: "xpc s = CloserStopCheck \<Longrightarrow> stopCheckMissedHeartbeats (cl s) \<Longrightarrow>
     closer_step place s (s\<lparr>xpc := CloserStopSend\<rparr>)"
| joined_check: "xpc s = CloserJoinCheck \<Longrightarrow> cpc s = CheckDone \<Longrightarrow>
     closer_step place s (s\<lparr>cl := (cl s)\<lparr>heartbeatCheckThread := False\<rparr>, xpc := CloserStopSend\<rparr>)"
| stop_send: "xpc s = CloserStopSend \<Longrightarrow> \<not> stopSendingHeartbeats (cl s) \<Longrightarrow>
     closer_step place s (s\<lparr>cl := (cl s)\<lparr>stopSendingHeartbeats := True\<rparr>,
       xpc := (if sendHeartbeatsThread (cl s) then CloserJoinSend else CloserFinish)\<rparr>)"
| skip_send: "xpc s = CloserStopSend \<Longrightarrow> stopSendingHeartbeats (cl s) \<Longrightarrow>
     closer_step place s (s\<lparr>xpc := CloserFinish\<rparr>)"
| joined_send: "xpc s = CloserJoinSend \<Longrightarrow> spc s = SendDone \<Longrightarrow>
     closer_step place s (s\<lparr>cl := (cl s)\<lparr>sendHeartbeatsThread := False\<rparr>, xpc := CloserFinish\<rparr>)"
| finish: "xpc s = CloserFinish \<Longrightarrow>
     closer_step place s (s\<lparr>cl := (cl s)\<lparr>connected := False\<rparr>, xpc := CloserDone\<rparr>)"

definition ct_step ::
  "int \<Rightarrow> 'z codec \<Rightarrow> 'y codec \<Rightarrow> closer_place \<Rightarrow> ctsys \<Rightarrow> ctsys \<Rightarrow> bool" where
  "ct_step tpm deflater inflater place s t \<longleftrightarrow> process_runs s \<and>
     (check_step s t \<or> send_step tpm deflater s t \<or> handler_step tpm inflater place s t \<or> closer_step place s t)"

inductive ct_steps ::
  "int \<Rightarrow> 'z codec \<Rightarrow> 'y codec \<Rightarrow> closer_place \<Rightarrow> ctsys \<Rightarrow> ctsys \<Rightarrow> bool"
  for tpm deflater inflater place s where
  start: "ct_steps tpm deflater inflater place s s"
| step: "ct_steps tpm deflater inflater place s t \<Longrightarrow> ct_step tpm deflater inflater place t u \<Longrightarrow>
     ct_steps tpm deflater inflater place s u"

text \<open>Both threads have been started and nobody has stopped them.\<close>

definition threads_started :: "nclient \<Rightarrow> bool" where
  "threads_started nc \<longleftrightarrow> heartbeatCheckThread nc \<and> sendHeartbeatsThread nc \<and>
     \<not> stopCheckMissedHeartbeats nc \<and> \<not> stopSendingHeartbeats nc"

inductive_cases check_stepE: "check_step s t"
inductive_cases send_stepE: "send_step tpm deflater s t"
inductive_cases handler_stepE: "handler_step tpm inflater place s t"
inductive_cases closer_stepE: "closer_step place s t"

section \<open>The rounds of Network_Client\<close>

lemma on_heartbeat_split:
  "on_heartbeat tpm now p nc = heartbeat_rtt tpm now p (nc\<lparr>isAlive := True, missedHeartbeats := 0\<rparr>)"
  by (simp add: on_heartbeat_def heartbeat_rtt_def Let_def)

text \<open>A round of the checker that nobody interrupts is \<open>check_iteration\<close>.\<close>

lemma ct_steps_one: "ct_step tpm deflater inflater place s t \<Longrightarrow> ct_steps tpm deflater inflater place s t"
  by (rule ct_steps.step [OF ct_steps.start])

lemma ct_steps_trans:
  assumes "ct_steps tpm deflater inflater place s t" "ct_steps tpm deflater inflater place t u"
  shows "ct_steps tpm deflater inflater place s u"
  using assms(2,1) by (induction rule: ct_steps.induct) (auto intro: ct_steps.step)

lemma check_runs:
  "process_runs s \<Longrightarrow> check_step s t \<Longrightarrow> ct_steps tpm deflater inflater place s t"
  by (rule ct_steps_one) (simp add: ct_step_def)

lemma handler_runs:
  "process_runs s \<Longrightarrow> handler_step tpm inflater place s t \<Longrightarrow> ct_steps tpm deflater inflater place s t"
  by (rule ct_steps_one) (simp add: ct_step_def)

lemma process_runs_update [simp]:
  "process_runs (s\<lparr>cl := nc\<rparr>) = process_runs s" "process_runs (s\<lparr>xpc := x\<rparr>) = process_runs s"
  "process_runs (s\<lparr>aliveMutex := m\<rparr>) = process_runs s" "process_runs (s\<lparr>heartbeatsMutex := m\<rparr>) = process_runs s"
  by (simp_all add: process_runs_def)

lemma process_runs_pc:
  "process_runs s \<Longrightarrow> \<forall>e. c \<noteq> CheckTerminated e \<Longrightarrow> process_runs (s\<lparr>cpc := c\<rparr>)"
  "process_runs s \<Longrightarrow> \<forall>e. h \<noteq> HandlerTerminated e \<Longrightarrow> process_runs (s\<lparr>hpc := h\<rparr>)"
  "process_runs s \<Longrightarrow> \<forall>e. p \<noteq> SendTerminated e \<Longrightarrow> process_runs (s\<lparr>spc := p\<rparr>)"
  by (auto simp: process_runs_def split: check_pc.splits send_pc.splits handler_pc.splits)

lemma check_step_eq: "check_step s t \<Longrightarrow> t = u \<Longrightarrow> check_step s u"
  by simp

lemma check_round:
  assumes run: "process_runs s" and pc: "cpc s = CheckLockBeats"
    and free: "aliveMutex s = None" "heartbeatsMutex s = None"
  shows "ct_steps tpm deflater inflater place s
    (case check_iteration (cl s) of
       Inr nc \<Rightarrow> s\<lparr>cl := nc, cpc := CheckLoop\<rparr>
     | Inl e \<Rightarrow> s\<lparr>cl := (cl s)\<lparr>missedHeartbeats := missedHeartbeats (cl s) + 1, isAlive := False\<rparr>,
         cpc := CheckTerminated e\<rparr>)" (is "ct_steps _ _ _ _ _ ?end")
proof -
  note steps = ct_steps.step [OF _ ct_step_def [THEN iffD2, OF conjI, OF _ disjI1]]
  let ?nc = "(cl s)\<lparr>missedHeartbeats := missedHeartbeats (cl s) + 1\<rparr>"
  let ?lost = "?nc\<lparr>isAlive := False\<rparr>"
  have same: "s\<lparr>heartbeatsMutex := None\<rparr> = s" "s\<lparr>aliveMutex := None\<rparr> = s"
    using free by (cases s; simp)+
  let ?c = "s\<lparr>cpc := CheckCompare, heartbeatsMutex := None, cl := ?nc\<rparr>"
  let ?s1 = "s\<lparr>cpc := CheckCount, heartbeatsMutex := Some Checker\<rparr>"
  have "ct_steps tpm deflater inflater place s ?s1"
    by (rule steps [OF ct_steps.start run check_step.lock_beats [OF pc free(2)]])
  moreover have "process_runs ?s1" using run by (simp add: process_runs_pc)
  moreover have "check_step ?s1 ?c"
    by (rule check_step_eq [OF check_step.count]) simp_all
  ultimately have cmp: "ct_steps tpm deflater inflater place s ?c" by (rule steps)
  have run_c: "process_runs ?c" using run by (simp add: process_runs_pc)
  show ?thesis
  proof (cases "sint (missedHeartbeats ?nc) > maxMissedHeartbeats")
    case False
    have "ct_steps tpm deflater inflater place s (?c\<lparr>cpc := CheckLoop\<rparr>)"
      by (rule steps [OF cmp run_c check_step.compare_ok]) (use False in simp_all)
    with False show ?thesis by (simp add: check_iteration_def same)
  next
    case True
    let ?l = "?c\<lparr>cpc := CheckLockAlive\<rparr>"
    let ?m = "?l\<lparr>cpc := CheckMark, aliveMutex := Some Checker\<rparr>"
    let ?r = "s\<lparr>heartbeatsMutex := None, cpc := CheckReport, aliveMutex := None, cl := ?lost\<rparr>"
    have "ct_steps tpm deflater inflater place s ?l"
      by (rule steps [OF cmp run_c check_step.compare_lost]) (use True in simp_all)
    moreover have "process_runs ?l" "process_runs ?m" "process_runs ?r"
      using run by (simp_all add: process_runs_pc)
    moreover have "check_step ?l ?m" by (rule check_step.lock_alive) (use free in simp_all)
    moreover have "check_step ?m ?r" by (rule check_step_eq [OF check_step.mark]) simp_all
    ultimately have rep: "ct_steps tpm deflater inflater place s ?r" and run_r: "process_runs ?r"
      by (blast intro: steps)+
    show ?thesis
    proof (cases "fire_lost ?lost")
      case (Inl e)
      have "ct_steps tpm deflater inflater place s (?r\<lparr>cpc := CheckTerminated e\<rparr>)"
        by (rule steps [OF rep run_r check_step.report_raises]) (use Inl in simp_all)
      moreover have "?r\<lparr>cpc := CheckTerminated e\<rparr> = s\<lparr>cl := ?lost, cpc := CheckTerminated e\<rparr>"
        using free by (cases s) simp
      ultimately show ?thesis using True Inl by (simp add: check_iteration_def Let_def)
    next
      case (Inr nc)
      have "ct_steps tpm deflater inflater place s (?r\<lparr>cpc := CheckLoop, cl := nc\<rparr>)"
        by (rule steps [OF rep run_r check_step.report]) (use Inr in simp_all)
      moreover have "?r\<lparr>cpc := CheckLoop, cl := nc\<rparr> = s\<lparr>cl := nc, cpc := CheckLoop\<rparr>"
        using free by (cases s) simp
      ultimately show ?thesis using True Inr by (simp add: check_iteration_def Let_def)
    qed
  qed
qed

section \<open>What the threads leave alone\<close>

definition same_flags :: "nclient \<Rightarrow> nclient \<Rightarrow> bool" where
  "same_flags nc nc' \<longleftrightarrow>
     stopCheckMissedHeartbeats nc' = stopCheckMissedHeartbeats nc \<and>
     stopSendingHeartbeats nc' = stopSendingHeartbeats nc \<and>
     heartbeatCheckThread nc' = heartbeatCheckThread nc \<and>
     sendHeartbeatsThread nc' = sendHeartbeatsThread nc \<and> (connected nc' \<longrightarrow> connected nc)"

lemma same_flags_fire_lost: "fire_lost nc = Inr nc' \<Longrightarrow> same_flags nc nc'"
  by (auto simp: fire_lost_Inr_iff same_flags_def split: if_splits)

lemma same_flags_rtt: "heartbeat_rtt tpm now p nc = Inr nc' \<Longrightarrow> same_flags nc nc'"
  by (auto simp: heartbeat_rtt_def and_then_Inr_iff fire_Inr_iff same_flags_def Let_def split: if_splits)

lemma same_flags_on_packet:
  assumes "on_packet tpm now inflater p nc = Inr nc'" "getID p \<noteq> parlo_id Heartbeat"
  shows "same_flags nc nc'"
  using assms
  by (auto simp: on_packet_def and_then_Inr_iff fire_Inr_iff same_flags_def split: if_splits)

text \<open>A round of the sender sets its time and writes at most once.\<close>

lemma sendHeartbeat_shape:
  assumes "sendHeartbeat_iteration tpm deflater clock nc = Inr nc'"
  shows "\<exists>t. nc' = nc\<lparr>lastHeartbeatSent := t\<rparr> \<or> (\<exists>d. nc' = emit (AsyncWrite d) (nc\<lparr>lastHeartbeatSent := t\<rparr>))"
proof -
  obtain n1 n2 n3 n4 where "clock = (n1, n2, n3, n4)" by (cases clock) auto
  with assms obtain r where r: "try_catch (and_then r (\<lambda>bytes. sendAsync deflater bytes (nc\<lparr>lastHeartbeatSent := n4\<rparr>)))
      (nc\<lparr>lastHeartbeatSent := n4\<rparr>) = Inr nc'"
    by (auto simp: sendHeartbeat_iteration_def and_then_Inr_iff Let_def)
  then show ?thesis
    by (cases "and_then r (\<lambda>bytes. sendAsync deflater bytes (nc\<lparr>lastHeartbeatSent := n4\<rparr>))")
      (auto simp: try_catch_Inr_iff and_then_Inr_iff sendAsync_Inr_iff)
qed

lemma same_flags_send: "sendHeartbeat_iteration tpm deflater clock nc = Inr nc' \<Longrightarrow> same_flags nc nc'"
  by (drule sendHeartbeat_shape) (auto simp: same_flags_def emit_def)

section \<open>The invariant\<close>

fun holds_alive :: "handler_pc \<Rightarrow> bool" where
  "holds_alive (HandlerAlive p) = True"
| "holds_alive (HandlerLockBeats p) = True"
| "holds_alive (HandlerClear p) = True"
| "holds_alive (HandlerParse p) = True"
| "holds_alive HandlerCallback = True"
| "holds_alive _ = False"

fun holds_beats :: "handler_pc \<Rightarrow> bool" where
  "holds_beats (HandlerClear p) = True"
| "holds_beats (HandlerParse p) = True"
| "holds_beats HandlerCallback = True"
| "holds_beats _ = False"

text \<open>Who holds a mutex is what the program counters say, while the process runs.\<close>

definition locks_agree :: "ctsys \<Rightarrow> bool" where
  "locks_agree s \<longleftrightarrow>
     (aliveMutex s = Some Checker \<longleftrightarrow> cpc s = CheckMark) \<and>
     (heartbeatsMutex s = Some Checker \<longleftrightarrow> cpc s = CheckCount) \<and>
     (aliveMutex s = Some HandlerThread \<longleftrightarrow> holds_alive (hpc s)) \<and>
     (heartbeatsMutex s = Some HandlerThread \<longleftrightarrow> holds_beats (hpc s))"

text \<open>
  What the closer has established: nobody else touches the flags; past the first join the checker
  has ended, past the second the sender too; at the end the client is disconnected.
\<close>

definition closing_agrees :: "ctsys \<Rightarrow> bool" where
  "closing_agrees s \<longleftrightarrow>
     (let check_ended = (cpc s = CheckDone \<and> \<not> heartbeatCheckThread (cl s));
          send_ended = (spc s = SendDone \<and> \<not> sendHeartbeatsThread (cl s));
          check_up = (\<not> stopCheckMissedHeartbeats (cl s) \<and> heartbeatCheckThread (cl s));
          send_up = (\<not> stopSendingHeartbeats (cl s) \<and> sendHeartbeatsThread (cl s))
      in case xpc s of
           CloserIdle \<Rightarrow> check_up \<and> send_up
         | CloserStopCheck \<Rightarrow> check_up \<and> send_up
         | CloserJoinCheck \<Rightarrow> stopCheckMissedHeartbeats (cl s) \<and> send_up
         | CloserStopSend \<Rightarrow> check_ended \<and> send_up
         | CloserJoinSend \<Rightarrow> check_ended \<and> stopSendingHeartbeats (cl s)
         | CloserFinish \<Rightarrow> check_ended \<and> send_ended
         | CloserDone \<Rightarrow> check_ended \<and> send_ended \<and> \<not> connected (cl s))"

text \<open>Steps of the threads that are not the closer keep it.\<close>

lemma closing_frame:
  assumes "closing_agrees s" "xpc t = xpc s" "same_flags (cl s) (cl t)"
    and "cpc s = CheckDone \<longrightarrow> cpc t = CheckDone" "spc s = SendDone \<longrightarrow> spc t = SendDone"
  shows "closing_agrees t"
  using assms by (cases "xpc s") (simp_all add: closing_agrees_def same_flags_def)

lemma same_flags_updates [simp]:
  "same_flags nc nc" "same_flags nc (nc\<lparr>isAlive := a\<rparr>)" "same_flags nc (nc\<lparr>missedHeartbeats := m\<rparr>)"
  by (simp_all add: same_flags_def)

lemma locks_check: "check_step s t \<Longrightarrow> locks_agree s \<Longrightarrow> process_runs t \<Longrightarrow> locks_agree t"
  by (erule check_stepE) (auto simp: locks_agree_def process_runs_def)

lemma locks_send: "send_step tpm deflater s t \<Longrightarrow> locks_agree s \<Longrightarrow> locks_agree t"
  by (erule send_stepE) (auto simp: locks_agree_def)

lemma locks_handler: "handler_step tpm inflater place s t \<Longrightarrow> locks_agree s \<Longrightarrow> process_runs t \<Longrightarrow> locks_agree t"
  by (erule handler_stepE) (auto simp: locks_agree_def process_runs_def)

lemma locks_closer: "closer_step place s t \<Longrightarrow> locks_agree s \<Longrightarrow> locks_agree t"
  by (erule closer_stepE) (auto simp: locks_agree_def)

lemma locks_step:
  "ct_step tpm deflater inflater place s t \<Longrightarrow> locks_agree s \<Longrightarrow> process_runs t \<Longrightarrow> locks_agree t"
  unfolding ct_step_def using locks_check locks_send locks_handler locks_closer by blast

lemma closing_check: "check_step s t \<Longrightarrow> closing_agrees s \<Longrightarrow> closing_agrees t"
  by (erule check_stepE) (rule closing_frame, assumption, simp_all add: same_flags_fire_lost)+

lemma closing_send: "send_step tpm deflater s t \<Longrightarrow> closing_agrees s \<Longrightarrow> closing_agrees t"
  by (erule send_stepE) (rule closing_frame, assumption, simp_all add: same_flags_send)+

lemma closing_handler: "handler_step tpm inflater place s t \<Longrightarrow> closing_agrees s \<Longrightarrow> closing_agrees t"
  by (erule handler_stepE)
    (rule closing_frame, assumption, simp_all add: same_flags_rtt same_flags_on_packet)+

lemma closing_closer: "closer_step place s t \<Longrightarrow> closing_agrees s \<Longrightarrow> closing_agrees t"
  by (erule closer_stepE) (simp_all add: closing_agrees_def)

lemma closing_step: "ct_step tpm deflater inflater place s t \<Longrightarrow> closing_agrees s \<Longrightarrow> closing_agrees t"
  unfolding ct_step_def using closing_check closing_send closing_handler closing_closer by blast

definition ct_inv :: "ctsys \<Rightarrow> bool" where
  "ct_inv s \<longleftrightarrow> closing_agrees s \<and> (process_runs s \<longrightarrow> locks_agree s)"

lemma ct_inv_step: "ct_step tpm deflater inflater place s t \<Longrightarrow> ct_inv s \<Longrightarrow> ct_inv t"
  using closing_step [of tpm deflater inflater place s t] locks_step [of tpm deflater inflater place s t]
  by (simp add: ct_inv_def) (simp add: ct_step_def)

lemma ct_inv_init: "threads_started nc \<Longrightarrow> ct_inv (ct_init nc)"
  by (simp add: ct_inv_def closing_agrees_def locks_agree_def ct_init_def threads_started_def)

lemma ct_inv_steps: "ct_steps tpm deflater inflater place s t \<Longrightarrow> ct_inv s \<Longrightarrow> ct_inv t"
  by (induction rule: ct_steps.induct) (auto intro: ct_inv_step)

section \<open>Closing always gets to its end\<close>

text \<open>
  The steps that are still needed, the closer's own weighing most, then those of the threads it
  waits for, then the worker's that release a mutex.
\<close>

fun closer_rank :: "closer_pc \<Rightarrow> nat" where
  "closer_rank CloserIdle = 6"
| "closer_rank CloserStopCheck = 5"
| "closer_rank CloserJoinCheck = 4"
| "closer_rank CloserStopSend = 3"
| "closer_rank CloserJoinSend = 2"
| "closer_rank CloserFinish = 1"
| "closer_rank CloserDone = 0"

fun check_rank :: "check_pc \<Rightarrow> nat" where
  "check_rank CheckSleep = 8"
| "check_rank CheckLockBeats = 7"
| "check_rank CheckCount = 6"
| "check_rank CheckCompare = 5"
| "check_rank CheckLockAlive = 4"
| "check_rank CheckMark = 3"
| "check_rank CheckReport = 2"
| "check_rank CheckLoop = 1"
| "check_rank _ = 0"

fun send_rank :: "send_pc \<Rightarrow> nat" where
  "send_rank SendBody = 3"
| "send_rank SendSleep = 2"
| "send_rank SendLoop = 1"
| "send_rank _ = 0"

fun handler_rank :: "handler_pc \<Rightarrow> nat" where
  "handler_rank (HandlerAlive p) = 5"
| "handler_rank (HandlerLockBeats p) = 4"
| "handler_rank (HandlerClear p) = 3"
| "handler_rank (HandlerParse p) = 2"
| "handler_rank HandlerCallback = 1"
| "handler_rank _ = 0"

definition closing_rank :: "ctsys \<Rightarrow> nat" where
  "closing_rank s = 1000 * closer_rank (xpc s) + 20 * (check_rank (cpc s) + send_rank (spc s)) + handler_rank (hpc s)"

text \<open>A worker that holds a mutex can go on, as nobody it waits for holds the other.\<close>

lemma handler_moves:
  assumes "holds_alive (hpc s)" "locks_agree s" "cpc s \<noteq> CheckCount"
  shows "\<exists>t. handler_step tpm inflater Outside s t \<and> handler_rank (hpc t) < handler_rank (hpc s) \<and>
    cpc t = cpc s \<and> spc t = spc s \<and> xpc t = xpc s"
proof (cases "hpc s")
  case (HandlerAlive p)
  then show ?thesis using handler_step.set_alive [of s p] by fastforce
next
  case (HandlerLockBeats p)
  with assms(2,3) have "heartbeatsMutex s = None"
    by (cases "heartbeatsMutex s") (auto simp: locks_agree_def intro: ct_agent.exhaust)
  with HandlerLockBeats show ?thesis using handler_step.lock_beats [of s p] by fastforce
next
  case (HandlerClear p)
  then show ?thesis using handler_step.clear [of s p] by fastforce
next
  case (HandlerParse p)
  show ?thesis
  proof (cases "heartbeat_rtt tpm 0 p (cl s)")
    case (Inl e)
    with HandlerParse show ?thesis using handler_step.parse_raises [of s p tpm 0 e] by fastforce
  next
    case (Inr nc)
    with HandlerParse show ?thesis using handler_step.parse [of s p tpm 0 nc] by fastforce
  qed
next
  case HandlerCallback
  then show ?thesis using handler_step.release [of s Outside] by fastforce
qed (use assms(1) in simp_all)

text \<open>With the stop flag set, the checker comes closer to its end or waits for the worker only.\<close>

lemma checker_moves:
  assumes "stopCheckMissedHeartbeats (cl s)" "locks_agree s" "cpc s \<noteq> CheckDone" "process_runs s"
  shows "(\<exists>t. check_step s t \<and> check_rank (cpc t) < check_rank (cpc s) \<and> spc t = spc s \<and> hpc t = hpc s \<and>
      xpc t = xpc s) \<or> (holds_alive (hpc s) \<and> cpc s \<noteq> CheckCount)"
proof (cases "cpc s")
  case CheckLoop
  then show ?thesis using check_step.loop_end [of s] assms(1) by fastforce
next
  case CheckSleep
  then show ?thesis using check_step.sleep [of s] by fastforce
next
  case CheckLockBeats
  show ?thesis
  proof (cases "heartbeatsMutex s")
    case None
    with CheckLockBeats show ?thesis using check_step.lock_beats [of s] by fastforce
  next
    case (Some a)
    with CheckLockBeats assms(2) have "holds_beats (hpc s)" by (cases a) (auto simp: locks_agree_def)
    then have "holds_alive (hpc s)" by (cases "hpc s") simp_all
    with CheckLockBeats show ?thesis by simp
  qed
next
  case CheckCount
  then show ?thesis using check_step.count [of s] by fastforce
next
  case CheckCompare
  then show ?thesis using check_step.compare_ok [of s] check_step.compare_lost [of s] by fastforce
next
  case CheckLockAlive
  show ?thesis
  proof (cases "aliveMutex s")
    case None
    with CheckLockAlive show ?thesis using check_step.lock_alive [of s] by fastforce
  next
    case (Some a)
    with CheckLockAlive assms(2) have "holds_alive (hpc s)" by (cases a) (auto simp: locks_agree_def)
    with CheckLockAlive show ?thesis by simp
  qed
next
  case CheckMark
  then show ?thesis using check_step.mark [of s] by fastforce
next
  case CheckReport
  then show ?thesis
    using check_step.report [of s] check_step.report_raises [of s] by (cases "fire_lost (cl s)") fastforce+
qed (use assms(3,4) in \<open>simp_all add: process_runs_def\<close>)

lemma sender_moves:
  assumes "stopSendingHeartbeats (cl s)" "spc s \<noteq> SendDone" "process_runs s"
  shows "\<exists>t. send_step tpm deflater s t \<and> send_rank (spc t) < send_rank (spc s) \<and> cpc t = cpc s \<and>
    hpc t = hpc s \<and> xpc t = xpc s"
proof (cases "spc s")
  case SendLoop
  then show ?thesis using send_step.loop_end [of s] assms(1) by fastforce
next
  case SendBody
  let ?run = "sendHeartbeat_iteration tpm deflater (0, 0, 0, 0) (cl s)"
  show ?thesis
    using send_step.body [OF SendBody, of tpm deflater "(0, 0, 0, 0)"]
      send_step.body_raises [OF SendBody, of tpm deflater "(0, 0, 0, 0)"] SendBody
    by (cases ?run) fastforce+
next
  case SendSleep
  then show ?thesis using send_step.wake [of s] by fastforce
qed (use assms(2,3) in \<open>simp_all add: process_runs_def\<close>)

lemma closing_progress:
  assumes inv: "ct_inv s" and run: "process_runs s" and "xpc s \<noteq> CloserDone"
  shows "\<exists>t. ct_step tpm deflater inflater Outside s t \<and> closing_rank t < closing_rank s"
proof -
  from inv run have locks: "locks_agree s" and closing: "closing_agrees s" by (simp_all add: ct_inv_def)
  have closer: ?thesis if "closer_step Outside s t" "closer_rank (xpc t) < closer_rank (xpc s)"
    "cpc t = cpc s" "spc t = spc s" "hpc t = hpc s" for t
    using that run by (intro exI [of _ t]) (simp add: ct_step_def closing_rank_def)
  show ?thesis
  proof (cases "xpc s")
    case CloserIdle
    then show ?thesis by (intro closer [OF closer_step.call]) simp_all
  next
    case CloserStopCheck
    with closing show ?thesis
      by (intro closer [OF closer_step.stop_check]) (simp_all add: closing_agrees_def)
  next
    case CloserJoinCheck
    show ?thesis
    proof (cases "cpc s = CheckDone")
      case True
      with CloserJoinCheck show ?thesis by (intro closer [OF closer_step.joined_check]) simp_all
    next
      case False
      have "stopCheckMissedHeartbeats (cl s)" using closing CloserJoinCheck by (simp add: closing_agrees_def)
      from checker_moves [OF this locks False run] show ?thesis
      proof
        assume "\<exists>t. check_step s t \<and> check_rank (cpc t) < check_rank (cpc s) \<and> spc t = spc s \<and> hpc t = hpc s \<and>
          xpc t = xpc s"
        with run show ?thesis by (force simp: ct_step_def closing_rank_def)
      next
        assume "holds_alive (hpc s) \<and> cpc s \<noteq> CheckCount"
        with handler_moves [OF _ locks, of tpm inflater] run show ?thesis
          by (force simp: ct_step_def closing_rank_def)
      qed
    qed
  next
    case CloserStopSend
    with closing show ?thesis
      by (intro closer [OF closer_step.stop_send]) (simp_all add: closing_agrees_def)
  next
    case CloserJoinSend
    show ?thesis
    proof (cases "spc s = SendDone")
      case True
      with CloserJoinSend show ?thesis by (intro closer [OF closer_step.joined_send]) simp_all
    next
      case False
      have "stopSendingHeartbeats (cl s)" using closing CloserJoinSend by (simp add: closing_agrees_def)
      from sender_moves [OF this False run, of tpm deflater] run show ?thesis
        by (force simp: ct_step_def closing_rank_def)
    qed
  next
    case CloserFinish
    then show ?thesis by (intro closer [OF closer_step.finish]) simp_all
  qed (use assms(3) in simp)
qed

lemma closing_reachable:
  assumes "ct_inv s"
  shows "\<exists>t. ct_steps tpm deflater inflater Outside s t \<and> (xpc t = CloserDone \<or> \<not> process_runs t)"
  using assms
proof (induction "closing_rank s" arbitrary: s rule: less_induct)
  case less
  show ?case
  proof (cases "process_runs s \<and> xpc s \<noteq> CloserDone")
    case True
    with closing_progress [OF less.prems] obtain t where
      t: "ct_step tpm deflater inflater Outside s t" "closing_rank t < closing_rank s" by blast
    from less.hyps [OF t(2) ct_inv_step [OF t(1) less.prems]] ct_steps_trans [OF ct_steps_one [OF t(1)]]
    show ?thesis by blast
  next
    case False
    then show ?thesis using ct_steps.start by blast
  qed
qed

section \<open>A heartbeat in the handler\<close>

text \<open>The handler's rules up to the call of the user's handler are \<open>on_heartbeat\<close>.\<close>

lemma handler_step_eq: "handler_step tpm inflater place s t \<Longrightarrow> t = u \<Longrightarrow> handler_step tpm inflater place s u"
  by simp

lemma heartbeat_enters:
  assumes run: "process_runs s" and pc: "hpc s = HandlerIdle" and id: "getID p = parlo_id Heartbeat"
    and free: "aliveMutex s = None" "heartbeatsMutex s = None"
  shows "ct_steps tpm deflater inflater place s
    (s\<lparr>aliveMutex := Some HandlerThread, hpc := HandlerParse p, heartbeatsMutex := Some HandlerThread,
       cl := (cl s)\<lparr>isAlive := True, missedHeartbeats := 0\<rparr>\<rparr>)"
proof -
  let ?st = "ct_steps tpm deflater inflater place"
  have steps: "?st s u" if "?st s t" "process_runs t" "handler_step tpm inflater place t u" for t u
    using that by (auto intro: ct_steps.step simp: ct_step_def)
  let ?s1 = "s\<lparr>hpc := HandlerLockAlive p\<rparr>"
  let ?s2 = "s\<lparr>hpc := HandlerAlive p, aliveMutex := Some HandlerThread\<rparr>"
  let ?s3 = "s\<lparr>aliveMutex := Some HandlerThread, hpc := HandlerLockBeats p, cl := (cl s)\<lparr>isAlive := True\<rparr>\<rparr>"
  let ?s4 = "?s3\<lparr>hpc := HandlerClear p, heartbeatsMutex := Some HandlerThread\<rparr>"
  let ?nc = "(cl s)\<lparr>isAlive := True, missedHeartbeats := 0\<rparr>"
  let ?s5 = "?s4\<lparr>hpc := HandlerParse p, cl := ?nc\<rparr>"
  have runs: "process_runs ?s1" "process_runs ?s2" "process_runs ?s3" "process_runs ?s4"
    using run by (simp_all add: process_runs_pc)
  have "?st s ?s1" by (rule steps [OF ct_steps.start run handler_step.start [OF pc id]])
  moreover have "handler_step tpm inflater place ?s1 ?s2"
    by (rule handler_step_eq [OF handler_step.lock_alive [of _ p]]) (use free in simp_all)
  moreover have "handler_step tpm inflater place ?s2 ?s3"
    by (rule handler_step_eq [OF handler_step.set_alive [of _ p]]) simp_all
  moreover have "handler_step tpm inflater place ?s3 ?s4"
    by (rule handler_step.lock_beats) (use free in simp_all)
  moreover have "handler_step tpm inflater place ?s4 ?s5"
    by (rule handler_step_eq [OF handler_step.clear [of _ p]]) simp_all
  ultimately have "?st s ?s5" using runs steps by blast
  moreover have "?s5 = s\<lparr>aliveMutex := Some HandlerThread, hpc := HandlerParse p,
      heartbeatsMutex := Some HandlerThread, cl := ?nc\<rparr>" by (cases s) simp
  ultimately show ?thesis by (simp only:)
qed

lemma heartbeat_run:
  assumes run: "process_runs s" and pc: "hpc s = HandlerIdle" and id: "getID p = parlo_id Heartbeat"
    and free: "aliveMutex s = None" "heartbeatsMutex s = None"
  shows "case on_heartbeat tpm now p (cl s) of
      Inr nc \<Rightarrow> ct_steps tpm deflater inflater place s
        (s\<lparr>aliveMutex := Some HandlerThread, heartbeatsMutex := Some HandlerThread, hpc := HandlerCallback, cl := nc\<rparr>)
    | Inl e \<Rightarrow> \<exists>t. ct_steps tpm deflater inflater place s t \<and> hpc t = HandlerTerminated e"
proof -
  let ?st = "ct_steps tpm deflater inflater place"
  let ?s5 = "s\<lparr>aliveMutex := Some HandlerThread, hpc := HandlerParse p, heartbeatsMutex := Some HandlerThread,
    cl := (cl s)\<lparr>isAlive := True, missedHeartbeats := 0\<rparr>\<rparr>"
  have runs: "process_runs ?s5" using run by (simp add: process_runs_pc)
  have s5: "?st s ?s5" by (rule heartbeat_enters [OF assms])
  have steps: "?st s u" if "handler_step tpm inflater place ?s5 u" for u
    using s5 runs that by (auto intro: ct_steps.step simp: ct_step_def)
  show ?thesis
  proof (cases "on_heartbeat tpm now p (cl s)")
    case (Inl e)
    have "handler_step tpm inflater place ?s5 (?s5\<lparr>hpc := HandlerTerminated e\<rparr>)"
      by (rule handler_step.parse_raises [of _ p tpm now]) (use Inl in \<open>simp_all add: on_heartbeat_split\<close>)
    from steps [OF this] Inl show ?thesis by (auto intro!: exI [of _ "?s5\<lparr>hpc := HandlerTerminated e\<rparr>"])
  next
    case (Inr nc)
    have "handler_step tpm inflater place ?s5 (?s5\<lparr>hpc := HandlerCallback, cl := nc\<rparr>)"
      by (rule handler_step.parse [of _ p tpm now]) (use Inr in \<open>simp_all add: on_heartbeat_split\<close>)
    from steps [OF this] have run: "?st s (?s5\<lparr>hpc := HandlerCallback, cl := nc\<rparr>)" .
    have eq: "?s5\<lparr>hpc := HandlerCallback, cl := nc\<rparr> =
        s\<lparr>aliveMutex := Some HandlerThread, heartbeatsMutex := Some HandlerThread, hpc := HandlerCallback, cl := nc\<rparr>"
      by (cases s) simp
    show ?thesis using run [unfolded eq] Inr by simp
  qed
qed

lemma on_heartbeat_clears: "on_heartbeat tpm now p nc = Inr nc' \<Longrightarrow> missedHeartbeats nc' = 0 \<and> isAlive nc'"
  by (auto simp: on_heartbeat_split heartbeat_rtt_def and_then_Inr_iff fire_Inr_iff Let_def split: if_splits)

lemma on_heartbeat_flags: "on_heartbeat tpm now p nc = Inr nc' \<Longrightarrow> same_flags nc nc'"
  using same_flags_rtt [of tpm now p "nc\<lparr>isAlive := True, missedHeartbeats := 0\<rparr>" nc']
  by (simp add: on_heartbeat_split same_flags_def)

text \<open>A closer inside the callback, waiting for a checker that waits for the callback's mutex.\<close>

definition deadlocked :: "ctsys \<Rightarrow> bool" where
  "deadlocked s \<longleftrightarrow> xpc s = CloserJoinCheck \<and> hpc s = HandlerCallback \<and> cpc s = CheckLockBeats \<and>
     heartbeatsMutex s = Some HandlerThread"

lemma deadlocked_step: "ct_step tpm deflater inflater InCallback s t \<Longrightarrow> deadlocked s \<Longrightarrow> deadlocked t"
  unfolding ct_step_def
  by (elim conjE disjE check_stepE send_stepE handler_stepE closer_stepE) (simp_all add: deadlocked_def)

lemma deadlocked_for_good: "ct_steps tpm deflater inflater InCallback s t \<Longrightarrow> deadlocked s \<Longrightarrow> deadlocked t"
  by (induction rule: ct_steps.induct) (auto intro: deadlocked_step)

lemma ct_steps_more:
  assumes "ct_steps tpm deflater inflater place s t" "process_runs t"
  shows "check_step t u \<Longrightarrow> ct_steps tpm deflater inflater place s u"
    "handler_step tpm inflater place t u \<Longrightarrow> ct_steps tpm deflater inflater place s u"
    "closer_step place t u \<Longrightarrow> ct_steps tpm deflater inflater place s u"
    "send_step tpm deflater t u \<Longrightarrow> ct_steps tpm deflater inflater place s u"
  using assms by (auto intro: ct_steps.step simp: ct_step_def)

lemma ct_init_simps [simp]:
  "cl (ct_init nc) = nc" "aliveMutex (ct_init nc) = None" "heartbeatsMutex (ct_init nc) = None"
  "cpc (ct_init nc) = CheckLoop" "spc (ct_init nc) = SendLoop" "hpc (ct_init nc) = HandlerIdle" "xpc (ct_init nc) = CloserIdle"
  "process_runs (ct_init nc)"
  by (simp_all add: ct_init_def process_runs_def)

text \<open>One run of the whole call, with threads that see their flag at once.\<close>

lemma closing_run:
  assumes "threads_started nc"
  shows "\<exists>s. ct_steps tpm deflater inflater Outside (ct_init nc) s \<and> xpc s = CloserDone"
proof -
  let ?at = "\<lambda>x c p s. ct_steps tpm deflater inflater Outside (ct_init nc) s \<and> process_runs s \<and>
    xpc s = x \<and> cpc s = c \<and> spc s = p"
  note more = ct_steps_more [of tpm deflater inflater Outside "ct_init nc"]
  let ?s1 = "(ct_init nc)\<lparr>xpc := CloserStopCheck\<rparr>"
  have "?at CloserStopCheck CheckLoop SendLoop ?s1" "\<not> stopCheckMissedHeartbeats (cl ?s1)"
    "heartbeatCheckThread (cl ?s1)" "\<not> stopSendingHeartbeats (cl ?s1)" "sendHeartbeatsThread (cl ?s1)"
    using more(3) [OF ct_steps.start _ closer_step.call] assms by (simp_all add: threads_started_def)
  from more(3) [OF _ _ closer_step.stop_check [of ?s1]] this obtain s2 where
    s2: "?at CloserJoinCheck CheckLoop SendLoop s2" "stopCheckMissedHeartbeats (cl s2)"
    "\<not> stopSendingHeartbeats (cl s2)" "sendHeartbeatsThread (cl s2)" by fastforce
  from s2 more(1) [OF _ _ check_step.loop_end [of s2]] obtain s3 where
    s3: "?at CloserJoinCheck CheckDone SendLoop s3" "\<not> stopSendingHeartbeats (cl s3)"
    "sendHeartbeatsThread (cl s3)" by (fastforce simp: process_runs_pc)
  from s3 more(3) [OF _ _ closer_step.joined_check [of s3]] obtain s4 where
    s4: "?at CloserStopSend CheckDone SendLoop s4" "\<not> stopSendingHeartbeats (cl s4)"
    "sendHeartbeatsThread (cl s4)" by fastforce
  from s4 more(3) [OF _ _ closer_step.stop_send [of s4]] obtain s5 where
    s5: "?at CloserJoinSend CheckDone SendLoop s5" "stopSendingHeartbeats (cl s5)" by fastforce
  from s5 more(4) [OF _ _ send_step.loop_end [of s5 tpm deflater]] obtain s6 where
    s6: "?at CloserJoinSend CheckDone SendDone s6" by (fastforce simp: process_runs_pc)
  from s6 more(3) [OF _ _ closer_step.joined_send [of s6]] obtain s7 where
    s7: "?at CloserFinish CheckDone SendDone s7" by fastforce
  from s7 more(3) [OF _ _ closer_step.finish [of s7]] show ?thesis by fastforce
qed

text \<open>The checker asleep after its test of the stop flag.\<close>

lemma checker_wakes:
  assumes "\<not> stopCheckMissedHeartbeats nc"
  shows "ct_steps tpm deflater inflater place (ct_init nc) ((ct_init nc)\<lparr>cpc := CheckLockBeats\<rparr>)"
proof -
  let ?t = "(ct_init nc)\<lparr>cpc := CheckSleep\<rparr>"
  have t: "ct_steps tpm deflater inflater place (ct_init nc) ?t"
    by (rule ct_steps_more(1) [OF ct_steps.start _ check_step.loop_go]) (use assms in simp_all)
  show ?thesis
    by (rule ct_steps_more(1) [OF t _ check_step_eq [OF check_step.sleep]]) (simp_all add: process_runs_pc)
qed

text \<open>What the sender has given to asio.\<close>

definition sent_writes :: "nclient \<Rightarrow> nc_effect list" where
  "sent_writes nc = filter (\<lambda>e. \<exists>b. e = AsyncWrite b) (trace nc)"

lemma sent_writes_callbacks:
  "heartbeat_rtt tpm now p nc = Inr nc' \<Longrightarrow> sent_writes nc' = sent_writes nc"
  "on_packet tpm now inflater p nc = Inr nc' \<Longrightarrow> getID p \<noteq> parlo_id Heartbeat \<Longrightarrow> sent_writes nc' = sent_writes nc"
  by (auto simp: heartbeat_rtt_def on_packet_def and_then_Inr_iff fire_Inr_iff sent_writes_def Let_def
      split: if_splits)

lemma sent_writes_handler:
  "handler_step tpm inflater place s t \<Longrightarrow> sent_writes (cl t) = sent_writes (cl s)"
  by (erule handler_stepE) (simp_all add: sent_writes_callbacks, simp_all add: sent_writes_def)

lemma closed_step:
  assumes "ct_step tpm deflater inflater place s t" "closing_agrees s" "xpc s = CloserDone"
  shows "xpc t = CloserDone \<and> sent_writes (cl t) = sent_writes (cl s)"
proof -
  from assms(2,3) have "cpc s = CheckDone" "spc s = SendDone" by (simp_all add: closing_agrees_def)
  with assms(1,3) have h: "handler_step tpm inflater place s t"
    unfolding ct_step_def by (elim conjE disjE check_stepE send_stepE closer_stepE) simp_all
  then have "xpc t = xpc s" by (rule handler_stepE) simp_all
  with sent_writes_handler [OF h] assms(3) show ?thesis by simp
qed

lemma closed_steps:
  assumes "ct_steps tpm deflater inflater place s t" "ct_inv s" "xpc s = CloserDone"
  shows "xpc t = CloserDone \<and> sent_writes (cl t) = sent_writes (cl s)"
  using assms
proof (induction rule: ct_steps.induct)
  case (step t u)
  have "closing_agrees t" using ct_inv_steps [OF step.hyps(1) step.prems(1)] by (simp add: ct_inv_def)
  from closed_step [OF step.hyps(2) this] step show ?case by simp
qed simp

text \<open>A client with both threads running, and a heartbeat its parser accepts.\<close>

definition sample_client :: nclient where
  "sample_client = (nc_init 0 True True)\<lparr>heartbeatCheckThread := True, sendHeartbeatsThread := True,
     onReceivedHeartbeat := True, onConnectionLost := True, ownerSet := True, missedHeartbeats := 6\<rparr>"

definition sample_pulse :: packet where
  "sample_pulse = \<lparr>p_id = parlo_id Heartbeat, p_isCompressed = 0, p_isReliable = 0, p_length = 21,
     p_data = 0 # hb_toByteArray 1000 \<lparr>timeSinceLast = 30000, sentTimestamp = 5000000\<rparr>, p_isUDP = False\<rparr>"

lemma sample_client_started: "threads_started sample_client"
  by (simp add: threads_started_def sample_client_def nc_init_def)

lemma sample_pulse_accepted:
  "on_heartbeat 1000 5020000 sample_pulse sample_client =
     Inr (emit HeartbeatReceived (sample_client\<lparr>isAlive := True, missedHeartbeats := 0, lastRTT := 30020\<rparr>))"
  using hb_parse_serialized [of "\<lparr>timeSinceLast = 30000, sentTimestamp = 5000000\<rparr>" 1000 5020000 0 "[]"]
  by (simp add: on_heartbeat_def sample_pulse_def getData_def hb_valid_def in_i64_def to_millis_def
      sdiv_lower_eq checked_i64_def getSentTimestamp_def getTimeSinceLast_def fire_def sample_client_def nc_init_def)

section \<open>Properties\<close>

text \<open>C7: Once the call that stops the threads has returned, both have ended and been joined and the
  client is disconnected, on whatever thread the call was made and however the threads were
  interleaved; and so it stays: whatever the worker still does with arriving packets, neither
  thread takes another step, the client is not connected again and nothing more is written.\<close>

theorem closing_is_final:
  assumes "threads_started nc" "ct_steps tpm deflater inflater place (ct_init nc) s" "xpc s = CloserDone"
    and "ct_steps tpm deflater inflater place s t"
  shows "cpc t = CheckDone \<and> spc t = SendDone \<and> \<not> heartbeatCheckThread (cl t) \<and>
    \<not> sendHeartbeatsThread (cl t) \<and> \<not> connected (cl t) \<and> sent_writes (cl t) = sent_writes (cl s) \<and>
    (\<forall>u. \<not> check_step t u \<and> \<not> send_step tpm deflater t u)"
proof -
  have inv: "ct_inv s" "ct_inv t"
    using ct_inv_steps [OF assms(2) ct_inv_init [OF assms(1)]] ct_inv_steps [OF assms(4)] by blast+
  have "xpc t = CloserDone" "sent_writes (cl t) = sent_writes (cl s)"
    using closed_steps [OF assms(4) inv(1) assms(3)] by simp_all
  with inv(2) show ?thesis
    by (auto simp: ct_inv_def closing_agrees_def elim: check_stepE send_stepE)
qed

theorem closing_is_final_witness:
  "\<exists>s. ct_steps 1000 store_codec store_codec Outside (ct_init sample_client) s \<and> xpc s = CloserDone \<and>
     cpc s = CheckDone \<and> spc s = SendDone \<and> \<not> connected (cl s)"
proof -
  from closing_run [OF sample_client_started] obtain s where
    s: "ct_steps 1000 store_codec store_codec Outside (ct_init sample_client) s" "xpc s = CloserDone" by blast
  from closing_is_final [OF sample_client_started s ct_steps.start] s show ?thesis by blast
qed

text \<open>A caller outside the client's handlers can always get to the end: from every state the threads
  can reach, wherever they are, there are steps after which the call has returned, unless the
  process ends because an exception leaves one of the threads. Who holds which mutex is never a
  reason to stay.\<close>

theorem closing_can_finish:
  assumes "threads_started nc" "ct_steps tpm deflater inflater Outside (ct_init nc) s"
  shows "\<exists>t. ct_steps tpm deflater inflater Outside s t \<and>
    (xpc t = CloserDone \<and> \<not> connected (cl t) \<or> \<not> process_runs t)"
proof -
  have inv: "ct_inv s" by (rule ct_inv_steps [OF assms(2) ct_inv_init [OF assms(1)]])
  from closing_reachable [OF this] obtain t where
    t: "ct_steps tpm deflater inflater Outside s t" "xpc t = CloserDone \<or> \<not> process_runs t" by blast
  with ct_inv_steps [OF t(1) inv] show ?thesis by (auto simp: ct_inv_def closing_agrees_def)
qed

theorem closing_can_finish_witness:
  "\<exists>t. ct_steps 1000 store_codec store_codec Outside ((ct_init sample_client)\<lparr>cpc := CheckLockBeats\<rparr>) t \<and>
     (xpc t = CloserDone \<and> \<not> connected (cl t) \<or> \<not> process_runs t)"
  using sample_client_started checker_wakes [of sample_client]
  by (intro closing_can_finish [OF sample_client_started]) (simp add: threads_started_def)

text \<open>Closing the client inside its own heartbeat handler can hang for good. The handler runs while
  the worker holds both mutexes; if the checker has woken up by then, it waits for one of them
  inside its round, and the call waits for the checker: a state from which no step of any thread
  gets the call past that join.\<close>

theorem callback_deadlock:
  assumes "threads_started nc" "onReceivedHeartbeat nc" "getID p = parlo_id Heartbeat"
    and "on_heartbeat tpm now p nc = Inr nc'"
  shows "\<exists>s. ct_steps tpm deflater inflater InCallback (ct_init nc) s \<and> process_runs s \<and>
    (\<forall>t. ct_steps tpm deflater inflater InCallback s t \<longrightarrow>
       xpc t = CloserJoinCheck \<and> cpc t = CheckLockBeats \<and> hpc t = HandlerCallback)"
proof -
  let ?go = "ct_steps tpm deflater inflater InCallback (ct_init nc)"
  let ?w = "(ct_init nc)\<lparr>cpc := CheckLockBeats\<rparr>"
  let ?h = "?w\<lparr>aliveMutex := Some HandlerThread, heartbeatsMutex := Some HandlerThread,
    hpc := HandlerCallback, cl := nc'\<rparr>"
  have flags: "threads_started nc'" "onReceivedHeartbeat nc'"
    using on_heartbeat_flags [OF assms(4)] assms(1,2,4)
    by (auto simp: same_flags_def threads_started_def on_heartbeat_split heartbeat_rtt_def emit_def
        and_then_Inr_iff fire_Inr_iff Let_def split: if_splits)
  have "?go ?w" using assms(1) by (intro checker_wakes) (simp add: threads_started_def)
  moreover have "ct_steps tpm deflater inflater InCallback ?w ?h"
    using heartbeat_run [of ?w p tpm deflater inflater InCallback now] assms(3,4)
    by (simp add: process_runs_pc)
  ultimately have h: "?go ?h" by (rule ct_steps_trans)
  have runs: "process_runs ?h" by (simp add: process_runs_pc)
  let ?c = "?h\<lparr>xpc := CloserStopCheck\<rparr>"
  let ?j = "?c\<lparr>cl := nc'\<lparr>stopCheckMissedHeartbeats := True\<rparr>, xpc := CloserJoinCheck\<rparr>"
  have c: "?go ?c"
    by (rule ct_steps_more(3) [OF h runs closer_step.call]) (use flags in simp_all)
  have "closer_step InCallback ?c ?j"
    using closer_step.stop_check [of ?c InCallback] flags(1) by (simp add: threads_started_def)
  from ct_steps_more(3) [OF c _ this] have j: "?go ?j" using runs by simp
  have dead: "deadlocked ?j" by (simp add: deadlocked_def)
  have "xpc t = CloserJoinCheck \<and> cpc t = CheckLockBeats \<and> hpc t = HandlerCallback"
    if "ct_steps tpm deflater inflater InCallback ?j t" for t
    using deadlocked_for_good [OF that dead] by (simp add: deadlocked_def)
  with j runs show ?thesis by (intro exI [of _ ?j]) simp
qed

theorem callback_deadlock_witness:
  "\<exists>s. ct_steps 1000 store_codec store_codec InCallback (ct_init sample_client) s \<and> xpc s = CloserJoinCheck \<and>
     (\<forall>t. ct_steps 1000 store_codec store_codec InCallback s t \<longrightarrow> xpc t \<noteq> CloserDone)"
proof -
  have "onReceivedHeartbeat sample_client" "getID sample_pulse = parlo_id Heartbeat"
    by (simp_all add: sample_client_def sample_pulse_def getID_def)
  from callback_deadlock [OF sample_client_started this sample_pulse_accepted, of store_codec store_codec]
  show ?thesis using ct_steps.start by fastforce
qed

text \<open>C26: A client can be reported lost right after a heartbeat of it was handled. The checker compares the
  counter outside the lock and acts on the comparison later: a heartbeat that is handled in
  between clears the counter and marks the client alive, and then the checker still marks it dead
  and calls the connection-lost handler, with no missed heartbeat on the counter.\<close>

theorem alive_client_reported_lost:
  assumes "threads_started nc" "missedHeartbeats nc = 6" "getID p = parlo_id Heartbeat"
    and "on_heartbeat tpm now p nc = Inr nc'" "onConnectionLost nc'" "ownerSet nc'" "clientShared nc'"
  shows "\<exists>s t. ct_steps tpm deflater inflater place (ct_init nc) s \<and> cl s = nc' \<and> isAlive (cl s) \<and>
    hpc s = HandlerIdle \<and> ct_steps tpm deflater inflater place s t \<and>
    cl t = emit ConnectionLost (nc'\<lparr>isAlive := False\<rparr>) \<and> missedHeartbeats (cl t) = 0"
proof -
  let ?go = "ct_steps tpm deflater inflater place (ct_init nc)"
  let ?w = "(ct_init nc)\<lparr>cpc := CheckLockBeats\<rparr>"
  let ?m = "nc\<lparr>missedHeartbeats := missedHeartbeats nc + 1\<rparr>"
  let ?s1 = "?w\<lparr>cpc := CheckCount, heartbeatsMutex := Some Checker\<rparr>"
  let ?s2 = "?s1\<lparr>cpc := CheckCompare, heartbeatsMutex := None, cl := ?m\<rparr>"
  let ?s3 = "?s2\<lparr>cpc := CheckLockAlive\<rparr>"
  let ?h = "?s3\<lparr>aliveMutex := Some HandlerThread, heartbeatsMutex := Some HandlerThread,
    hpc := HandlerCallback, cl := nc'\<rparr>"
  let ?s = "?h\<lparr>hpc := HandlerIdle, aliveMutex := None, heartbeatsMutex := None\<rparr>"
  have runs: "process_runs ?w" "process_runs ?s1" "process_runs ?s2" "process_runs ?s3" "process_runs ?h"
    "process_runs ?s" by (simp_all add: process_runs_pc)
  have "?go ?w" using assms(1) by (intro checker_wakes) (simp add: threads_started_def)
  from ct_steps_more(1) [OF this runs(1) check_step.lock_beats] have "?go ?s1" by simp
  from ct_steps_more(1) [OF this runs(2) check_step.count] have "?go ?s2" by simp
  from ct_steps_more(1) [OF this runs(3) check_step.compare_lost] have s3: "?go ?s3"
    by (simp add: assms(2) maxMissedHeartbeats_def)
  have "on_heartbeat tpm now p ?m = Inr nc'" using assms(4) by (simp add: on_heartbeat_split)
  then have "ct_steps tpm deflater inflater place ?s3 ?h"
    using heartbeat_run [OF runs(4), of p tpm deflater inflater place now] assms(3) by simp
  from ct_steps_trans [OF s3 this] have h: "?go ?h" .
  have s: "?go ?s" by (rule ct_steps_more(2) [OF h runs(5) handler_step.release]) simp_all
  let ?k = "?s\<lparr>cpc := CheckMark, aliveMutex := Some Checker\<rparr>"
  let ?l = "?k\<lparr>cpc := CheckReport, aliveMutex := None, cl := nc'\<lparr>isAlive := False\<rparr>\<rparr>"
  let ?t = "?l\<lparr>cpc := CheckLoop, cl := emit ConnectionLost (nc'\<lparr>isAlive := False\<rparr>)\<rparr>"
  have runs': "process_runs ?k" "process_runs ?l" by (simp_all add: process_runs_pc)
  have "check_step ?s ?k" by (rule check_step.lock_alive) simp_all
  from ct_steps_more(1) [OF ct_steps.start runs(6) this]
  have k: "ct_steps tpm deflater inflater place ?s ?k" .
  have "check_step ?k ?l" by (rule check_step_eq [OF check_step.mark]) simp_all
  from ct_steps_more(1) [OF k runs'(1) this] have l: "ct_steps tpm deflater inflater place ?s ?l" .
  have "check_step ?l ?t" by (rule check_step.report) (simp_all add: fire_lost_def assms)
  from ct_steps_more(1) [OF l runs'(2) this] have t: "ct_steps tpm deflater inflater place ?s ?t" .
  from s t on_heartbeat_clears [OF assms(4)] show ?thesis
    by (intro exI [of _ ?s] exI [of _ ?t]) simp
qed

theorem alive_client_reported_lost_witness:
  "\<exists>t. ct_steps 1000 store_codec store_codec Outside (ct_init sample_client) t \<and>
     missedHeartbeats (cl t) = 0 \<and> \<not> isAlive (cl t) \<and>
     trace (cl t) = [HeartbeatReceived, ConnectionLost]"
proof -
  let ?nc = "emit HeartbeatReceived (sample_client\<lparr>isAlive := True, missedHeartbeats := 0, lastRTT := 30020\<rparr>)"
  have nc: "missedHeartbeats sample_client = 6" "getID sample_pulse = parlo_id Heartbeat"
    "onConnectionLost ?nc" "ownerSet ?nc" "clientShared ?nc" "trace ?nc = [HeartbeatReceived]"
    by (simp_all add: sample_client_def sample_pulse_def getID_def emit_def nc_init_def)
  from alive_client_reported_lost [OF sample_client_started nc(1,2) sample_pulse_accepted nc(3-5)] obtain s t where
    "ct_steps 1000 store_codec store_codec Outside (ct_init sample_client) s"
    "ct_steps 1000 store_codec store_codec Outside s t" "missedHeartbeats (cl t) = 0"
    "cl t = emit ConnectionLost (?nc\<lparr>isAlive := False\<rparr>)" by blast
  with ct_steps_trans nc(6) show ?thesis by fastforce
qed

text \<open>The rules refine the rounds of the watchdog and of the packet handler. When nobody else holds a
  mutex, the checker's rules take it through exactly one \<open>check_iteration\<close> and back to its loop, and
  the worker's rules take it through exactly \<open>on_heartbeat\<close> to the user's handler and back; where
  the round raises, the thread ends with that exception.\<close>

theorem threads_refine_rounds:
  assumes "process_runs s" "aliveMutex s = None" "heartbeatsMutex s = None"
  shows "(cpc s = CheckLockBeats \<longrightarrow>
      (case check_iteration (cl s) of
         Inr nc \<Rightarrow> ct_steps tpm deflater inflater Outside s (s\<lparr>cl := nc, cpc := CheckLoop\<rparr>)
       | Inl e \<Rightarrow> \<exists>t. ct_steps tpm deflater inflater Outside s t \<and> cpc t = CheckTerminated e)) \<and>
    (hpc s = HandlerIdle \<and> getID p = parlo_id Heartbeat \<longrightarrow>
      (case on_heartbeat tpm now p (cl s) of
         Inr nc \<Rightarrow> ct_steps tpm deflater inflater Outside s (s\<lparr>cl := nc\<rparr>)
       | Inl e \<Rightarrow> \<exists>t. ct_steps tpm deflater inflater Outside s t \<and> hpc t = HandlerTerminated e))"
proof (intro conjI impI)
  assume "cpc s = CheckLockBeats"
  from check_round [OF assms(1) this assms(2,3), of tpm deflater inflater Outside]
  show "case check_iteration (cl s) of
         Inr nc \<Rightarrow> ct_steps tpm deflater inflater Outside s (s\<lparr>cl := nc, cpc := CheckLoop\<rparr>)
       | Inl e \<Rightarrow> \<exists>t. ct_steps tpm deflater inflater Outside s t \<and> cpc t = CheckTerminated e"
    by (cases "check_iteration (cl s)") auto
next
  assume h: "hpc s = HandlerIdle \<and> getID p = parlo_id Heartbeat"
  show "case on_heartbeat tpm now p (cl s) of
         Inr nc \<Rightarrow> ct_steps tpm deflater inflater Outside s (s\<lparr>cl := nc\<rparr>)
       | Inl e \<Rightarrow> \<exists>t. ct_steps tpm deflater inflater Outside s t \<and> hpc t = HandlerTerminated e"
  proof (cases "on_heartbeat tpm now p (cl s)")
    case (Inl e)
    with heartbeat_run [OF assms(1) _ _ assms(2,3), of p tpm deflater inflater Outside now] h show ?thesis by auto
  next
    case (Inr nc)
    let ?h = "s\<lparr>aliveMutex := Some HandlerThread, heartbeatsMutex := Some HandlerThread,
      hpc := HandlerCallback, cl := nc\<rparr>"
    let ?r = "?h\<lparr>hpc := HandlerIdle, aliveMutex := None, heartbeatsMutex := None\<rparr>"
    have "ct_steps tpm deflater inflater Outside s ?h"
      using heartbeat_run [OF assms(1) _ _ assms(2,3), of p tpm deflater inflater Outside now] h Inr by simp
    moreover have "process_runs ?h" using assms(1) by (simp add: process_runs_pc)
    ultimately have "ct_steps tpm deflater inflater Outside s ?r"
      by (rule ct_steps_more(2) [OF _ _ handler_step.release]) simp_all
    moreover have "?r = s\<lparr>cl := nc\<rparr>" using assms(2,3) h by (cases s) simp
    ultimately show ?thesis using Inr by simp
  qed
qed

theorem threads_refine_rounds_witness:
  "ct_steps 1000 store_codec store_codec Outside (ct_init sample_client)
     ((ct_init sample_client)\<lparr>cl := emit HeartbeatReceived
        (sample_client\<lparr>isAlive := True, missedHeartbeats := 0, lastRTT := 30020\<rparr>)\<rparr>)"
  using threads_refine_rounds [of "ct_init sample_client" 1000 store_codec store_codec sample_pulse 5020000]
  by (simp add: sample_pulse_accepted) (simp add: sample_pulse_def getID_def)

end
