(* ===== verification/Data_Races.thy ===== *)
theory Data_Races
  imports Worker_Threads Client_Threads
begin

text \<open>
  Which members two threads can touch at the same time, one of them writing. For the states of
  Worker_Threads and Client_Threads, \<open>pb_acc\<close> and \<open>nc_acc\<close> give what the next action of every thread
  reads and writes. The locale \<open>lock_discipline\<close> is the argument that a mutex excludes a conflict;
  where the code takes no mutex, the conflict is reached.
\<close>

section \<open>Conflicts\<close>

datatype access = Read | Write

definition conflict :: "('a \<Rightarrow> ('v \<times> access) set) \<Rightarrow> 'a \<Rightarrow> 'a \<Rightarrow> 'v \<Rightarrow> bool" where
  "conflict acc a b v \<longleftrightarrow> a \<noteq> b \<and>
     (\<exists>x y. (v, x) \<in> acc a \<and> (v, y) \<in> acc b \<and> (x = Write \<or> y = Write))"

text \<open>
  \<open>guarded a v x m\<close>: the accesses x of a to v are made under the mutex m. A mutex has one holder.
\<close>

locale lock_discipline =
  fixes good :: "'s \<Rightarrow> bool" and acc :: "'s \<Rightarrow> 'a \<Rightarrow> ('v \<times> access) set"
    and holds :: "'s \<Rightarrow> 'a \<Rightarrow> 'm set" and guarded :: "'a \<Rightarrow> 'v \<Rightarrow> access \<Rightarrow> 'm \<Rightarrow> bool"
  assumes exclusive: "good s \<Longrightarrow> m \<in> holds s a \<Longrightarrow> m \<in> holds s b \<Longrightarrow> a = b"
    and guard: "good s \<Longrightarrow> (v, x) \<in> acc s a \<Longrightarrow> guarded a v x m \<Longrightarrow> m \<in> holds s a"
begin

lemma apart:
  "good s \<Longrightarrow> (v, x) \<in> acc s a \<Longrightarrow> (v, y) \<in> acc s b \<Longrightarrow> guarded a v x m \<Longrightarrow> guarded b v y m \<Longrightarrow> a = b"
  by (blast intro: exclusive guard)

lemma conflict_unguarded:
  assumes "good s" "conflict (acc s) a b v"
  shows "\<exists>x y. (v, x) \<in> acc s a \<and> (v, y) \<in> acc s b \<and> (x = Write \<or> y = Write) \<and>
    (\<forall>m. \<not> (guarded a v x m \<and> guarded b v y m))"
  using assms apart unfolding conflict_def by blast

end

section \<open>The buffer\<close>

text \<open>
  Besides the threads of Worker_Threads: a caller of \<open>bufferCount\<close> and one of
  \<open>setOnPacketProcessedHandler\<close>, neither of which takes the mutex.
\<close>

datatype pb_user = Thread agent | CountCaller | HandlerSetter

datatype pb_var = Queue | Header | Handler

text \<open>What a turn of the worker does, from what it finds.\<close>

definition reads_header :: "procbuf \<Rightarrow> bool" where
  "reads_header pb \<longleftrightarrow> length (internalBuffer pb) \<ge> header_size STANDARD \<and> \<not> hasReadHeader pb"

definition takes_payload :: "procbuf \<Rightarrow> bool" where
  "takes_payload pb \<longleftrightarrow> hasReadHeader (with_header pb) \<and>
     length (internalBuffer (with_header pb)) \<ge> payload_size (currentLength (with_header pb))"

definition worker_acc :: "worker_pc \<Rightarrow> procbuf \<Rightarrow> (pb_var \<times> access) set" where
  "worker_acc pc pb =
     (if pc = Testing then {(Queue, Read)}
      else if pc = Processing then
        {(Queue, Read), (Header, Read)} \<union>
        (if reads_header pb \<or> takes_payload pb then {(Queue, Write), (Header, Write)} else {}) \<union>
        (if takes_payload pb then {(Handler, Read)} else {})
      else {})"

fun producer_acc :: "producer_pc \<Rightarrow> (pb_var \<times> access) set" where
  "producer_acc (Pushing d) = (if d = [] then {} else {(Queue, Write)})"
| "producer_acc _ = {}"

fun pb_acc :: "'u pbsys \<Rightarrow> pb_user \<Rightarrow> (pb_var \<times> access) set" where
  "pb_acc s (Thread Worker) = worker_acc (wpc s) (buf s)"
| "pb_acc s (Thread (Producer i)) = producer_acc (ppc s i)"
| "pb_acc s CountCaller = {(Queue, Read)}"
| "pb_acc s HandlerSetter = {(Handler, Write)}"

fun pb_holds :: "'u pbsys \<Rightarrow> pb_user \<Rightarrow> unit set" where
  "pb_holds s (Thread t) = (if lock s = Some t then {()} else {})"
| "pb_holds s _ = {}"

definition pb_guarded :: "pb_user \<Rightarrow> pb_var \<Rightarrow> access \<Rightarrow> unit \<Rightarrow> bool" where
  "pb_guarded a v x m \<longleftrightarrow> (\<exists>t. a = Thread t)"

lemma pb_holds_iff: "m \<in> pb_holds s a \<longleftrightarrow> (\<exists>t. a = Thread t \<and> lock s = Some t)"
  by (cases a) auto

lemma worker_acc_holds: "(v, x) \<in> worker_acc pc pb \<Longrightarrow> holds_lock pc"
  by (auto simp: worker_acc_def split: if_splits)

lemma producer_acc_pushing: "(v, x) \<in> producer_acc pc \<Longrightarrow> \<exists>d. pc = Pushing d"
  by (cases pc) auto

lemma producer_acc_queue: "(v, x) \<in> producer_acc pc \<Longrightarrow> v = Queue"
  by (cases pc) (auto split: if_splits)

interpretation pbd: lock_discipline lock_inv pb_acc pb_holds pb_guarded
proof
  fix s :: "'u pbsys" and m a b
  assume "m \<in> pb_holds s a" "m \<in> pb_holds s b"
  then show "a = b" by (auto simp: pb_holds_iff)
next
  fix s :: "'u pbsys" and v x a m
  assume inv: "lock_inv s" and "(v, x) \<in> pb_acc s a" "pb_guarded a v x m"
  then show "m \<in> pb_holds s a"
    by (cases "(s, a)" rule: pb_acc.cases)
      (auto simp: pb_guarded_def pb_holds_iff lock_inv_def dest: worker_acc_holds producer_acc_pushing)
qed

lemma pb_acc_unguarded:
  "(v, x) \<in> pb_acc s a \<Longrightarrow> \<not> pb_guarded a v x m \<Longrightarrow>
     a = CountCaller \<and> v = Queue \<and> x = Read \<or> a = HandlerSetter \<and> v = Handler \<and> x = Write"
  by (cases a) (auto simp: pb_guarded_def)

lemma conflicts_unlocked:
  assumes "lock_inv s" "conflict (pb_acc s) a b v"
  shows "v = Queue \<and> (\<exists>t. {a, b} = {CountCaller, Thread t} \<and> (Queue, Write) \<in> pb_acc s (Thread t)) \<or>
    v = Handler \<and> {a, b} = {HandlerSetter, Thread Worker} \<and> wpc s = Processing \<and> takes_payload (buf s)"
proof -
  from pbd.conflict_unguarded [OF assms] obtain x y where acc: "(v, x) \<in> pb_acc s a" "(v, y) \<in> pb_acc s b"
    "x = Write \<or> y = Write" "\<not> pb_guarded a v x () \<or> \<not> pb_guarded b v y ()" by blast
  have "a \<noteq> b" using assms(2) by (simp add: conflict_def)
  have handler: "t = Worker \<and> wpc s = Processing \<and> takes_payload (buf s)" if "(Handler, z) \<in> pb_acc s (Thread t)" for z t
    using that producer_acc_queue by (cases t) (auto simp: worker_acc_def split: if_splits)
  from acc(4) pb_acc_unguarded [OF acc(1)] pb_acc_unguarded [OF acc(2)] consider
    "a = CountCaller \<and> v = Queue \<and> x = Read" | "a = HandlerSetter \<and> v = Handler"
    | "b = CountCaller \<and> v = Queue \<and> y = Read" | "b = HandlerSetter \<and> v = Handler" by blast
  then show ?thesis
  proof cases
    case 1
    with acc \<open>a \<noteq> b\<close> show ?thesis by (cases b) auto
  next
    case 2
    with acc \<open>a \<noteq> b\<close> handler show ?thesis by (cases b) auto
  next
    case 3
    with acc \<open>a \<noteq> b\<close> show ?thesis by (cases a) auto
  next
    case 4
    with acc \<open>a \<noteq> b\<close> handler show ?thesis by (cases a) auto
  qed
qed

lemma unlocked_conflict:
  assumes "v = Queue \<and> (\<exists>t. {a, b} = {CountCaller, Thread t} \<and> (Queue, Write) \<in> pb_acc s (Thread t)) \<or>
    v = Handler \<and> {a, b} = {HandlerSetter, Thread Worker} \<and> wpc s = Processing \<and> takes_payload (buf s)"
  shows "conflict (pb_acc s) a b v"
  using assms
proof (elim disjE conjE exE)
  fix t
  assume *: "v = Queue" "{a, b} = {CountCaller, Thread t}" "(Queue, Write) \<in> pb_acc s (Thread t)"
  have "(Queue, Read) \<in> pb_acc s CountCaller" by simp
  with * show ?thesis unfolding conflict_def doubleton_eq_iff by blast
next
  assume *: "v = Handler" "{a, b} = {HandlerSetter, Thread Worker}" "wpc s = Processing" "takes_payload (buf s)"
  have "(Handler, Write) \<in> pb_acc s HandlerSetter" "(Handler, Read) \<in> pb_acc s (Thread Worker)"
    using *(3,4) by (simp_all add: worker_acc_def)
  with *(1,2) show ?thesis unfolding conflict_def doubleton_eq_iff by blast
qed

text \<open>A complete frame is what the worker takes.\<close>

lemma takes_payload_frame:
  assumes "next_frame (pending pb) = Some (f, r)" "length (pending pb) \<le> queue_cap"
  shows "takes_payload pb"
proof -
  note same = pending_with_header [of pb]
  have f: "next_frame (pending (with_header pb)) = Some (f, r)"
    using assms(1) same_stream_decode [OF same] by simp
  then have h: "hasReadHeader (with_header pb)" using next_frame_pending_no_header [of pb] by force
  have "length (internalBuffer (with_header pb)) \<le> queue_cap"
    using assms(2) same_stream_length [OF same] by (simp add: pending_def split: if_splits)
  from next_frame_pending_header [OF h this] f h show ?thesis
    by (auto simp: takes_payload_def split: if_splits)
qed

section \<open>The client\<close>

text \<open>
  The threads of Client_Threads and a caller of \<open>sendAsync\<close>. The members that more than one of them
  uses: \<open>isAlive\<close> and \<open>missedHeartbeats\<close>, which are atomic and have a mutex each, and \<open>lastRTT\<close>,
  \<open>lastHeartbeatSent\<close> and \<open>owner\<close>, which are plain.
\<close>

datatype nc_user = CheckThreadUser | SendThreadUser | WorkerUser | SendCaller

datatype nc_var = Alive_flag | Missed_count | Last_RTT | Last_sent | Owner_ptr

text \<open>
  \<open>from_socket\<close>: the client was made from a socket, so that its packet handler sets \<open>owner\<close> at every
  packet. \<open>sendAsync\<close> reads \<open>lastRTT\<close> once it has found the client connected; the handler writes it
  unless its parser refuses the packet as too short. An atomic increment counts as a write.
\<close>

definition send_acc :: "nclient \<Rightarrow> (nc_var \<times> access) set" where
  "send_acc nc = (if connected nc then {(Last_RTT, Read)} else {})"

definition check_acc :: "check_pc \<Rightarrow> nclient \<Rightarrow> (nc_var \<times> access) set" where
  "check_acc pc nc =
     (case pc of
        CheckCount \<Rightarrow> {(Missed_count, Write)}
      | CheckCompare \<Rightarrow> {(Missed_count, Read)}
      | CheckMark \<Rightarrow> {(Alive_flag, Write)}
      | CheckReport \<Rightarrow> (if onConnectionLost nc then {(Owner_ptr, Read)} else {})
      | _ \<Rightarrow> {})"

definition handler_acc :: "bool \<Rightarrow> handler_pc \<Rightarrow> (nc_var \<times> access) set" where
  "handler_acc from_socket pc =
     (case pc of
        HandlerIdle \<Rightarrow> (if from_socket then {(Owner_ptr, Write)} else {})
      | HandlerAlive p \<Rightarrow> {(Alive_flag, Write)}
      | HandlerClear p \<Rightarrow> {(Missed_count, Write)}
      | HandlerParse p \<Rightarrow> (if 8 * 2 + 1 \<le> length (getData p) then {(Last_RTT, Write)} else {})
      | _ \<Rightarrow> {})"

definition heartbeat_acc :: "send_pc \<Rightarrow> nclient \<Rightarrow> (nc_var \<times> access) set" where
  "heartbeat_acc pc nc = (if pc = SendBody then {(Last_sent, Read), (Last_sent, Write)} \<union> send_acc nc else {})"

fun nc_acc :: "bool \<Rightarrow> ctsys \<Rightarrow> nc_user \<Rightarrow> (nc_var \<times> access) set" where
  "nc_acc from_socket s CheckThreadUser = check_acc (cpc s) (cl s)"
| "nc_acc from_socket s SendThreadUser = heartbeat_acc (spc s) (cl s)"
| "nc_acc from_socket s WorkerUser = handler_acc from_socket (hpc s)"
| "nc_acc from_socket s SendCaller = send_acc (cl s)"

lemmas acc_defs = check_acc_def handler_acc_def heartbeat_acc_def send_acc_def

fun nc_holds :: "ctsys \<Rightarrow> nc_user \<Rightarrow> nc_var set" where
  "nc_holds s CheckThreadUser = (if aliveMutex s = Some Checker then {Alive_flag} else {}) \<union>
     (if heartbeatsMutex s = Some Checker then {Missed_count} else {})"
| "nc_holds s WorkerUser = (if aliveMutex s = Some HandlerThread then {Alive_flag} else {}) \<union>
     (if heartbeatsMutex s = Some HandlerThread then {Missed_count} else {})"
| "nc_holds s _ = {}"

text \<open>The mutexes, named after what they protect: they protect the writes.\<close>

definition nc_guarded :: "nc_user \<Rightarrow> nc_var \<Rightarrow> access \<Rightarrow> nc_var \<Rightarrow> bool" where
  "nc_guarded a v x m \<longleftrightarrow> m = v \<and> v \<in> {Alive_flag, Missed_count} \<and> x = Write"

interpretation ncd: lock_discipline "\<lambda>s. locks_agree s" "nc_acc from_socket" nc_holds nc_guarded
  for from_socket
proof
  fix s m a b
  assume "m \<in> nc_holds s a" "m \<in> nc_holds s b"
  then show "a = b" by (cases a; cases b) (auto split: if_splits)
next
  fix s v x a m
  assume "locks_agree s" "(v, x) \<in> nc_acc from_socket s a" "nc_guarded a v x m"
  then show "m \<in> nc_holds s a"
    by (cases a) (auto simp: nc_guarded_def locks_agree_def acc_defs
      split: check_pc.splits handler_pc.splits if_splits)
qed

text \<open>The conflicts that no mutex excludes.\<close>

definition open_conflict :: "bool \<Rightarrow> ctsys \<Rightarrow> nc_user \<Rightarrow> nc_user \<Rightarrow> nc_var \<Rightarrow> bool" where
  "open_conflict from_socket s a b v \<longleftrightarrow>
     v = Last_RTT \<and> a = WorkerUser \<and> (\<exists>p. hpc s = HandlerParse p \<and> 8 * 2 + 1 \<le> length (getData p)) \<and> connected (cl s) \<and>
       (b = SendCaller \<or> b = SendThreadUser \<and> spc s = SendBody) \<or>
     v = Owner_ptr \<and> a = WorkerUser \<and> from_socket \<and> hpc s = HandlerIdle \<and>
       b = CheckThreadUser \<and> cpc s = CheckReport \<and> onConnectionLost (cl s) \<or>
     v = Missed_count \<and> a = WorkerUser \<and> (\<exists>p. hpc s = HandlerClear p) \<and>
       b = CheckThreadUser \<and> cpc s = CheckCompare"

lemma open_conflict_conflict:
  "open_conflict from_socket s a b v \<Longrightarrow> conflict (nc_acc from_socket s) a b v \<and> conflict (nc_acc from_socket s) b a v"
  by (auto simp: open_conflict_def conflict_def acc_defs)

lemma conflicts_open:
  assumes "locks_agree s" "conflict (nc_acc from_socket s) a b v"
  shows "open_conflict from_socket s a b v \<or> open_conflict from_socket s b a v"
proof -
  from ncd.conflict_unguarded [OF assms] obtain x y where acc: "(v, x) \<in> nc_acc from_socket s a"
    "(v, y) \<in> nc_acc from_socket s b" "x = Write \<or> y = Write" "\<not> (nc_guarded a v x v \<and> nc_guarded b v y v)"
    by blast
  have "a \<noteq> b" using assms(2) by (simp add: conflict_def)
  with acc show ?thesis
    by (cases a; cases b) (auto simp: open_conflict_def acc_defs nc_guarded_def
      split: check_pc.splits handler_pc.splits if_splits)
qed

lemma sender_wakes:
  "process_runs s \<Longrightarrow> spc s = SendLoop \<Longrightarrow> \<not> stopSendingHeartbeats (cl s) \<Longrightarrow>
     ct_steps tpm deflater inflater place s (s\<lparr>spc := SendBody\<rparr>)"
  by (rule ct_steps_one) (simp add: ct_step_def send_step.loop_go)

section \<open>Properties\<close>



text \<open>C18: The data races of the buffer, whatever the schedule. Its mutex keeps the worker and every caller of
  \<open>addData\<close> apart, on the queue and on the header fields. Exactly two conflicts are left: a caller of
  \<open>bufferCount\<close> with whoever changes the queue, and a caller of \<open>setOnPacketProcessedHandler\<close> with a
  worker about to call the handler. Both are reached, at once, by any chunk with a whole packet.\<close>

theorem buffer_races:
  assumes "sendable p" "length (buildPacket p) \<le> 1024"
  shows "(\<forall>fed s a b v. reachable_sys handler u fed s \<longrightarrow>
      (conflict (pb_acc s) a b v \<longleftrightarrow>
        v = Queue \<and> (\<exists>t. {a, b} = {CountCaller, Thread t} \<and> (Queue, Write) \<in> pb_acc s (Thread t)) \<or>
        v = Handler \<and> {a, b} = {HandlerSetter, Thread Worker} \<and> wpc s = Processing \<and> takes_payload (buf s))) \<and>
    (\<exists>s. reachable_sys handler u (buildPacket p) s \<and> conflict (pb_acc s) CountCaller (Thread Worker) Queue \<and>
      conflict (pb_acc s) HandlerSetter (Thread Worker) Handler)"
proof (intro conjI allI impI)
  fix fed s a b v
  assume "reachable_sys handler u fed s"
  from reachable_invs [OF this] have "lock_inv s" by (rule conjunct1)
  from conflicts_unlocked [OF this] show "conflict (pb_acc s) a b v \<longleftrightarrow>
      v = Queue \<and> (\<exists>t. {a, b} = {CountCaller, Thread t} \<and> (Queue, Write) \<in> pb_acc s (Thread t)) \<or>
      v = Handler \<and> {a, b} = {HandlerSetter, Thread Worker} \<and> wpc s = Processing \<and> takes_payload (buf s)"
    by (rule iffI [OF _ unlocked_conflict])
next
  let ?in = "pb_init\<lparr>internalBuffer := buildPacket p\<rparr>"
  let ?s = "sys_at u ?in (Some Worker) Processing Idle"
  have "buildPacket p \<noteq> []"
    using length_buildPacket [of p] by (cases "p_isUDP p") (auto simp: packet_header_def)
  from reach_processing [OF assms(2) this] have "reachable_sys handler u (buildPacket p) ?s" .
  moreover have "takes_payload ?in"
    using takes_payload_frame [of ?in "frame_of p" "[]"] next_frame_build [OF assms(1), of "[]"] assms(2)
    by (simp add: pending_def pb_init_def queue_cap_def)
  then have "conflict (pb_acc ?s) CountCaller (Thread Worker) Queue"
    "conflict (pb_acc ?s) HandlerSetter (Thread Worker) Handler"
    by (auto simp: conflict_def worker_acc_def sys_at_def)
  ultimately show "\<exists>s. reachable_sys handler u (buildPacket p) s \<and>
      conflict (pb_acc s) CountCaller (Thread Worker) Queue \<and>
      conflict (pb_acc s) HandlerSetter (Thread Worker) Handler" by blast
qed

theorem buffer_races_witness:
  "\<exists>p s. Packet_TCP 1 [5, 6] False = Inr p \<and> reachable_sys (None :: (packet \<Rightarrow> unit \<Rightarrow> unit result) option) () (buildPacket p) s \<and>
     conflict (pb_acc s) CountCaller (Thread Worker) Queue"
proof -
  obtain p where p: "Packet_TCP 1 [5, 6] False = Inr p" by (simp add: Packet_TCP_def)
  have "sendable p" "length (buildPacket p) \<le> 1024"
    using p wf_Packet_TCP [OF p] by (auto simp: sendable_def result_simps length_buildPacket packet_header_def)
  from conjunct2 [OF buffer_races [OF this, of "None :: (packet \<Rightarrow> unit \<Rightarrow> unit result) option" "()"]] p
  show ?thesis by blast
qed

end
