(* ===== verification/Teardown.thy ===== *)
theory Teardown
  imports Client_Threads
begin

text \<open>
  The destructor of NetworkClient.cpp while packets still arrive. It stops the two heartbeat threads
  and waits for each, up to one sleep of 30 seconds; the buffer's worker runs on until the members
  are destroyed after that. By then no shared_ptr owns the client any more (\<open>clientShared\<close> is false),
  so a packet handler that asks for one raises, on the worker's thread.
\<close>

section \<open>What the threads never change\<close>

definition packet_handlers :: "nclient \<Rightarrow> bool" where
  "packet_handlers nc \<longleftrightarrow> onServerDisconnected nc \<or> onClientDisconnected nc \<or> onReceivedHeartbeat nc \<or> onReceivedData nc"

definition same_handlers :: "nclient \<Rightarrow> nclient \<Rightarrow> bool" where
  "same_handlers nc nc' \<longleftrightarrow> onServerDisconnected nc' = onServerDisconnected nc \<and>
     onClientDisconnected nc' = onClientDisconnected nc \<and> onReceivedHeartbeat nc' = onReceivedHeartbeat nc \<and>
     onReceivedData nc' = onReceivedData nc"

lemma same_handlers_updates [simp]:
  "same_handlers nc nc" "same_handlers nc (nc\<lparr>isAlive := a\<rparr>)" "same_handlers nc (nc\<lparr>missedHeartbeats := m\<rparr>)"
  "same_handlers nc (nc\<lparr>stopCheckMissedHeartbeats := b\<rparr>)" "same_handlers nc (nc\<lparr>stopSendingHeartbeats := b\<rparr>)"
  "same_handlers nc (nc\<lparr>heartbeatCheckThread := b\<rparr>)" "same_handlers nc (nc\<lparr>sendHeartbeatsThread := b\<rparr>)"
  "same_handlers nc (nc\<lparr>connected := b\<rparr>)"
  by (simp_all add: same_handlers_def)

lemma same_handlers_emit [simp]:
  "onServerDisconnected (emit e nc) = onServerDisconnected nc" "onClientDisconnected (emit e nc) = onClientDisconnected nc"
  "onReceivedHeartbeat (emit e nc) = onReceivedHeartbeat nc" "onReceivedData (emit e nc) = onReceivedData nc"
  by (simp_all add: emit_def)

lemma same_handlers_fire_lost: "fire_lost nc = Inr nc' \<Longrightarrow> same_handlers nc nc'"
  by (auto simp: fire_lost_Inr_iff same_handlers_def split: if_splits)

lemma same_handlers_rtt: "heartbeat_rtt tpm now p nc = Inr nc' \<Longrightarrow> same_handlers nc nc'"
  by (auto simp: heartbeat_rtt_def and_then_Inr_iff fire_Inr_iff same_handlers_def Let_def split: if_splits)

lemma same_handlers_on_packet:
  "on_packet tpm now inflater p nc = Inr nc' \<Longrightarrow> getID p \<noteq> parlo_id Heartbeat \<Longrightarrow> same_handlers nc nc'"
  by (auto simp: on_packet_def and_then_Inr_iff fire_Inr_iff same_handlers_def split: if_splits)

lemma same_handlers_send: "sendHeartbeat_iteration tpm deflater clock nc = Inr nc' \<Longrightarrow> same_handlers nc nc'"
  by (drule sendHeartbeat_shape) (auto simp: same_handlers_def)

lemma same_handlers_step: "ct_step tpm deflater inflater place s t \<Longrightarrow> same_handlers (cl s) (cl t)"
  unfolding ct_step_def
  by (elim conjE disjE check_stepE send_stepE handler_stepE closer_stepE)
    (simp_all add: same_handlers_fire_lost same_handlers_rtt same_handlers_on_packet same_handlers_send)

lemma same_handlers_set: "same_handlers nc nc' \<Longrightarrow> packet_handlers nc' = packet_handlers nc"
  by (simp add: same_handlers_def packet_handlers_def)

section \<open>Who asks for a shared_ptr\<close>

lemma quiet_rtt:
  "\<not> packet_handlers nc \<Longrightarrow> heartbeat_rtt tpm now p nc = Inl e \<Longrightarrow> e \<noteq> Bad_weak_ptr"
  by (auto simp: heartbeat_rtt_def hb_byteArrayToObject_def and_then_Inl_iff fire_def packet_handlers_def
      checked_i64_def Let_def split: if_splits)

lemma quiet_on_packet:
  "\<not> packet_handlers nc \<Longrightarrow> getID p \<noteq> parlo_id Heartbeat \<Longrightarrow> on_packet tpm now inflater p nc = Inl e \<Longrightarrow>
     e \<noteq> Bad_weak_ptr"
  by (auto simp: on_packet_def fire_def packet_handlers_def and_then_Inl_iff decompressData_def
      split: if_splits option.splits prod.splits)

definition quiet :: "ctsys \<Rightarrow> bool" where
  "quiet s \<longleftrightarrow> \<not> packet_handlers (cl s) \<and> hpc s \<noteq> HandlerTerminated Bad_weak_ptr"

lemma quiet_handler:
  "handler_step tpm inflater place s t \<Longrightarrow> quiet s \<Longrightarrow> hpc t \<noteq> HandlerTerminated Bad_weak_ptr"
  by (erule handler_stepE) (auto simp: quiet_def dest: quiet_rtt quiet_on_packet)

lemma quiet_step:
  assumes "ct_step tpm deflater inflater place s t" "quiet s"
  shows "quiet t"
proof -
  have "hpc t \<noteq> HandlerTerminated Bad_weak_ptr"
    using assms(1) unfolding ct_step_def
  proof (elim conjE disjE)
    assume "handler_step tpm inflater place s t"
    from quiet_handler [OF this assms(2)] show ?thesis .
  qed (use assms(2) in \<open>auto simp: quiet_def elim: check_stepE send_stepE closer_stepE\<close>)
  with assms(2) same_handlers_set [OF same_handlers_step [OF assms(1)]] show ?thesis by (simp add: quiet_def)
qed

lemma quiet_steps: "ct_steps tpm deflater inflater place s t \<Longrightarrow> quiet s \<Longrightarrow> quiet t"
  by (induction rule: ct_steps.induct) (auto intro: quiet_step)

text \<open>For every handler there is a packet that calls it.\<close>

definition plain_packet :: "byte \<Rightarrow> bytes \<Rightarrow> packet" where
  "plain_packet i d = \<lparr>p_id = i, p_isCompressed = 0, p_isReliable = 0, p_length = word_of_nat (4 + length d),
     p_data = d, p_isUDP = False\<rparr>"

lemma plain_packet_simps [simp]:
  "p_id (plain_packet i d) = i" "p_data (plain_packet i d) = d" "p_isCompressed (plain_packet i d) = 0"
  by (simp_all add: plain_packet_def)

lemma raising_packet:
  assumes "onServerDisconnected nc \<or> onClientDisconnected nc \<or> onReceivedData nc" "\<not> clientShared nc"
  shows "\<exists>p. getID p \<noteq> parlo_id Heartbeat \<and> on_packet tpm now inflater p nc = Inl Bad_weak_ptr"
  using assms(1)
proof (elim disjE)
  assume "onServerDisconnected nc"
  with assms(2) show ?thesis
    by (intro exI [of _ "plain_packet (parlo_id SGoodbye) [0]"]) (simp add: on_packet_def fire_def)
next
  assume "onClientDisconnected nc"
  with assms(2) show ?thesis
    by (intro exI [of _ "plain_packet (parlo_id CGoodbye) [0]"]) (simp add: on_packet_def fire_def)
next
  assume "onReceivedData nc"
  with assms(2) show ?thesis
    by (intro exI [of _ "plain_packet 1 [0]"]) (simp add: on_packet_def)
qed

lemma raising_heartbeat:
  assumes "onReceivedHeartbeat nc" "\<not> clientShared nc" "0 < tpm"
  shows "\<exists>p now. getID p = parlo_id Heartbeat \<and> heartbeat_rtt tpm now p nc = Inl Bad_weak_ptr"
proof -
  let ?h = "\<lparr>timeSinceLast = 0, sentTimestamp = 0\<rparr>"
  let ?p = "plain_packet (parlo_id Heartbeat) (0 # hb_toByteArray tpm ?h)"
  have "hb_byteArrayToObject tpm 0 (getData ?p) = Inr (to_millis tpm ?h)"
    using hb_parse_serialized [of ?h tpm 0 0 "[]"] assms(3) by (simp add: hb_valid_def in_i64_def)
  then have "heartbeat_rtt tpm 0 ?p nc = Inl Bad_weak_ptr"
    using assms(1,2) by (simp add: heartbeat_rtt_def to_millis_def getSentTimestamp_def getTimeSinceLast_def
        checked_i64_def in_i64_def fire_def sdiv_lower_eq)
  then show ?thesis by (intro exI [of _ ?p] exI [of _ 0]) simp
qed

text \<open>The destructor waits for the check thread.\<close>

lemma destructor_waits:
  assumes "threads_started nc"
  shows "ct_steps tpm deflater inflater Outside (ct_init nc)
    ((ct_init nc)\<lparr>cl := nc\<lparr>stopCheckMissedHeartbeats := True\<rparr>, xpc := CloserJoinCheck\<rparr>)"
proof -
  let ?s = "(ct_init nc)\<lparr>xpc := CloserStopCheck\<rparr>"
  have s: "ct_steps tpm deflater inflater Outside (ct_init nc) ?s"
    by (rule ct_steps_more(3) [OF ct_steps.start _ closer_step.call]) simp_all
  have "closer_step Outside ?s ((ct_init nc)\<lparr>cl := nc\<lparr>stopCheckMissedHeartbeats := True\<rparr>, xpc := CloserJoinCheck\<rparr>)"
    using closer_step.stop_check [of ?s Outside] assms by (simp add: threads_started_def)
  from ct_steps_more(3) [OF s _ this] show ?thesis by simp
qed

section \<open>Properties\<close>

text \<open>C19: When a client may be destroyed while its peer still sends. The destructor waits for the check
  thread, and meanwhile the worker handles packets. If the user has set any handler for packets,
  there is a packet whose handling raises std::bad_weak_ptr there, which ends the process; if none
  is set, no packet and no schedule does that.\<close>

theorem teardown_ends_process:
  assumes "threads_started nc" "\<not> clientShared nc" "0 < tpm"
  shows "(\<exists>s. ct_steps tpm deflater inflater Outside (ct_init nc) s \<and> xpc s = CloserJoinCheck \<and>
      hpc s = HandlerTerminated Bad_weak_ptr) \<longleftrightarrow>
    onServerDisconnected nc \<or> onClientDisconnected nc \<or> onReceivedHeartbeat nc \<or> onReceivedData nc"
proof
  assume "\<exists>s. ct_steps tpm deflater inflater Outside (ct_init nc) s \<and> xpc s = CloserJoinCheck \<and>
      hpc s = HandlerTerminated Bad_weak_ptr"
  then obtain s where s: "ct_steps tpm deflater inflater Outside (ct_init nc) s"
    "hpc s = HandlerTerminated Bad_weak_ptr" by blast
  have "packet_handlers nc"
  proof (rule ccontr)
    assume "\<not> packet_handlers nc"
    then have "quiet (ct_init nc)" by (simp add: quiet_def)
    from quiet_steps [OF s(1) this] s(2) show False by (simp add: quiet_def)
  qed
  then show "onServerDisconnected nc \<or> onClientDisconnected nc \<or> onReceivedHeartbeat nc \<or> onReceivedData nc"
    by (simp add: packet_handlers_def)
next
  let ?nc = "nc\<lparr>stopCheckMissedHeartbeats := True\<rparr>"
  let ?w = "(ct_init nc)\<lparr>cl := ?nc, xpc := CloserJoinCheck\<rparr>"
  note w = destructor_waits [OF assms(1), of tpm deflater inflater]
  assume "onServerDisconnected nc \<or> onClientDisconnected nc \<or> onReceivedHeartbeat nc \<or> onReceivedData nc"
  then show "\<exists>s. ct_steps tpm deflater inflater Outside (ct_init nc) s \<and> xpc s = CloserJoinCheck \<and>
      hpc s = HandlerTerminated Bad_weak_ptr"
  proof (cases "onReceivedHeartbeat nc")
    case False
    assume "onServerDisconnected nc \<or> onClientDisconnected nc \<or> onReceivedHeartbeat nc \<or> onReceivedData nc"
    with False raising_packet [of ?nc tpm _ inflater] assms(2) obtain p where
      p: "getID p \<noteq> parlo_id Heartbeat" "on_packet tpm 0 inflater p ?nc = Inl Bad_weak_ptr" by auto
    have "handler_step tpm inflater Outside ?w (?w\<lparr>hpc := HandlerTerminated Bad_weak_ptr\<rparr>)"
      by (rule handler_step.other_raises [of _ p tpm 0]) (use p in simp_all)
    from ct_steps_more(2) [OF w _ this] show ?thesis
      by (intro exI [of _ "?w\<lparr>hpc := HandlerTerminated Bad_weak_ptr\<rparr>"]) simp
  next
    case True
    let ?b = "?nc\<lparr>isAlive := True, missedHeartbeats := 0\<rparr>"
    from raising_heartbeat [of ?b tpm] True assms(2,3) obtain p now where
      p: "getID p = parlo_id Heartbeat" "heartbeat_rtt tpm now p ?b = Inl Bad_weak_ptr" by auto
    let ?h = "?w\<lparr>aliveMutex := Some HandlerThread, hpc := HandlerParse p, heartbeatsMutex := Some HandlerThread, cl := ?b\<rparr>"
    have "ct_steps tpm deflater inflater Outside ?w ?h"
      using heartbeat_enters [of ?w p tpm deflater inflater Outside] p(1) by simp
    from ct_steps_trans [OF w this] have h: "ct_steps tpm deflater inflater Outside (ct_init nc) ?h" .
    have "handler_step tpm inflater Outside ?h (?h\<lparr>hpc := HandlerTerminated Bad_weak_ptr\<rparr>)"
      by (rule handler_step.parse_raises [of _ p tpm now]) (use p in simp_all)
    from ct_steps_more(2) [OF h _ this] show ?thesis
      by (intro exI [of _ "?h\<lparr>hpc := HandlerTerminated Bad_weak_ptr\<rparr>"]) (simp add: process_runs_pc)
  qed
qed

theorem teardown_ends_process_witness:
  "\<exists>s. ct_steps 1000 store_codec store_codec Outside (ct_init (sample_client\<lparr>clientShared := False\<rparr>)) s \<and>
     hpc s = HandlerTerminated Bad_weak_ptr"
proof -
  let ?nc = "sample_client\<lparr>clientShared := False\<rparr>"
  have "threads_started ?nc" "\<not> clientShared ?nc" "onReceivedHeartbeat ?nc"
    by (simp_all add: threads_started_def sample_client_def nc_init_def)
  then show ?thesis using teardown_ends_process [of ?nc 1000 store_codec store_codec] by auto
qed

end
