(* ===== verification/Watchdog.thy ===== *)
theory Watchdog
  imports Network_Client
begin

text \<open>
  The watchdog of NetworkClient.cpp over whole histories: rounds of \<open>checkForMissedHeartbeats\<close> and
  packets of any kind, in any order, each of them undisturbed. When it reports the connection lost
  is a function of the history alone.
\<close>

section \<open>Histories\<close>

text \<open>A round of the check thread, or a packet for the packet handler, with what the clock reads.\<close>

datatype watch_event = Round | Arrival int packet

fun watch :: "int \<Rightarrow> 'z codec \<Rightarrow> watch_event list \<Rightarrow> nclient \<Rightarrow> nclient result" where
  "watch tpm inflater [] nc = Inr nc"
| "watch tpm inflater (Round # es) nc = and_then (check_iteration nc) (watch tpm inflater es)"
| "watch tpm inflater (Arrival now p # es) nc =
     and_then (on_packet tpm now inflater p nc) (watch tpm inflater es)"

text \<open>The specification: how many rounds there were since the last heartbeat.\<close>

fun is_beat :: "watch_event \<Rightarrow> bool" where
  "is_beat Round = False"
| "is_beat (Arrival now p) = (getID p = parlo_id Heartbeat)"

definition silence :: "watch_event list \<Rightarrow> nat" where
  "silence es = length (filter (\<lambda>e. e = Round) (takeWhile (\<lambda>e. \<not> is_beat e) (rev es)))"

definition reports :: "watch_event list \<Rightarrow> nat set" where
  "reports es = {i. i < length es \<and> es ! i = Round \<and> 7 \<le> silence (take (Suc i) es)}"

section \<open>Lemmas\<close>

lemma silence_simps [simp]:
  "silence [] = 0" "silence (es @ [Round]) = Suc (silence es)"
  "silence (es @ [Arrival now p]) = (if getID p = parlo_id Heartbeat then 0 else silence es)"
  by (simp_all add: silence_def)

lemma silence_le: "silence es \<le> length es"
  by (metis silence_def length_filter_le length_takeWhile_le length_rev order_trans)

lemma reports_snoc:
  "reports (es @ [e]) = reports es \<union> (if e = Round \<and> 7 \<le> silence (es @ [e]) then {length es} else {})"
  by (auto simp: reports_def nth_append less_Suc_eq)

lemma finite_reports [simp]: "finite (reports es)"
  by (simp add: reports_def)

lemma card_reports_snoc:
  "card (reports (es @ [e])) = card (reports es) + (if e = Round \<and> 7 \<le> silence (es @ [e]) then 1 else 0)"
proof -
  have "length es \<notin> reports es" by (simp add: reports_def)
  then show ?thesis by (cases "e = Round") (simp_all add: reports_snoc)
qed

lemma watch_append:
  "watch tpm inflater (es @ fs) nc = and_then (watch tpm inflater es nc) (watch tpm inflater fs)"
  by (induction tpm inflater es nc rule: watch.induct) (auto split: sum.splits simp: and_then_def)

text \<open>What a packet does to the fields the watchdog looks at.\<close>

definition watched_fields :: "nclient \<Rightarrow> bool \<times> bool \<times> bool \<times> nat" where
  "watched_fields nc = (ownerSet nc, clientShared nc, onConnectionLost nc, count_list (trace nc) ConnectionLost)"

lemma packet_keeps:
  assumes "on_packet tpm now inflater p nc = Inr nc'"
  shows "watched_fields nc' = watched_fields nc \<and>
    missedHeartbeats nc' = (if getID p = parlo_id Heartbeat then 0 else missedHeartbeats nc) \<and>
    isAlive nc' = (getID p = parlo_id Heartbeat \<or> isAlive nc)"
  using assms
  by (auto simp: on_packet_def on_heartbeat_def and_then_Inr_iff fire_Inr_iff watched_fields_def Let_def
      split: if_splits)

definition vigilant :: "watch_event list \<Rightarrow> nclient \<Rightarrow> nclient \<Rightarrow> bool" where
  "vigilant es nc nc' \<longleftrightarrow> missedHeartbeats nc' = word_of_nat (silence es) \<and> (isAlive nc' \<longleftrightarrow> silence es \<le> 6) \<and>
     ownerSet nc' \<and> clientShared nc' \<and> onConnectionLost nc' \<and>
     count_list (trace nc') ConnectionLost = count_list (trace nc) ConnectionLost + card (reports es)"

lemma vigilant_round:
  assumes "vigilant es nc nc1" "Suc (length es) < 2 ^ 31"
  shows "\<exists>nc'. check_iteration nc1 = Inr nc' \<and> vigilant (es @ [Round]) nc nc'"
proof -
  from assms(2) silence_le [of es] have "Suc (silence es) < 2 ^ 31" by simp
  with assms(1) check_iteration_eq [of nc1 "silence es"] show ?thesis
    by (auto simp: vigilant_def card_reports_snoc Let_def simp del: of_nat_Suc)
qed

lemma vigilant_packet:
  "vigilant es nc nc1 \<Longrightarrow> on_packet tpm now inflater p nc1 = Inr nc' \<Longrightarrow> vigilant (es @ [Arrival now p]) nc nc'"
  using packet_keeps [of tpm now inflater p nc1 nc']
  by (auto simp: vigilant_def card_reports_snoc watched_fields_def)

lemma watch_outcome:
  assumes "vigilant [] nc nc" "length es < 2 ^ 31"
  shows "case watch tpm inflater es nc of
      Inr nc' \<Rightarrow> vigilant es nc nc'
    | Inl e \<Rightarrow> \<exists>pre now p post nc1. es = pre @ Arrival now p # post \<and>
        watch tpm inflater pre nc = Inr nc1 \<and> on_packet tpm now inflater p nc1 = Inl e"
  using assms(2)
proof (induction es rule: rev_induct)
  case Nil
  from assms(1) show ?case by simp
next
  case (snoc x es)
  show ?case
  proof (cases "watch tpm inflater es nc")
    case (Inl e)
    with snoc obtain pre now p post nc1 where "es = pre @ Arrival now p # post"
      "watch tpm inflater pre nc = Inr nc1" "on_packet tpm now inflater p nc1 = Inl e" by auto
    moreover from this(1) have "es @ [x] = pre @ Arrival now p # (post @ [x])" by simp
    ultimately show ?thesis using Inl by (simp add: watch_append) blast
  next
    case (Inr nc1)
    with snoc have v: "vigilant es nc nc1" by simp
    show ?thesis
    proof (cases x)
      case Round
      with vigilant_round [OF v] snoc.prems Inr show ?thesis by (auto simp: watch_append)
    next
      case (Arrival now p)
      with vigilant_packet [OF v, of tpm now inflater p] Inr show ?thesis
        by (cases "on_packet tpm now inflater p nc1") (auto simp: watch_append)
    qed
  qed
qed

section \<open>Properties\<close>

text \<open>C23: Exactly when the watchdog reports. Over any history of its rounds and arriving packets, the
  connection-lost handler is called once in every round that is the seventh or a later one since
  the last heartbeat, and at no other time; other packets do not count as a sign of life. The
  counter is the number of rounds since the last heartbeat, and the client counts as alive exactly
  while it is at most six. A history ends early only where a packet makes its handler raise.\<close>

theorem watchdog_exact:
  assumes "missedHeartbeats nc = 0" "isAlive nc" "ownerSet nc" "clientShared nc" "onConnectionLost nc"
    and "length es < 2 ^ 31"
  shows "case watch tpm inflater es nc of
      Inr nc' \<Rightarrow> missedHeartbeats nc' = word_of_nat (silence es) \<and> (isAlive nc' \<longleftrightarrow> silence es \<le> 6) \<and>
        count_list (trace nc') ConnectionLost = count_list (trace nc) ConnectionLost +
          card {i. i < length es \<and> es ! i = Round \<and> 7 \<le> silence (take (Suc i) es)}
    | Inl e \<Rightarrow> \<exists>pre now p post nc1. es = pre @ Arrival now p # post \<and>
        watch tpm inflater pre nc = Inr nc1 \<and> on_packet tpm now inflater p nc1 = Inl e"
proof -
  have "vigilant [] nc nc" using assms by (simp add: vigilant_def reports_def)
  from watch_outcome [OF this assms(6), of tpm inflater] show ?thesis
    by (auto simp: vigilant_def reports_def split: sum.splits)
qed

theorem watchdog_exact_witness:
  "\<exists>nc'. watch 1000 store_codec (replicate 8 Round) ((nc_init 0 True True)\<lparr>ownerSet := True, onConnectionLost := True\<rparr>) = Inr nc' \<and>
     \<not> isAlive nc' \<and> missedHeartbeats nc' = 8"
proof -
  let ?nc = "(nc_init 0 True True)\<lparr>ownerSet := True, onConnectionLost := True\<rparr>"
  have s: "silence (replicate 8 Round) = 8" by (simp add: silence_def numeral_eq_Suc)
  have a: "Arrival now p \<notin> set (replicate 8 Round)" for now p by simp
  have n: "replicate 8 Round \<noteq> pre @ Arrival now p # post" for pre now p post
    using a [of now p] by (metis in_set_conv_decomp)
  from watchdog_exact [of ?nc "replicate 8 Round" 1000 store_codec] s n show ?thesis
    by (cases "watch 1000 store_codec (replicate 8 Round) ?nc") (auto simp: nc_init_def)
qed

end
