(* ===== verification/Public_Interface.thy ===== *)
theory Public_Interface
  imports Listener
begin

text \<open>
  The public classes of Parlo.h: Packet, NetworkClient and Listener, each a pointer to its Impl that
  is never null, with members that call those of the Impl. A Packet has a second, protected member
  \<open>data\<close>. \<open>client_calls\<close> is what a program that uses a client sees of it; its reference \<open>api_calls\<close>
  is an automaton of three bits.
\<close>

section \<open>Packet\<close>

record packet_object =
  pk_impl :: packet
  pk_data :: bytes

definition Packet_object_TCP :: "byte \<Rightarrow> bytes \<Rightarrow> bool \<Rightarrow> packet_object result" where
  "Packet_object_TCP i serializedData compressed =
     and_then (Packet_TCP i serializedData compressed) (\<lambda>p. Inr \<lparr>pk_impl = p, pk_data = []\<rparr>)"

definition Packet_object_UDP :: "byte \<Rightarrow> bytes \<Rightarrow> bool \<Rightarrow> bool \<Rightarrow> packet_object result" where
  "Packet_object_UDP i serializedData compressed reliable =
     and_then (Packet_UDP i serializedData compressed reliable) (\<lambda>p. Inr \<lparr>pk_impl = p, pk_data = []\<rparr>)"

definition pk_buildPacket :: "packet_object \<Rightarrow> bytes" where
  "pk_buildPacket p = buildPacket (pk_impl p)"

definition pk_getID :: "packet_object \<Rightarrow> byte" where
  "pk_getID p = getID (pk_impl p)"

definition pk_getIsCompressed :: "packet_object \<Rightarrow> byte" where
  "pk_getIsCompressed p = getIsCompressed (pk_impl p)"

definition pk_getLength :: "packet_object \<Rightarrow> u16" where
  "pk_getLength p = getLength (pk_impl p)"

definition pk_getData :: "packet_object \<Rightarrow> bytes" where
  "pk_getData p = getData (pk_impl p)"

section \<open>NetworkClient\<close>

text \<open>The member \<open>socket\<close> of the Impl is a reference to the user's Socket, here its address.\<close>

record client_object =
  co_impl :: nclient
  co_socket :: nat

datatype answer = Returned | Raised exn | SocketAt nat

text \<open>A member that only calls the same member of the Impl.\<close>

definition forward :: "(nclient \<Rightarrow> nclient result) \<Rightarrow> client_object \<Rightarrow> client_object \<times> answer" where
  "forward member c = (case member (co_impl c) of
     Inl e \<Rightarrow> (c, Raised e) | Inr nc \<Rightarrow> (c\<lparr>co_impl := nc\<rparr>, Returned))"

definition Client_object :: "i32 \<Rightarrow> bool \<Rightarrow> bool \<Rightarrow> nat \<Rightarrow> client_object result" where
  "Client_object rtt0 shared isopen addr =
     and_then (NetworkClient_socket rtt0 shared isopen) (\<lambda>nc. Inr \<lparr>co_impl = nc, co_socket = addr\<rparr>)"

definition C_getSocket :: "client_object \<Rightarrow> client_object \<times> answer" where
  "C_getSocket c = (c, SocketAt (co_socket c))"

definition C_setOnClientDisconnectedHandler :: "bool \<Rightarrow> client_object \<Rightarrow> client_object \<times> answer" where
  "C_setOnClientDisconnectedHandler h = forward (\<lambda>nc. Inr (setOnClientDisconnectedHandler h nc))"

definition C_setOnConnectionLostHandler :: "bool \<Rightarrow> client_object \<Rightarrow> client_object \<times> answer" where
  "C_setOnConnectionLostHandler h = forward (\<lambda>nc. Inr (setOnConnectionLostHandler h nc))"

definition C_setOnServerDisconnectedHandler :: "bool \<Rightarrow> client_object \<Rightarrow> client_object \<times> answer" where
  "C_setOnServerDisconnectedHandler h = forward (\<lambda>nc. Inr (setOnServerDisconnectedHandler h nc))"

definition C_setOnReceivedHeartbeatHandler :: "bool \<Rightarrow> client_object \<Rightarrow> client_object \<times> answer" where
  "C_setOnReceivedHeartbeatHandler h = forward (\<lambda>nc. Inr (setOnReceivedHeartbeatHandler h nc))"

definition C_setOnReceivedDataHandler :: "bool \<Rightarrow> client_object \<Rightarrow> client_object \<times> answer" where
  "C_setOnReceivedDataHandler h = forward (\<lambda>nc. Inr (setOnReceivedDataHandler h nc))"

definition C_setApplyCompression :: "bool \<Rightarrow> client_object \<Rightarrow> client_object \<times> answer" where
  "C_setApplyCompression apply = forward (\<lambda>nc. Inr (setApplyCompression apply nc))"

definition C_connectAsync :: "client_object \<Rightarrow> client_object \<times> answer" where
  "C_connectAsync = forward connectAsync"

definition C_sendAsync :: "'z codec \<Rightarrow> bytes \<Rightarrow> client_object \<Rightarrow> client_object \<times> answer" where
  "C_sendAsync deflater data = forward (sendAsync deflater data)"

definition C_disconnectAsync ::
  "int \<Rightarrow> 'z codec \<Rightarrow> int \<Rightarrow> bool \<Rightarrow> bool \<Rightarrow> bool \<Rightarrow> client_object \<Rightarrow> client_object \<times> answer" where
  "C_disconnectAsync tps deflater now sd cl sendDisconnectMessage =
     forward (disconnectAsync tps deflater now OtherThread sd cl sendDisconnectMessage)"

text \<open>
  A program's calls, in order, on one thread of its own; with a disconnect goes what the clock reads
  and whether shutting down and closing the socket succeed.
\<close>

datatype public_call =
    GetSocket | Connect | Send bytes | Disconnect int bool bool bool | ApplyCompression bool
  | OnClientDisconnected bool | OnConnectionLost bool | OnServerDisconnected bool
  | OnReceivedHeartbeat bool | OnReceivedData bool

fun client_call :: "int \<Rightarrow> 'z codec \<Rightarrow> public_call \<Rightarrow> client_object \<Rightarrow> client_object \<times> answer" where
  "client_call tps deflater GetSocket c = C_getSocket c"
| "client_call tps deflater Connect c = C_connectAsync c"
| "client_call tps deflater (Send d) c = C_sendAsync deflater d c"
| "client_call tps deflater (Disconnect now sd cl msg) c = C_disconnectAsync tps deflater now sd cl msg c"
| "client_call tps deflater (ApplyCompression b) c = C_setApplyCompression b c"
| "client_call tps deflater (OnClientDisconnected h) c = C_setOnClientDisconnectedHandler h c"
| "client_call tps deflater (OnConnectionLost h) c = C_setOnConnectionLostHandler h c"
| "client_call tps deflater (OnServerDisconnected h) c = C_setOnServerDisconnectedHandler h c"
| "client_call tps deflater (OnReceivedHeartbeat h) c = C_setOnReceivedHeartbeatHandler h c"
| "client_call tps deflater (OnReceivedData h) c = C_setOnReceivedDataHandler h c"

fun client_calls ::
  "int \<Rightarrow> 'z codec \<Rightarrow> public_call list \<Rightarrow> client_object \<Rightarrow> client_object \<times> answer list" where
  "client_calls tps deflater [] c = (c, [])"
| "client_calls tps deflater (k # ks) c =
     (let (c, a) = client_call tps deflater k c; (c, as) = client_calls tps deflater ks c in (c, a # as))"

section \<open>Listener\<close>

record 'c listener_object =
  lo_impl :: "'c listener"

definition Listener_object :: "bool \<Rightarrow> 'c listener_object" where
  "Listener_object shared = \<lparr>lo_impl = Listener shared\<rparr>"

definition L_startAccepting :: "'c listener_object \<Rightarrow> 'c listener_object \<times> exn option" where
  "L_startAccepting l = (case startAccepting (lo_impl l) of (i, r) \<Rightarrow> (l\<lparr>lo_impl := i\<rparr>, r))"

definition L_stopAccepting :: "'c listener_object \<Rightarrow> 'c listener_object" where
  "L_stopAccepting l = l\<lparr>lo_impl := stopAccepting (lo_impl l)\<rparr>"

definition L_clients :: "'c listener_object \<Rightarrow> 'c bqueue" where
  "L_clients l = clients (lo_impl l)"

definition L_setApplyCompression :: "bool \<Rightarrow> 'c listener_object \<Rightarrow> 'c listener_object" where
  "L_setApplyCompression apply l = l\<lparr>lo_impl := l_setApplyCompression apply (lo_impl l)\<rparr>"

definition L_setOnClientConnectedHandler :: "bool \<Rightarrow> 'c listener_object \<Rightarrow> 'c listener_object" where
  "L_setOnClientConnectedHandler h l = l\<lparr>lo_impl := setOnClientConnectedHandler h (lo_impl l)\<rparr>"

definition L_destroy :: "'c listener_object \<Rightarrow> 'c listener_object" where
  "L_destroy l = L_stopAccepting l"

section \<open>The reference of a client\<close>

record api =
  a_connected :: bool
  a_open :: bool
  a_compress :: bool

text \<open>What a send answers; it never returns.\<close>

definition send_refusal :: "'z codec \<Rightarrow> i32 \<Rightarrow> bytes \<Rightarrow> api \<Rightarrow> exn" where
  "send_refusal deflater rtt0 d a =
     (if d = [] then Invalid_argument ''Data cannot be null or empty''
      else if 1024 < length d then Overflow_error ''Data size exceeds maximum packet size''
      else if \<not> a_connected a then Runtime_error ''Socket is not connected''
      else if a_compress a \<and> length d = 1024 \<and> 100 < sint rtt0
      then (case compressData deflater d of Inl e \<Rightarrow> e
            | Inr z \<Rightarrow> Invalid_argument ''Packet: SerializedData cannot be null!'')
      else Bad_weak_ptr)"

fun api_call :: "'z codec \<Rightarrow> i32 \<Rightarrow> nat \<Rightarrow> public_call \<Rightarrow> api \<Rightarrow> api \<times> answer" where
  "api_call deflater rtt0 addr GetSocket a = (a, SocketAt addr)"
| "api_call deflater rtt0 addr Connect a = (a, Raised Bad_weak_ptr)"
| "api_call deflater rtt0 addr (Send d) a = (a, Raised (send_refusal deflater rtt0 d a))"
| "api_call deflater rtt0 addr (Disconnect now sd cl msg) a =
     (if a_connected a \<and> a_open a \<and> \<not> msg \<and> sd then (a\<lparr>a_open := False, a_connected := \<not> cl\<rparr>, Returned)
      else (a, Returned))"
| "api_call deflater rtt0 addr (ApplyCompression b) a = (a\<lparr>a_compress := b\<rparr>, Returned)"
| "api_call deflater rtt0 addr _ a = (a, Returned)"

fun api_calls :: "'z codec \<Rightarrow> i32 \<Rightarrow> nat \<Rightarrow> public_call list \<Rightarrow> api \<Rightarrow> api \<times> answer list" where
  "api_calls deflater rtt0 addr [] a = (a, [])"
| "api_calls deflater rtt0 addr (k # ks) a =
     (let (a, r) = api_call deflater rtt0 addr k a; (a, rs) = api_calls deflater rtt0 addr ks a in (a, r # rs))"

section \<open>Lemmas\<close>

definition api_rel :: "i32 \<Rightarrow> nat \<Rightarrow> client_object \<Rightarrow> api \<Rightarrow> bool" where
  "api_rel rtt0 addr c a \<longleftrightarrow> connected (co_impl c) = a_connected a \<and> socketOpen (co_impl c) = a_open a \<and>
     applyCompression (co_impl c) = a_compress a \<and> lastRTT (co_impl c) = rtt0 \<and> co_socket c = addr \<and>
     \<not> implShared (co_impl c) \<and> \<not> heartbeatCheckThread (co_impl c) \<and> \<not> sendHeartbeatsThread (co_impl c)"

lemma send_refused:
  assumes "api_rel rtt0 addr c a"
  shows "sendAsync deflater d (co_impl c) = Inl (send_refusal deflater rtt0 d a)"
  using assms by (auto simp: sendAsync_eq send_refusal_def api_rel_def compresses_def split: sum.split)

lemma refused_caught: "std_exception (send_refusal deflater rtt0 d a)" if "length d = 20"
  using that by (auto simp: send_refusal_def std_exception_def)

lemma disconnect_refines:
  assumes "api_rel rtt0 addr c a"
  shows "\<exists>nc. disconnectAsync tps deflater now OtherThread sd cl msg (co_impl c) = Inr nc \<and>
    api_rel rtt0 addr (c\<lparr>co_impl := nc\<rparr>) (fst (api_call deflater rtt0 addr (Disconnect now sd cl msg) a))"
proof (cases "connected (co_impl c) \<and> socketOpen (co_impl c) \<and> \<not> msg")
  case True
  with assms show ?thesis
    by (auto simp: disconnectAsync_def api_rel_def stop_threads_def stop_check_def stop_send_def emit_def Let_def)
next
  case False
  have "and_then (goodbye_bytes tps now) (\<lambda>bytes. sendAsync deflater bytes (co_impl c)) =
    Inl (send_refusal deflater rtt0 ([0xFF, 0, 20, 0] @ gb_toByteArray tps (GoodbyePacket now 5)) a)"
    using send_refused [OF assms] by (simp add: goodbye_bytes_eq)
  moreover have "std_exception (send_refusal deflater rtt0 ([0xFF, 0, 20, 0] @ gb_toByteArray tps (GoodbyePacket now 5)) a)"
    by (rule refused_caught) (simp add: gb_toByteArray_def)
  ultimately have "disconnectAsync tps deflater now OtherThread sd cl msg (co_impl c) = Inr (co_impl c)"
    using False by (auto simp: disconnectAsync_def)
  with False assms show ?thesis by (cases a) (auto simp: api_rel_def)
qed

lemma call_refines:
  assumes "api_rel rtt0 addr c a"
  shows "\<exists>c' a' r. client_call tps deflater k c = (c', r) \<and> api_call deflater rtt0 addr k a = (a', r) \<and>
    api_rel rtt0 addr c' a'"
proof (cases k)
  case (Disconnect now sd cl msg)
  from disconnect_refines [OF assms, of tps deflater now sd cl msg] show ?thesis
    by (auto simp: Disconnect C_disconnectAsync_def forward_def)
next
  case (Send d)
  with assms send_refused [OF assms, of deflater d] show ?thesis by (simp add: C_sendAsync_def forward_def)
next
  case Connect
  with assms show ?thesis by (simp add: C_connectAsync_def forward_def connectAsync_def api_rel_def)
qed (use assms in \<open>simp_all add: forward_def api_rel_def C_getSocket_def C_setApplyCompression_def setApplyCompression_def
    C_setOnClientDisconnectedHandler_def C_setOnConnectionLostHandler_def C_setOnServerDisconnectedHandler_def
    C_setOnReceivedHeartbeatHandler_def C_setOnReceivedDataHandler_def setOnClientDisconnectedHandler_def
    setOnConnectionLostHandler_def setOnServerDisconnectedHandler_def setOnReceivedHeartbeatHandler_def
    setOnReceivedDataHandler_def\<close>)

lemma calls_refine:
  "api_rel rtt0 addr c a \<Longrightarrow> \<exists>c' a' rs. client_calls tps deflater ks c = (c', rs) \<and>
     api_calls deflater rtt0 addr ks a = (a', rs) \<and> api_rel rtt0 addr c' a'"
proof (induction ks arbitrary: c a)
  case (Cons k ks)
  from call_refines [OF Cons.prems, of tps deflater k] obtain c1 a1 r where
    one: "client_call tps deflater k c = (c1, r)" "api_call deflater rtt0 addr k a = (a1, r)" "api_rel rtt0 addr c1 a1"
    by blast
  from Cons.IH [OF one(3)] one(1,2) show ?case by auto
qed simp

fun expected :: "nat \<Rightarrow> public_call \<Rightarrow> answer \<Rightarrow> bool" where
  "expected addr Connect r = (r = Raised Bad_weak_ptr)"
| "expected addr (Send d) r = (\<exists>e. r = Raised e)"
| "expected addr GetSocket r = (r = SocketAt addr)"
| "expected addr _ r = (r = Returned)"

lemma api_answers: "api_calls deflater rtt0 addr ks a = (a', rs) \<Longrightarrow> list_all2 (expected addr) ks rs"
proof (induction ks arbitrary: a rs)
  case (Cons k ks)
  obtain a1 r where one: "api_call deflater rtt0 addr k a = (a1, r)" by fastforce
  from Cons.prems one obtain rs' where rest: "api_calls deflater rtt0 addr ks a1 = (a', rs')" "rs = r # rs'"
    by (auto split: prod.splits)
  have "expected addr k r" using one by (cases k) (auto split: if_splits)
  with Cons.IH [OF rest(1)] rest(2) show ?case by simp
qed simp

section \<open>Properties\<close>

text \<open>C13: What a program can do with a NetworkClient, through the public interface alone. Whatever calls it
  makes on a client it constructed, their answers are those of an automaton of three bits
  (connected, socket open, compression), and so is the client's state afterwards: \<open>connectAsync\<close> and
  \<open>sendAsync\<close> always raise, for the reason the reference gives; disconnecting with the goodbye
  message does nothing; disconnecting without it closes the socket where that works; every other
  call just returns.\<close>

theorem client_program_answers:
  assumes "Client_object rtt0 shared isopen addr = Inr c" "client_calls tps deflater ks c = (c', answers)"
  shows "\<exists>a. api_calls deflater rtt0 addr ks \<lparr>a_connected = True, a_open = isopen, a_compress = False\<rparr> = (a, answers) \<and>
    connected (co_impl c') = a_connected a \<and> socketOpen (co_impl c') = a_open a \<and>
    applyCompression (co_impl c') = a_compress a \<and> list_all2 (expected addr) ks answers"
proof -
  let ?a = "\<lparr>a_connected = True, a_open = isopen, a_compress = False\<rparr>"
  from assms(1) have "api_rel rtt0 addr c ?a"
    by (auto simp: Client_object_def NetworkClient_socket_def api_rel_def nc_init_def)
  from calls_refine [OF this, of tps deflater ks] assms(2) obtain a where
    a: "api_calls deflater rtt0 addr ks ?a = (a, answers)" "api_rel rtt0 addr c' a" by auto
  with api_answers [OF a(1)] show ?thesis by (intro exI [of _ a]) (simp add: api_rel_def)
qed

theorem client_program_answers_witness:
  "\<exists>c c'. Client_object 0 True True 7 = Inr c \<and>
     client_calls 1 store_codec [GetSocket, Send [1], Disconnect 0 True True False, Send [1]] c =
       (c', [SocketAt 7, Raised Bad_weak_ptr, Returned, Raised (Runtime_error ''Socket is not connected'')])"
proof -
  obtain c where c: "Client_object 0 True True 7 = Inr c" by (simp add: Client_object_def NetworkClient_socket_def)
  obtain c' as where r: "client_calls 1 store_codec [GetSocket, Send [1], Disconnect 0 True True False, Send [1]] c = (c', as)"
    by fastforce
  from client_program_answers [OF c r] have
    "as = [SocketAt 7, Raised Bad_weak_ptr, Returned, Raised (Runtime_error ''Socket is not connected'')]"
    by (simp add: send_refusal_def)
  with c r show ?thesis by simp
qed


end
