(* ===== verification/Lifecycle.thy ===== *)
theory Lifecycle
  imports Sockets
begin

text \<open>
  The life of one client on its socket: connecting, also again, receiving, errors of the connection
  and disconnecting, in any order (NetworkClient.cpp with Socket.cpp). The reference is an automaton
  of six phases. No client of the repository gets this far, as no shared_ptr owns its Impl; the
  theory is about a client where one does.
\<close>

section \<open>The operations on client and socket\<close>

text \<open>
  A connect with its completion; a chunk that arrives; a read or a write that ends in an error; a
  disconnect by the user on a thread of its own, with what the clock reads, whether shutting down
  and closing succeed, and whether a goodbye is sent.
\<close>

datatype life_event =
    ConnectOk | ConnectFails | Arrives bytes | ReadFails | WriteFails | Disconnects int bool bool bool

type_synonym life = "sock \<times> procbuf \<times> nclient"

definition life_connect :: "bool \<Rightarrow> life \<Rightarrow> life result" where
  "life_connect ec l = (case l of (s, pb, nc) \<Rightarrow>
     and_then (connectAsync nc) (\<lambda>nc.
       case Socket_connectAsync (\<lambda>ec. connect_done ec nc) ec s of
         (r, s') \<Rightarrow> and_then r (\<lambda>nc'. Inr (s', pb, nc'))))"

definition life_read :: "bool \<Rightarrow> bytes \<Rightarrow> life \<Rightarrow> life result" where
  "life_read ec data l = (case l of (s, pb, nc) \<Rightarrow>
     and_then (read_done ec data (pb, nc)) (\<lambda>(pb', nc'). Inr (s, pb', nc')))"

definition life_written :: "bool \<Rightarrow> life \<Rightarrow> life result" where
  "life_written ec l = (case l of (s, pb, nc) \<Rightarrow> and_then (write_done ec nc) (\<lambda>nc'. Inr (s, pb, nc')))"

definition life_disconnect ::
  "int \<Rightarrow> 'z codec \<Rightarrow> int \<Rightarrow> bool \<Rightarrow> bool \<Rightarrow> bool \<Rightarrow> life \<Rightarrow> life result" where
  "life_disconnect tps deflater now sd cl msg l = (case l of (s, pb, nc) \<Rightarrow>
     and_then (on_socket (disconnectAsync tps deflater now OtherThread sd cl msg) (s, nc))
       (\<lambda>(s', nc'). Inr (s', pb, nc')))"

fun life_step :: "int \<Rightarrow> 'z codec \<Rightarrow> life_event \<Rightarrow> life \<Rightarrow> life result" where
  "life_step tps deflater ConnectOk l = life_connect False l"
| "life_step tps deflater ConnectFails l = life_connect True l"
| "life_step tps deflater (Arrives data) l = life_read False data l"
| "life_step tps deflater ReadFails l = life_read True [] l"
| "life_step tps deflater WriteFails l = life_written True l"
| "life_step tps deflater (Disconnects now sd cl msg) l = life_disconnect tps deflater now sd cl msg l"

fun life_run :: "int \<Rightarrow> 'z codec \<Rightarrow> life_event list \<Rightarrow> life \<Rightarrow> life result" where
  "life_run tps deflater [] l = Inr l"
| "life_run tps deflater (e # es) l = and_then (life_step tps deflater e l) (life_run tps deflater es)"

section \<open>The reference\<close>

text \<open>
  \<open>Fresh\<close> before anything has happened, \<open>Up\<close> connected with both heartbeat threads, \<open>Lost\<close> after an
  error with the threads still running, \<open>Down\<close> after a disconnect, \<open>Dead\<close> after an error before the
  threads were started, and \<open>Zombie\<close> with threads that end at once and that nobody will join.
\<close>

datatype phase = Fresh | Up | Lost | Down | Dead | Zombie

record life_state =
  l_phase :: phase
  l_open :: bool
  l_reads :: nat
  l_losts :: nat

definition live :: "phase \<Rightarrow> bool" where
  "live p = (p = Fresh \<or> p = Up)"

fun after_connect :: "phase \<Rightarrow> phase option" where
  "after_connect Fresh = Some Up"
| "after_connect Dead = Some Lost"
| "after_connect Down = Some Zombie"
| "after_connect Up = None"
| "after_connect Lost = None"
| "after_connect Zombie = None"

fun after_error :: "phase \<Rightarrow> phase" where
  "after_error Fresh = Dead"
| "after_error Up = Lost"
| "after_error p = p"

definition count_lost :: "bool \<Rightarrow> life_state \<Rightarrow> life_state" where
  "count_lost h r = (if h then r\<lparr>l_losts := l_losts r + 1\<rparr> else r)"

definition count_read :: "life_state \<Rightarrow> life_state" where
  "count_read r = (if live (l_phase r) then r\<lparr>l_reads := l_reads r + 1\<rparr> else r)"

fun ref_step :: "bool \<Rightarrow> life_event \<Rightarrow> life_state \<Rightarrow> life_state option" where
  "ref_step h ConnectOk r = map_option (\<lambda>p. (count_read r)\<lparr>l_phase := p, l_open := True\<rparr>) (after_connect (l_phase r))"
| "ref_step h ConnectFails r = Some (count_lost h (r\<lparr>l_open := True\<rparr>))"
| "ref_step h (Arrives data) r = Some (count_read r)"
| "ref_step h ReadFails r = Some (count_lost h (r\<lparr>l_phase := after_error (l_phase r)\<rparr>))"
| "ref_step h WriteFails r = Some (count_lost h (r\<lparr>l_phase := after_error (l_phase r)\<rparr>))"
| "ref_step h (Disconnects now sd cl msg) r =
     Some (if live (l_phase r) \<and> l_open r \<and> sd
           then r\<lparr>l_open := False, l_phase := if cl then Down else l_phase r\<rparr> else r)"

fun ref_run :: "bool \<Rightarrow> life_event list \<Rightarrow> life_state \<Rightarrow> life_state option" where
  "ref_run h [] r = Some r"
| "ref_run h (e # es) r = Option.bind (ref_step h e r) (ref_run h es)"

text \<open>The state of the automaton that a client and its socket are in.\<close>

definition phase_of :: "nclient \<Rightarrow> phase" where
  "phase_of nc =
     (if connected nc then (if heartbeatCheckThread nc then Up else Fresh)
      else if stopCheckMissedHeartbeats nc then (if heartbeatCheckThread nc then Zombie else Down)
      else (if heartbeatCheckThread nc then Lost else Dead))"

definition life_abs :: "life \<Rightarrow> life_state" where
  "life_abs l = (case l of (s, pb, nc) \<Rightarrow>
     \<lparr>l_phase = phase_of nc, l_open = isOpen s, l_reads = count_list (trace nc) AsyncRead,
      l_losts = count_list (trace nc) ConnectionLost\<rparr>)"

text \<open>The two threads are started and stopped together, and not stopped before a disconnect.\<close>

definition life_wf :: "nclient \<Rightarrow> bool" where
  "life_wf nc \<longleftrightarrow> implShared nc \<and> (onConnectionLost nc \<longrightarrow> ownerSet nc \<and> clientShared nc) \<and>
     sendHeartbeatsThread nc = heartbeatCheckThread nc \<and>
     stopSendingHeartbeats nc = stopCheckMissedHeartbeats nc \<and>
     (connected nc \<longrightarrow> \<not> stopCheckMissedHeartbeats nc)"

section \<open>The refinement, one operation at a time\<close>

text \<open>What an operation has to do: nothing else happens than what the reference says.\<close>

definition matches :: "bool \<Rightarrow> life result \<Rightarrow> life_state option \<Rightarrow> bool" where
  "matches h r q = (case r of
     Inl e \<Rightarrow> e = Std_terminate ''joinable thread assigned'' \<and> q = None
   | Inr (s, pb, nc) \<Rightarrow> q = Some (life_abs (s, pb, nc)) \<and> life_wf nc \<and> onConnectionLost nc = h)"

lemmas life_unfold = life_abs_def life_wf_def phase_of_def live_def count_read_def count_lost_def isOpen_def

lemma emit_flag_simps [simp]:
  "onConnectionLost (emit e nc) = onConnectionLost nc" "applyCompression (emit e nc) = applyCompression nc"
  by (simp_all add: emit_def)

lemma fire_lost_wf:
  "life_wf nc \<Longrightarrow> fire_lost nc = Inr (if onConnectionLost nc then emit ConnectionLost nc else nc)"
  by (simp add: fire_lost_def life_wf_def)

lemma connect_ok_matches:
  assumes "life_wf nc"
  shows "matches (onConnectionLost nc) (life_connect False (s, pb, nc))
    (ref_step (onConnectionLost nc) ConnectOk (life_abs (s, pb, nc)))"
  using assms
  by (auto simp: matches_def life_connect_def connectAsync_def Socket_connectAsync_def Socket_connected_def
      connect_done_def receiveAsync_def life_unfold split: if_splits)

lemma connect_fails_matches:
  assumes "life_wf nc"
  shows "matches (onConnectionLost nc) (life_connect True (s, pb, nc))
    (ref_step (onConnectionLost nc) ConnectFails (life_abs (s, pb, nc)))"
  using assms
  by (auto simp: matches_def life_connect_def connectAsync_def Socket_connectAsync_def Socket_connected_def
      connect_done_def fire_lost_def life_unfold split: if_splits)

lemma arrives_matches:
  assumes "life_wf nc"
  shows "matches (onConnectionLost nc) (life_read False data (s, pb, nc))
    (ref_step (onConnectionLost nc) (Arrives data) (life_abs (s, pb, nc)))"
  using assms
  by (auto simp: matches_def life_read_def read_done_def receiveAsync_def life_unfold split: if_splits)

lemma read_fails_matches:
  assumes "life_wf nc"
  shows "matches (onConnectionLost nc) (life_read True data (s, pb, nc))
    (ref_step (onConnectionLost nc) ReadFails (life_abs (s, pb, nc)))"
  using assms
  by (auto simp: matches_def life_read_def read_done_def fire_lost_def life_unfold split: if_splits)

lemma write_fails_matches:
  assumes "life_wf nc"
  shows "matches (onConnectionLost nc) (life_written True (s, pb, nc))
    (ref_step (onConnectionLost nc) WriteFails (life_abs (s, pb, nc)))"
  using assms
  by (auto simp: matches_def life_written_def write_done_def fire_lost_def life_unfold split: if_splits)

text \<open>The goodbye is short enough never to be compressed, so where the Impl is shared it is written.\<close>

lemma goodbye_sent:
  assumes "connected nc" "implShared nc"
  shows "\<exists>d. and_then (goodbye_bytes tps now) (\<lambda>bytes. sendAsync deflater bytes nc) = Inr (emit (AsyncWrite d) nc)"
  using assms
  by (simp add: goodbye_bytes_eq sendAsync_eq compresses_def gb_toByteArray_def GoodbyePacket_def) blast

lemma disconnect_matches:
  assumes "life_wf nc"
  shows "matches (onConnectionLost nc) (life_disconnect tps deflater now sd cl msg (s, pb, nc))
    (ref_step (onConnectionLost nc) (Disconnects now sd cl msg) (life_abs (s, pb, nc)))"
proof -
  let ?nc = "nc\<lparr>socketOpen := isOpen s\<rparr>"
  show ?thesis
  proof (cases "connected nc \<and> isOpen s")
    case False
    with assms show ?thesis
      by (auto simp: matches_def life_disconnect_def on_socket_def disconnectAsync_def life_unfold split: if_splits)
  next
    case True
    obtain d where d: "and_then (goodbye_bytes tps now) (\<lambda>bytes. sendAsync deflater bytes ?nc) =
        Inr (emit (AsyncWrite d) ?nc)"
      using goodbye_sent [of ?nc tps now deflater] True assms by (auto simp: life_wf_def)
    define m where "m = (if msg then emit (AsyncWrite d) ?nc else ?nc)"
    have m: "(if msg then and_then (goodbye_bytes tps now) (\<lambda>bytes. sendAsync deflater bytes ?nc) else Inr ?nc) = Inr m"
      by (simp add: d m_def)
    have m_simps: "connected m" "socketOpen m" "life_wf m" "onConnectionLost m = onConnectionLost nc"
      "heartbeatCheckThread m = heartbeatCheckThread nc"
      "count_list (trace m) AsyncRead = count_list (trace nc) AsyncRead"
      "count_list (trace m) ConnectionLost = count_list (trace nc) ConnectionLost"
      using True assms by (auto simp: m_def life_wf_def)
    have "disconnectAsync tps deflater now OtherThread sd cl msg ?nc =
        (if \<not> sd then Inr m else if \<not> cl then Inr ((emit ShutdownSocket m)\<lparr>socketOpen := False\<rparr>)
         else Inr (stop_threads OtherThread ((emit CloseSocket (emit ShutdownSocket m))\<lparr>socketOpen := False\<rparr>)))"
      unfolding disconnectAsync_def m using True m_simps(2) by (simp add: Let_def)
    with True m_simps show ?thesis
      by (auto simp: matches_def life_disconnect_def on_socket_def stop_threads_def stop_check_def stop_send_def
          Socket_close_def Let_def life_unfold split: if_splits)
  qed
qed

lemma life_step_matches:
  "life_wf nc \<Longrightarrow> matches (onConnectionLost nc) (life_step tps deflater e (s, pb, nc))
     (ref_step (onConnectionLost nc) e (life_abs (s, pb, nc)))"
  by (cases e)
    (simp_all only: life_step.simps connect_ok_matches connect_fails_matches arrives_matches read_fails_matches
      write_fails_matches disconnect_matches)

lemma life_run_matches:
  "life_wf nc \<Longrightarrow> matches (onConnectionLost nc) (life_run tps deflater es (s, pb, nc))
     (ref_run (onConnectionLost nc) es (life_abs (s, pb, nc)))"
proof (induction es arbitrary: s pb nc)
  case Nil
  then show ?case by (simp add: matches_def)
next
  case (Cons e es)
  show ?case
  proof (cases "life_step tps deflater e (s, pb, nc)")
    case (Inl x)
    with life_step_matches [OF Cons.prems, of tps deflater e s pb] show ?thesis by (simp add: matches_def)
  next
    case (Inr l)
    obtain s' pb' nc' where l: "l = (s', pb', nc')" by (cases l)
    with Inr life_step_matches [OF Cons.prems, of tps deflater e s pb] have
      "ref_step (onConnectionLost nc) e (life_abs (s, pb, nc)) = Some (life_abs (s', pb', nc'))"
      and wf: "life_wf nc'" and h: "onConnectionLost nc' = onConnectionLost nc"
      by (simp_all add: matches_def)
    with Inr l Cons.IH [OF wf, of s' pb'] show ?thesis by simp
  qed
qed


text \<open>What the destructor and a send do in each phase.\<close>

lemma destroy_phase:
  "life_wf nc \<Longrightarrow> is_ok (destroy_client OtherThread nc) \<longleftrightarrow> phase_of nc \<noteq> Zombie"
  "life_wf nc \<Longrightarrow> phase_of nc = Zombie \<Longrightarrow>
     destroy_client OtherThread nc = Inl (Std_terminate ''joinable thread destroyed'')"
  by (auto simp: destroy_client_def stop_check_def stop_send_def Let_def life_unfold split: if_splits)

lemma live_phase [simp]: "live (phase_of nc) = connected nc"
  by (simp add: live_def phase_of_def)

lemma send_phase:
  "d \<noteq> [] \<Longrightarrow> length d \<le> 1024 \<Longrightarrow> \<not> live (phase_of nc) \<Longrightarrow>
     sendAsync deflater d nc = Inl (Runtime_error ''Socket is not connected'')"
  by (simp add: sendAsync_eq)

section \<open>There is no second life\<close>

lemma count_simps [simp]:
  "l_phase (count_lost h r) = l_phase r" "l_open (count_lost h r) = l_open r"
  "l_reads (count_lost h r) = l_reads r" "l_phase (count_read r) = l_phase r"
  "\<not> live (l_phase r) \<Longrightarrow> count_read r = r"
  by (simp_all add: count_lost_def count_read_def)

lemma ref_step_dead:
  assumes "ref_step h e r = Some r'" "\<not> live (l_phase r)"
  shows "\<not> live (l_phase r') \<and> l_reads r' = l_reads r \<and> (l_open r \<longrightarrow> l_open r')"
  using assms by (cases e; cases "l_phase r") (auto simp: live_def)

text \<open>What becomes of a client that is no longer connected: it can be connected to a server once if its
  threads do not run, and never again.\<close>

definition connects :: "life_event list \<Rightarrow> nat" where
  "connects es = count_list es ConnectOk"

fun threads :: "phase \<Rightarrow> nat" where
  "threads Fresh = 0"
| "threads Down = 0"
| "threads Dead = 0"
| "threads Up = 1"
| "threads Lost = 1"
| "threads Zombie = 1"

lemma ref_step_threads:
  assumes "\<not> live (l_phase r)"
  shows "case ref_step h e r of
      None \<Rightarrow> e = ConnectOk \<and> threads (l_phase r) = 1
    | Some r' \<Rightarrow> threads (l_phase r') = threads (l_phase r) + connects [e] \<and>
        (l_phase r' \<in> {Down, Zombie} \<longleftrightarrow> l_phase r \<in> {Down, Zombie})"
  using assms by (cases e; cases "l_phase r") (auto simp: live_def connects_def)

lemma ref_run_dead:
  assumes "\<not> live (l_phase r)"
  shows "case ref_run h es r of
      None \<Rightarrow> 1 < threads (l_phase r) + connects es
    | Some r' \<Rightarrow> \<not> live (l_phase r') \<and> l_reads r' = l_reads r \<and> (l_open r \<longrightarrow> l_open r') \<and>
        threads (l_phase r') = threads (l_phase r) + connects es \<and>
        (l_phase r' \<in> {Down, Zombie} \<longleftrightarrow> l_phase r \<in> {Down, Zombie})"
  using assms
proof (induction es arbitrary: r)
  case Nil
  then show ?case by (simp add: connects_def)
next
  case (Cons e es)
  have split: "connects (e # es) = connects [e] + connects es" by (simp add: connects_def)
  show ?case
  proof (cases "ref_step h e r")
    case None
    with ref_step_threads [OF Cons.prems, where h = h and e = e] show ?thesis by (simp add: connects_def)
  next
    case (Some r')
    note step = ref_step_dead [OF Some Cons.prems] ref_step_threads [OF Cons.prems, where h = h and e = e]
    with Some Cons.IH [of r'] show ?thesis
      by (cases "ref_run h es r'") (auto simp: split)
  qed
qed

lemma threads_at_most_one: "threads p \<le> 1"
  by (cases p) auto

section \<open>Properties\<close>



text \<open>C10: There is no second life. Whatever happens to a client after it was disconnected or lost its
  connection, no read is started any more, it never counts as connected again and no disconnect
  closes its socket. If its threads still run, the first connect that succeeds ends the process, if
  not, the second one does; and a client that was disconnected and then connected again ends it
  when it is destroyed.\<close>

theorem no_second_life:
  assumes "life_wf nc" "\<not> connected nc"
  shows "case life_run tps deflater es (s, pb, nc) of
      Inl e \<Rightarrow> e = Std_terminate ''joinable thread assigned'' \<and>
        (if heartbeatCheckThread nc then 1 \<le> connects es else 2 \<le> connects es)
    | Inr (t, pb', nc') \<Rightarrow>
        \<not> connected nc' \<and> count_list (trace nc') AsyncRead = count_list (trace nc) AsyncRead \<and>
        (isOpen s \<longrightarrow> isOpen t) \<and>
        (if heartbeatCheckThread nc then connects es = 0 else connects es \<le> 1) \<and>
        (stopCheckMissedHeartbeats nc \<and> connects es = 1 \<longrightarrow>
           destroy_client OtherThread nc' = Inl (Std_terminate ''joinable thread destroyed''))"
proof -
  let ?r = "life_abs (s, pb, nc)"
  note run = life_run_matches [OF assms(1), of tps deflater es s pb]
  have dead: "\<not> live (l_phase ?r)" using assms(2) by (simp add: life_abs_def)
  have threads_nc: "threads (l_phase ?r) = (if heartbeatCheckThread nc then 1 else 0)"
    and stopped_nc: "l_phase ?r \<in> {Down, Zombie} \<longleftrightarrow> stopCheckMissedHeartbeats nc"
    using assms(2) by (simp_all add: life_abs_def phase_of_def)
  show ?thesis
  proof (cases "life_run tps deflater es (s, pb, nc)")
    case (Inl e)
    with run ref_run_dead [OF dead, where h = "onConnectionLost nc" and es = es] threads_nc show ?thesis
      by (auto simp: matches_def)
  next
    case (Inr m)
    obtain t pb' nc' where m: "m = (t, pb', nc')" by (cases m)
    with Inr run have ref: "ref_run (onConnectionLost nc) es ?r = Some (life_abs (t, pb', nc'))"
      and wf: "life_wf nc'" by (simp_all add: matches_def)
    note end_state = ref_run_dead [OF dead, where h = "onConnectionLost nc" and es = es, unfolded ref option.case]
    have "phase_of nc' = Zombie" if "stopCheckMissedHeartbeats nc" "connects es = 1"
      using end_state stopped_nc that threads_at_most_one [of "phase_of nc'"]
      by (cases "phase_of nc'") (auto simp: life_abs_def)
    with Inr m end_state threads_nc threads_at_most_one [of "phase_of nc'"] destroy_phase(2) [OF wf]
    show ?thesis by (auto simp: life_abs_def)
  qed
qed

theorem no_second_life_witness:
  "life_run 1000 store_codec [ConnectOk] (Socket, pb_init, (nc_init 0 True False)\<lparr>implShared := True,
       connected := False, heartbeatCheckThread := True, sendHeartbeatsThread := True\<rparr>) =
     Inl (Std_terminate ''joinable thread assigned'')"
proof -
  let ?nc = "(nc_init 0 True False)\<lparr>implShared := True, connected := False, heartbeatCheckThread := True,
    sendHeartbeatsThread := True\<rparr>"
  have "life_wf ?nc" "\<not> connected ?nc" by (simp_all add: life_wf_def nc_init_def)
  from no_second_life [OF this, where tps = 1000 and deflater = store_codec and es = "[ConnectOk]"
    and s = Socket and pb = pb_init] show ?thesis
    by (auto simp: connects_def nc_init_def split: sum.splits)
qed

end
