(* ===== verification/Whole_Client.thy ===== *)
theory Whole_Client
  imports Worker_Threads Client_Threads "HOL-Library.Sublist"
begin

text \<open>
  All threads of a client together: the io_context threads that call \<open>addData\<close>, the buffer's worker,
  the two heartbeat threads and the caller that closes. The worker calls the packet handler of the
  client in the body of its loop, with the buffer's mutex held (ProcessingBuffer.cpp), and in the
  handler takes the client's mutexes (NetworkClient.cpp). The parts are the systems of
  Worker_Threads and Client_Threads; the handler's call is where they meet.
\<close>

section \<open>State and steps\<close>

text \<open>The handler of the buffer's part only records the packets it is called with.\<close>

record whole =
  wb :: "packet list pbsys"
  wc :: ctsys

definition whole_init :: "nclient \<Rightarrow> whole" where
  "whole_init nc = \<lparr>wb = pbsys_init [], wc = ct_init nc\<rparr>"

definition worker_alive :: "worker_pc \<Rightarrow> bool" where
  "worker_alive pc = (case pc of Terminated e \<Rightarrow> False | _ \<Rightarrow> True)"

definition whole_runs :: "whole \<Rightarrow> bool" where
  "whole_runs w \<longleftrightarrow> worker_alive (wpc (wb w)) \<and> process_runs (wc w)"

text \<open>
  The worker's own steps; the step of its body that completes a packet is the call of the handler:
  a heartbeat begins with the wait for \<open>aliveMutex\<close>, another packet is handled at once. While the
  handler runs, the worker is past the body in its own part, the mutex held, and makes no step of
  its own.
\<close>

inductive whole_step ::
  "int \<Rightarrow> 'z codec \<Rightarrow> 'y codec \<Rightarrow> closer_place \<Rightarrow> whole \<Rightarrow> bytes \<Rightarrow> whole \<Rightarrow> bool"
  for tpm deflater inflater place where
  io: "whole_runs w \<Longrightarrow> producer_step (wb w) d b \<Longrightarrow> whole_step tpm deflater inflater place w d (w\<lparr>wb := b\<rparr>)"
| spurious: "whole_runs w \<Longrightarrow> spurious_step (wb w) b \<Longrightarrow> whole_step tpm deflater inflater place w [] (w\<lparr>wb := b\<rparr>)"
| worker: "whole_runs w \<Longrightarrow> hpc (wc w) = HandlerIdle \<Longrightarrow> worker_step (Some log_packet) (wb w) b \<Longrightarrow>
     hstate b = hstate (wb w) \<Longrightarrow> whole_step tpm deflater inflater place w [] (w\<lparr>wb := b\<rparr>)"
| heartbeat: "whole_runs w \<Longrightarrow> hpc (wc w) = HandlerIdle \<Longrightarrow> worker_step (Some log_packet) (wb w) b \<Longrightarrow>
     hstate b = hstate (wb w) @ [p] \<Longrightarrow> getID p = parlo_id Heartbeat \<Longrightarrow>
     whole_step tpm deflater inflater place w [] (w\<lparr>wb := b, wc := (wc w)\<lparr>hpc := HandlerLockAlive p\<rparr>\<rparr>)"
| packet: "whole_runs w \<Longrightarrow> hpc (wc w) = HandlerIdle \<Longrightarrow> worker_step (Some log_packet) (wb w) b \<Longrightarrow>
     hstate b = hstate (wb w) @ [p] \<Longrightarrow> getID p \<noteq> parlo_id Heartbeat \<Longrightarrow>
     on_packet tpm now inflater p (cl (wc w)) = Inr nc \<Longrightarrow>
     whole_step tpm deflater inflater place w [] (w\<lparr>wb := b, wc := (wc w)\<lparr>cl := nc\<rparr>\<rparr>)"
| packet_raises: "whole_runs w \<Longrightarrow> hpc (wc w) = HandlerIdle \<Longrightarrow> worker_step (Some log_packet) (wb w) b \<Longrightarrow>
     hstate b = hstate (wb w) @ [p] \<Longrightarrow> getID p \<noteq> parlo_id Heartbeat \<Longrightarrow>
     on_packet tpm now inflater p (cl (wc w)) = Inl e \<Longrightarrow>
     whole_step tpm deflater inflater place w [] (w\<lparr>wb := b, wc := (wc w)\<lparr>hpc := HandlerTerminated e\<rparr>\<rparr>)"
| in_handler: "whole_runs w \<Longrightarrow> hpc (wc w) \<noteq> HandlerIdle \<Longrightarrow> handler_step tpm inflater place (wc w) c \<Longrightarrow>
     whole_step tpm deflater inflater place w [] (w\<lparr>wc := c\<rparr>)"
| check: "whole_runs w \<Longrightarrow> check_step (wc w) c \<Longrightarrow> whole_step tpm deflater inflater place w [] (w\<lparr>wc := c\<rparr>)"
| send: "whole_runs w \<Longrightarrow> send_step tpm deflater (wc w) c \<Longrightarrow> whole_step tpm deflater inflater place w [] (w\<lparr>wc := c\<rparr>)"
| close: "whole_runs w \<Longrightarrow> closer_step place (wc w) c \<Longrightarrow> whole_step tpm deflater inflater place w [] (w\<lparr>wc := c\<rparr>)"

text \<open>The states a schedule leads to, with the bytes queued on the way.\<close>

inductive whole_steps ::
  "int \<Rightarrow> 'z codec \<Rightarrow> 'y codec \<Rightarrow> closer_place \<Rightarrow> whole \<Rightarrow> bytes \<Rightarrow> whole \<Rightarrow> bool"
  for tpm deflater inflater place w where
  start: "whole_steps tpm deflater inflater place w [] w"
| step: "whole_steps tpm deflater inflater place w fed u \<Longrightarrow> whole_step tpm deflater inflater place u d v \<Longrightarrow>
     whole_steps tpm deflater inflater place w (fed @ d) v"

inductive_cases whole_stepE: "whole_step tpm deflater inflater place w d v"

section \<open>The parts\<close>

text \<open>A step of the whole is a step of either part, of both in a call, or none.\<close>

lemma whole_step_buffer:
  assumes "whole_step tpm deflater inflater place w d v"
  shows "sys_step (Some log_packet) (wb w) d (wb v) \<or> d = [] \<and> wb v = wb w"
  using assms by (elim whole_stepE) (simp_all add: sys_step_def)

lemma whole_step_client:
  assumes "whole_step tpm deflater inflater place w d v"
  shows "ct_step tpm deflater inflater place (wc w) (wc v) \<or> wc v = wc w"
  using assms
  by (elim whole_stepE)
    (auto simp: ct_step_def whole_runs_def intro: handler_step.start handler_step.other handler_step.other_raises)

lemma whole_parts:
  assumes "whole_steps tpm deflater inflater place (whole_init nc) fed w"
  shows "reachable_sys (Some log_packet) [] fed (wb w)"
    and "ct_steps tpm deflater inflater place (ct_init nc) (wc w)"
proof -
  from assms have "reachable_sys (Some log_packet) [] fed (wb w) \<and>
    ct_steps tpm deflater inflater place (ct_init nc) (wc w)"
  proof (induction rule: whole_steps.induct)
    case start
    show ?case by (simp add: whole_init_def reachable_sys.start ct_steps.start)
  next
    case (step fed u d v)
    from whole_step_buffer [OF step.hyps(2)] step.IH
    have "reachable_sys (Some log_packet) [] (fed @ d) (wb v)" by (auto intro: reachable_sys.step)
    moreover from whole_step_client [OF step.hyps(2)] step.IH
    have "ct_steps tpm deflater inflater place (ct_init nc) (wc v)" by (auto intro: ct_steps.step)
    ultimately show ?case by blast
  qed
  then show "reachable_sys (Some log_packet) [] fed (wb w)"
    and "ct_steps tpm deflater inflater place (ct_init nc) (wc w)" by blast+
qed

lemma whole_steps_trans:
  assumes "whole_steps tpm deflater inflater place w fed u" "whole_steps tpm deflater inflater place u fed' v"
  shows "whole_steps tpm deflater inflater place w (fed @ fed') v"
  using assms(2)
proof (induction rule: whole_steps.induct)
  case start
  show ?case using assms(1) by simp
next
  case (step fed' u' d v')
  from whole_steps.step [OF step.IH step.hyps(2)] show ?case by simp
qed

lemma whole_steps_one:
  "whole_step tpm deflater inflater place w d v \<Longrightarrow> whole_steps tpm deflater inflater place w d v"
  using whole_steps.step [OF whole_steps.start, of tpm deflater inflater place w d v] by simp

text \<open>The bytes a call of \<open>addData\<close> still has to queue.\<close>

fun chunk_of :: "producer_pc \<Rightarrow> bytes" where
  "chunk_of (Adding d) = d"
| "chunk_of (Pushing d) = d"
| "chunk_of _ = []"

text \<open>What the whole adds to the invariants of its parts: a worker in the handler is past the body
  and holds the mutex, no chunk is too long, and the buffer is not being destroyed.\<close>

definition whole_inv :: "whole \<Rightarrow> bool" where
  "whole_inv w \<longleftrightarrow>
     (whole_runs w \<and> hpc (wc w) \<noteq> HandlerIdle \<longrightarrow> wpc (wb w) = Napping) \<and>
     (\<forall>i. length (chunk_of (ppc (wb w) i)) \<le> 1024) \<and>
     \<not> stopProcessing (wb w)"

lemma logged_iteration:
  assumes "process_iteration (Some log_packet) (b, u) = Inr (b', u')"
  shows "u' = u \<or> (\<exists>p. u' = u @ [p])"
  using assms
  by (auto simp: process_iteration_def take_payload_def call_handler_def log_packet_def and_then_Inr_iff Let_def
      split: if_splits option.splits)

lemma worker_logs:
  assumes "worker_step (Some log_packet) s t"
  shows "hstate t = hstate s \<or> (\<exists>p. hstate t = hstate s @ [p]) \<and> wpc s = Processing \<and> wpc t = Napping"
  using assms by (elim worker_stepE) (auto dest: logged_iteration)

lemma worker_frame: "worker_step handler s t \<Longrightarrow> ppc t = ppc s \<and> stopProcessing t = stopProcessing s"
  by (elim worker_stepE) simp_all

lemma handler_idle_frame:
  "check_step c c' \<Longrightarrow> hpc c' = hpc c" "send_step tpm deflater c c' \<Longrightarrow> hpc c' = hpc c"
  "closer_step place c c' \<Longrightarrow> hpc c' = hpc c"
  by (auto elim: check_stepE send_stepE closer_stepE)

lemma producer_small:
  assumes "producer_step s d t" "\<forall>i. length (chunk_of (ppc s i)) \<le> 1024"
  shows "\<forall>i. length (chunk_of (ppc t i)) \<le> 1024"
  using assms(1)
proof cases
  case (enter i e)
  have "length (chunk_of (ppc s i)) \<le> 1024" using assms(2) by blast
  with enter assms(2) show ?thesis by simp
qed (use assms(2) in \<open>simp_all add: MAX_PACKET_SIZE_def\<close>)

lemma producer_frame: "producer_step s d t \<Longrightarrow> stopProcessing t = stopProcessing s \<and> (wpc s = Napping \<longrightarrow> wpc t = Napping)"
  by (elim producer_stepE) (simp_all add: wake_def)

lemma whole_inv_step:
  assumes "whole_step tpm deflater inflater place w d v" "whole_inv w"
  shows "whole_inv v"
  using assms(1)
proof (cases rule: whole_step.cases)
  case (io b)
  then show ?thesis
    using assms(2) producer_small [OF io(3)] producer_frame [OF io(3)] by (simp add: whole_inv_def whole_runs_def)
next
  case (spurious b)
  then show ?thesis using assms(2) by (auto simp: whole_inv_def whole_runs_def elim!: spurious_stepE)
next
  case (worker b)
  then show ?thesis using assms(2) worker_frame [OF worker(5)] by (simp add: whole_inv_def)
next
  case (heartbeat b p)
  then show ?thesis using assms(2) worker_frame [OF heartbeat(5)] worker_logs [OF heartbeat(5)] by (simp add: whole_inv_def)
next
  case (packet b p now nc)
  then show ?thesis using assms(2) worker_frame [OF packet(5)] worker_logs [OF packet(5)] by (simp add: whole_inv_def)
next
  case (packet_raises b p now e)
  then show ?thesis
    using assms(2) worker_frame [OF packet_raises(5)] worker_logs [OF packet_raises(5)] by (simp add: whole_inv_def)
next
  case (check c)
  then show ?thesis
    using assms(2) handler_idle_frame(1) [OF check(4)] by (simp add: whole_inv_def whole_runs_def)
next
  case (send c)
  then show ?thesis
    using assms(2) handler_idle_frame(2) [OF send(4)] by (simp add: whole_inv_def whole_runs_def)
next
  case (close c)
  then show ?thesis
    using assms(2) handler_idle_frame(3) [OF close(4)] by (simp add: whole_inv_def whole_runs_def)
qed (use assms(2) in \<open>simp_all add: whole_inv_def whole_runs_def\<close>)

lemma whole_inv_init: "whole_inv (whole_init nc)"
  by (simp add: whole_inv_def whole_init_def pbsys_init_def)

lemma whole_inv_steps: "whole_steps tpm deflater inflater place w fed v \<Longrightarrow> whole_inv w \<Longrightarrow> whole_inv v"
  by (induction rule: whole_steps.induct) (auto intro: whole_inv_step)


section \<open>What the user's data handler gets\<close>

text \<open>The packets a packet of the stream becomes for the user, and those a client has handed over.\<close>

definition user_packets :: "'y codec \<Rightarrow> packet \<Rightarrow> packet list" where
  "user_packets inflater p =
     (if getID p \<in> {parlo_id SGoodbye, parlo_id CGoodbye, parlo_id Heartbeat} then []
      else case (if getIsCompressed p \<noteq> 0 then decompressData inflater (getData p) else Inr (getData p)) of
             Inl e \<Rightarrow> []
           | Inr d \<Rightarrow> (case Packet_TCP (getID p) d False of Inl e \<Rightarrow> [] | Inr q \<Rightarrow> [q]))"

fun data_received :: "nc_effect list \<Rightarrow> packet list" where
  "data_received [] = []"
| "data_received (DataReceived p # es) = p # data_received es"
| "data_received (e # es) = data_received es"

lemma data_received_append [simp]: "data_received (es @ fs) = data_received es @ data_received fs"
  by (induction es rule: data_received.induct) simp_all

definition same_data :: "nclient \<Rightarrow> nclient \<Rightarrow> bool" where
  "same_data nc nc' \<longleftrightarrow> onReceivedData nc' = onReceivedData nc \<and> clientShared nc' = clientShared nc \<and>
     data_received (trace nc') = data_received (trace nc)"

lemma emit_onReceivedData [simp]: "onReceivedData (emit e nc) = onReceivedData nc"
  by (simp add: emit_def)

lemma same_data_updates [simp]:
  "same_data nc nc" "same_data nc (nc\<lparr>isAlive := a\<rparr>)" "same_data nc (nc\<lparr>missedHeartbeats := m\<rparr>)"
  "same_data nc (nc\<lparr>stopCheckMissedHeartbeats := x\<rparr>)" "same_data nc (nc\<lparr>stopSendingHeartbeats := x\<rparr>)"
  "same_data nc (nc\<lparr>heartbeatCheckThread := x\<rparr>)" "same_data nc (nc\<lparr>sendHeartbeatsThread := x\<rparr>)"
  "same_data nc (nc\<lparr>connected := x\<rparr>)"
  by (simp_all add: same_data_def)

lemma same_data_fire_lost: "fire_lost nc = Inr nc' \<Longrightarrow> same_data nc nc'"
  by (auto simp: fire_lost_Inr_iff same_data_def split: if_splits)

lemma same_data_rtt: "heartbeat_rtt tpm now p nc = Inr nc' \<Longrightarrow> same_data nc nc'"
  by (auto simp: heartbeat_rtt_def and_then_Inr_iff fire_Inr_iff same_data_def Let_def split: if_splits)

lemma same_data_send: "sendHeartbeat_iteration tpm deflater clock nc = Inr nc' \<Longrightarrow> same_data nc nc'"
  by (drule sendHeartbeat_shape) (auto simp: same_data_def)

lemma same_data_steps:
  "check_step c c' \<Longrightarrow> same_data (cl c) (cl c')"
  "send_step tpm deflater c c' \<Longrightarrow> same_data (cl c) (cl c')"
  "closer_step place c c' \<Longrightarrow> same_data (cl c) (cl c')"
  "handler_step tpm inflater place c c' \<Longrightarrow> hpc c \<noteq> HandlerIdle \<Longrightarrow> same_data (cl c) (cl c')"
  by (auto elim!: check_stepE send_stepE closer_stepE handler_stepE
      intro: same_data_fire_lost same_data_send same_data_rtt)

text \<open>A packet that is not a heartbeat, with the data handler set.\<close>

lemma on_packet_data:
  assumes "getID p \<noteq> parlo_id Heartbeat" "onReceivedData nc" "clientShared nc"
  shows "case on_packet tpm now inflater p nc of
      Inl e \<Rightarrow> user_packets inflater p = []
    | Inr nc' \<Rightarrow> onReceivedData nc' \<and> clientShared nc' \<and>
        data_received (trace nc') = data_received (trace nc) @ user_packets inflater p"
  using assms
  by (auto simp: on_packet_def user_packets_def fire_def split: sum.splits)

definition data_inv :: "'y codec \<Rightarrow> whole \<Rightarrow> bool" where
  "data_inv inflater w \<longleftrightarrow> onReceivedData (cl (wc w)) \<and> clientShared (cl (wc w)) \<and>
     data_received (trace (cl (wc w))) = concat (map (user_packets inflater) (hstate (wb w)))"

lemma data_inv_client:
  "same_data (cl (wc w)) (cl c) \<Longrightarrow> data_inv inflater w \<Longrightarrow> data_inv inflater (w\<lparr>wc := c\<rparr>)"
  by (simp add: data_inv_def same_data_def)

lemma data_inv_buffer:
  "hstate b = hstate (wb w) \<Longrightarrow> data_inv inflater w \<Longrightarrow> data_inv inflater (w\<lparr>wb := b\<rparr>)"
  by (simp add: data_inv_def)

lemma hstate_frame:
  "producer_step s d t \<Longrightarrow> hstate t = hstate s" "spurious_step s t \<Longrightarrow> hstate t = hstate s"
  by (auto elim: producer_stepE spurious_stepE)

lemma data_inv_step:
  assumes "whole_step tpm deflater inflater place w d v" "data_inv inflater w"
  shows "data_inv inflater v"
  using assms(1)
proof (cases rule: whole_step.cases)
  case (heartbeat b p)
  then have "user_packets inflater p = []" by (simp add: user_packets_def)
  with heartbeat assms(2) show ?thesis by (simp add: data_inv_def)
next
  case (packet b p now nc)
  with on_packet_data [of p "cl (wc w)" inflater tpm now] assms(2) show ?thesis by (simp add: data_inv_def)
next
  case (packet_raises b p now e)
  with on_packet_data [of p "cl (wc w)" inflater tpm now] assms(2) show ?thesis by (simp add: data_inv_def)
qed (use assms(2) in \<open>auto intro: data_inv_client data_inv_buffer same_data_steps dest: hstate_frame\<close>)

lemma data_inv_steps:
  "whole_steps tpm deflater inflater place w fed v \<Longrightarrow> data_inv inflater w \<Longrightarrow> data_inv inflater v"
  by (induction rule: whole_steps.induct) (auto intro: data_inv_step)

lemma data_inv_init:
  "onReceivedData nc \<Longrightarrow> clientShared nc \<Longrightarrow> trace nc = [] \<Longrightarrow> data_inv inflater (whole_init nc)"
  by (simp add: data_inv_def whole_init_def pbsys_init_def)


text \<open>What becomes of a packet for the user depends on its frame.\<close>

lemma user_packets_frame:
  "frame_of p = frame_of q \<Longrightarrow> user_packets inflater p = user_packets inflater q"
  by (auto simp: user_packets_def frame_of_def split: sum.split)

lemma user_packets_frames:
  "map frame_of ps = map frame_of qs \<Longrightarrow> map (user_packets inflater) ps = map (user_packets inflater) qs"
proof (induction ps arbitrary: qs)
  case (Cons p ps)
  then obtain q qs' where "qs = q # qs'" by (cases qs) simp_all
  with Cons user_packets_frame [of p q inflater] show ?case by simp
qed simp

text \<open>What has been handed over, of a stream of packets that has arrived as far as \<open>fed\<close>.\<close>

lemma handed_over:
  assumes "whole_steps tpm deflater inflater place (whole_init nc) fed w"
    and "onReceivedData nc" "clientShared nc" "trace nc = []" "map frame_of (hstate (wb w)) = map frame_of ps"
  shows "data_received (trace (cl (wc w))) = concat (map (user_packets inflater) ps)"
  using data_inv_steps [OF assms(1) data_inv_init [OF assms(2-4)]] user_packets_frames [OF assms(5), of inflater]
  by (simp add: data_inv_def)

lemma logged_frames:
  assumes "whole_steps tpm deflater inflater place w0 fed w" "w0 = whole_init nc" "length fed \<le> queue_cap"
    and "fed = concat (map buildPacket ps)" "\<forall>p \<in> set ps. sendable p"
  shows "map frame_of ps = map frame_of (hstate (wb w)) @ frames_of next_frame (pending (buf (wb w)))"
  using schedule_prefix [OF whole_parts(1) [OF assms(1) [unfolded assms(2)]] assms(3)]
    frames_of_packets [OF assms(5), of "[]"] assms(4)
  by (simp add: pb.frames_None)

lemma handed_over_so_far:
  assumes nc: "onReceivedData nc" "clientShared nc" "trace nc = []" and ps: "\<forall>p \<in> set ps. sendable p"
    and steps: "whole_steps tpm deflater inflater place (whole_init nc) fed w" and cap: "length fed \<le> queue_cap"
    and fed: "prefix fed (concat (map buildPacket ps))"
  shows "\<exists>k \<le> length ps. data_received (trace (cl (wc w))) = concat (map (user_packets inflater) (take k ps))"
proof -
  obtain tail where "map frame_of ps = frames_of next_frame fed @ tail"
    using frames_of_prefix [OF fed ps] by blast
  then have fs: "map frame_of ps = map frame_of (hstate (wb w)) @ frames_of next_frame (pending (buf (wb w))) @ tail"
    using schedule_prefix [OF whole_parts(1) [OF steps] cap] by simp
  let ?k = "length (hstate (wb w))"
  from arg_cong [OF fs, of length] have k: "?k \<le> length ps" by simp
  from arg_cong [OF fs, of "take ?k"] have "map frame_of (hstate (wb w)) = map frame_of (take ?k ps)"
    by (simp add: take_map)
  from handed_over [OF steps nc this] k show ?thesis by blast
qed

lemma handed_over_at_rest:
  assumes nc: "onReceivedData nc" "clientShared nc" "trace nc = []" and ps: "\<forall>p \<in> set ps. sendable p"
    and steps: "whole_steps tpm deflater inflater place (whole_init nc) fed w" and cap: "length fed \<le> queue_cap"
    and all: "fed = concat (map buildPacket ps)" "wpc (wb w) = Blocked" "\<forall>i. ppc (wb w) i \<noteq> Notifying"
  shows "data_received (trace (cl (wc w))) = concat (map (user_packets inflater) ps)"
proof (rule handed_over [OF steps nc])
  note buffer = whole_parts(1) [OF steps]
  have "next_frame (pending (buf (wb w))) = None"
    using sleeping_worker_idle [OF buffer all(2,3)] schedule_prefix [OF buffer cap] by blast
  then show "map frame_of (hstate (wb w)) = map frame_of ps"
    using logged_frames [OF steps refl cap all(1) ps] by (simp add: pb.frames_None)
qed

section \<open>Schedules of the whole\<close>

lemma sys_step_log:
  "sys_step (Some log_packet) s d t \<Longrightarrow> hstate t = [] \<Longrightarrow> hstate s = []"
  unfolding sys_step_def
  by (elim disjE conjE) (auto dest: worker_logs hstate_frame elim: dtor_stepE)

lemma worker_alive_wake [simp]: "worker_alive (wake pc) = worker_alive pc"
  by (simp add: worker_alive_def wake_def)

lemma alive_frame:
  "worker_step handler s t \<Longrightarrow> worker_alive (wpc s) \<and> dpc t = dpc s"
  "producer_step s d t \<Longrightarrow> worker_alive (wpc t) = worker_alive (wpc s) \<and> dpc t = dpc s"
  "spurious_step s t \<Longrightarrow> worker_alive (wpc s) \<and> dpc t = dpc s"
  "dtor_step s t \<Longrightarrow> dpc t \<noteq> Alive"
  by (auto elim!: worker_stepE producer_stepE spurious_stepE dtor_stepE) (simp_all add: worker_alive_def)

text \<open>Before the first packet, a schedule of the buffer's part is one of the whole.\<close>

lemma quiet_lift:
  assumes "reachable_sys (Some log_packet) [] fed b" "hstate b = []" "dpc b = Alive" "worker_alive (wpc b)"
  shows "whole_steps tpm deflater inflater place (whole_init nc) fed \<lparr>wb = b, wc = ct_init nc\<rparr>"
  using assms
proof (induction rule: reachable_sys.induct)
  case start
  show ?case using whole_steps.start [of tpm deflater inflater place "whole_init nc"] by (simp add: whole_init_def)
next
  case (step fed s d t)
  let ?s = "\<lparr>wb = s, wc = ct_init nc\<rparr>"
  have idle: "hpc (wc ?s) = HandlerIdle" by simp
  have log: "hstate s = []" by (rule sys_step_log [OF step.hyps(2) step.prems(1)])
  consider "producer_step s d t" | "d = []" "worker_step (Some log_packet) s t" | "d = []" "spurious_step s t"
    using step.hyps(2) step.prems(2) alive_frame(4) unfolding sys_step_def by blast
  then have "dpc s = Alive \<and> worker_alive (wpc s) \<and> whole_step tpm deflater inflater place ?s d (?s\<lparr>wb := t\<rparr>)"
  proof cases
    case 1
    with alive_frame(2) [OF 1] step.prems have "dpc s = Alive \<and> whole_runs ?s" by (simp add: whole_runs_def)
    with whole_step.io [of ?s d t tpm deflater inflater place] 1 show ?thesis by (simp add: whole_runs_def)
  next
    case 2
    with alive_frame(1) [OF 2(2)] step.prems have "dpc s = Alive \<and> whole_runs ?s" by (simp add: whole_runs_def)
    with whole_step.worker [of ?s t tpm deflater inflater place] 2 log step.prems(1) show ?thesis
      by (simp add: whole_runs_def)
  next
    case 3
    with alive_frame(3) [OF 3(2)] step.prems have "dpc s = Alive \<and> whole_runs ?s" by (simp add: whole_runs_def)
    with whole_step.spurious [of ?s t tpm deflater inflater place] 3 show ?thesis by (simp add: whole_runs_def)
  qed
  with step.IH log whole_steps.step show ?case by fastforce
qed

text \<open>Steps of the client's part, the buffer's standing still.\<close>

lemma client_more:
  assumes "whole_steps tpm deflater inflater place w fed \<lparr>wb = b, wc = c\<rparr>" "worker_alive (wpc b)" "process_runs c"
  shows "check_step c c' \<Longrightarrow> whole_steps tpm deflater inflater place w fed \<lparr>wb = b, wc = c'\<rparr>"
    "closer_step place c c' \<Longrightarrow> whole_steps tpm deflater inflater place w fed \<lparr>wb = b, wc = c'\<rparr>"
    "handler_step tpm inflater place c c' \<Longrightarrow> hpc c \<noteq> HandlerIdle \<Longrightarrow>
      whole_steps tpm deflater inflater place w fed \<lparr>wb = b, wc = c'\<rparr>"
proof -
  have run: "whole_runs \<lparr>wb = b, wc = c\<rparr>" using assms(2,3) by (simp add: whole_runs_def)
  show "check_step c c' \<Longrightarrow> whole_steps tpm deflater inflater place w fed \<lparr>wb = b, wc = c'\<rparr>"
    using whole_steps.step [OF assms(1) whole_step.check [OF run]] by simp
  show "closer_step place c c' \<Longrightarrow> whole_steps tpm deflater inflater place w fed \<lparr>wb = b, wc = c'\<rparr>"
    using whole_steps.step [OF assms(1) whole_step.close [OF run]] by simp
  show "handler_step tpm inflater place c c' \<Longrightarrow> hpc c \<noteq> HandlerIdle \<Longrightarrow>
      whole_steps tpm deflater inflater place w fed \<lparr>wb = b, wc = c'\<rparr>"
    using whole_steps.step [OF assms(1) whole_step.in_handler [OF run]] by simp
qed

lemma worker_more:
  assumes "whole_steps tpm deflater inflater place w fed \<lparr>wb = b, wc = c\<rparr>"
    and "worker_step (Some log_packet) b b'" "hstate b' = hstate b" "process_runs c \<and> hpc c = HandlerIdle"
  shows "whole_steps tpm deflater inflater place w fed \<lparr>wb = b', wc = c\<rparr>"
  using whole_steps.step [OF assms(1) whole_step.worker [of "\<lparr>wb = b, wc = c\<rparr>" b']] assms(2-4)
    alive_frame(1) [OF assms(2)] by (simp add: whole_runs_def)

lemma packet_call:
  assumes "worker_alive (wpc b)" "process_runs c" "hpc c = HandlerIdle" "worker_step (Some log_packet) b b'"
    and "hstate b' = hstate b @ [p]" "getID p \<noteq> parlo_id Heartbeat" "on_packet tpm now inflater p (cl c) = Inr nc"
  shows "whole_step tpm deflater inflater place \<lparr>wb = b, wc = c\<rparr> [] \<lparr>wb = b', wc = c\<lparr>cl := nc\<rparr>\<rparr>"
  using whole_step.packet [of "\<lparr>wb = b, wc = c\<rparr>" b' p tpm now inflater nc deflater place] assms
  by (simp add: whole_runs_def)

text \<open>The heartbeat's call, up to the user's handler, with the checker asleep when it comes in.\<close>

lemma call_reaches_callback:
  assumes at: "whole_steps tpm deflater inflater place w fed
      \<lparr>wb = b, wc = (ct_init nc)\<lparr>cpc := CheckLockBeats, hpc := HandlerLockAlive p\<rparr>\<rparr>"
    and alive: "worker_alive (wpc b)" and hb: "on_heartbeat tpm now p nc = Inr nc'"
  shows "whole_steps tpm deflater inflater place w fed
      \<lparr>wb = b, wc = (ct_init nc)\<lparr>cpc := CheckLockBeats, hpc := HandlerCallback, aliveMutex := Some HandlerThread,
        heartbeatsMutex := Some HandlerThread, cl := nc'\<rparr>\<rparr>"
proof -
  let ?go = "\<lambda>c. whole_steps tpm deflater inflater place w fed \<lparr>wb = b, wc = c\<rparr>"
  let ?c0 = "(ct_init nc)\<lparr>cpc := CheckLockBeats, hpc := HandlerLockAlive p\<rparr>"
  let ?c1 = "(ct_init nc)\<lparr>cpc := CheckLockBeats, hpc := HandlerAlive p, aliveMutex := Some HandlerThread\<rparr>"
  let ?c2 = "?c1\<lparr>hpc := HandlerLockBeats p, cl := nc\<lparr>isAlive := True\<rparr>\<rparr>"
  let ?c3 = "?c2\<lparr>hpc := HandlerClear p, heartbeatsMutex := Some HandlerThread\<rparr>"
  let ?c4 = "?c3\<lparr>hpc := HandlerParse p, cl := nc\<lparr>isAlive := True, missedHeartbeats := 0\<rparr>\<rparr>"
  let ?c5 = "(ct_init nc)\<lparr>cpc := CheckLockBeats, hpc := HandlerCallback, aliveMutex := Some HandlerThread,
        heartbeatsMutex := Some HandlerThread, cl := nc'\<rparr>"
  have runs: "process_runs ?c0" "process_runs ?c1" "process_runs ?c2" "process_runs ?c3" "process_runs ?c4"
    by (simp_all add: process_runs_pc)
  have "?go ?c1"
    by (rule client_more(3) [OF at alive runs(1) handler_step_eq [OF handler_step.lock_alive [of _ p]]]) simp_all
  then have "?go ?c2"
    by (rule client_more(3) [OF _ alive runs(2) handler_step_eq [OF handler_step.set_alive [of _ p]]]) simp_all
  then have "?go ?c3"
    by (rule client_more(3) [OF _ alive runs(3) handler_step_eq [OF handler_step.lock_beats [of _ p]]]) simp_all
  then have "?go ?c4"
    by (rule client_more(3) [OF _ alive runs(4) handler_step_eq [OF handler_step.clear [of _ p]]]) simp_all
  then show "?go ?c5"
    by (rule client_more(3) [OF _ alive runs(5) handler_step_eq [OF handler_step.parse [of _ p tpm now nc']]])
      (use hb in \<open>simp_all add: on_heartbeat_split\<close>)
qed

section \<open>Properties\<close>

text \<open>C3: What a client hands to its user, whatever its five kinds of threads do and however they are
  scheduled, heartbeats, the watchdog and a closing call included. For a stream of packets of which
  any part has arrived, the user's data handler has been given what the first packets of it stand
  for, in order, decompressed, without goodbyes and heartbeats, each once; and when the worker
  sleeps with no notification outstanding and everything has arrived, all of it. The schedule is
  one of the buffer's threads and one of the client's threads.\<close>

theorem whole_client_delivers:
  assumes "onReceivedData nc" "clientShared nc" "trace nc = []" "\<forall>p \<in> set ps. sendable p"
    and "whole_steps tpm deflater inflater place (whole_init nc) fed w" "length fed \<le> queue_cap"
    and "prefix fed (concat (map buildPacket ps))"
  shows "(\<exists>k \<le> length ps. data_received (trace (cl (wc w))) = concat (map (user_packets inflater) (take k ps))) \<and>
    (fed = concat (map buildPacket ps) \<and> wpc (wb w) = Blocked \<and> (\<forall>i. ppc (wb w) i \<noteq> Notifying) \<longrightarrow>
       data_received (trace (cl (wc w))) = concat (map (user_packets inflater) ps)) \<and>
    reachable_sys (Some log_packet) [] fed (wb w) \<and> ct_steps tpm deflater inflater place (ct_init nc) (wc w)"
  using handed_over_so_far [OF assms(1-7)] handed_over_at_rest [OF assms(1-6)] whole_parts [OF assms(5)] by blast

theorem whole_client_delivers_witness:
  "\<exists>w p. whole_steps 1000 store_codec store_codec Outside
       (whole_init ((nc_init 0 True True)\<lparr>onReceivedData := True\<rparr>)) [1, 0, 5, 0, 7] w \<and>
     data_received (trace (cl (wc w))) = [p] \<and> getID p = 1 \<and> getData p = [7]"
proof -
  let ?nc = "(nc_init 0 True True)\<lparr>onReceivedData := True\<rparr>"
  let ?go = "whole_steps 1000 store_codec store_codec Outside (whole_init ?nc) [1, 0, 5, 0, 7]"
  obtain p where p: "Packet_TCP 1 [7] False = Inr p" by (simp add: Packet_TCP_nonempty)
  then have d: "buildPacket p = [1, 0, 5, 0, 7]"
    by (auto simp: Packet_TCP_Inr_iff codec_simps length_bytes_def length_low_def length_high_def)
  have s: "sendable p" and len: "length (buildPacket p) \<le> 1024" and g: "getID p = 1" "getData p = [7]" "getIsCompressed p = 0"
    using p wf_Packet_TCP [OF p] d by (auto simp: sendable_def Packet_TCP_Inr_iff)
  obtain b where b: "internalBuffer b = []" and path: "reachable_sys (Some log_packet) [] (buildPacket p)
       (sys_at [] (pb_init\<lparr>internalBuffer := buildPacket p\<rparr>) (Some Worker) Processing Idle)"
    and call: "worker_step (Some log_packet)
       (sys_at [] (pb_init\<lparr>internalBuffer := buildPacket p\<rparr>) (Some Worker) Processing Idle)
       (sys_at [p] b (Some Worker) Napping Idle)"
    using first_call [OF s len] by blast
  let ?in = "sys_at [] (pb_init\<lparr>internalBuffer := buildPacket p\<rparr>) (Some Worker) Processing Idle"
  let ?c = "(ct_init ?nc)\<lparr>cl := emit (DataReceived p) ?nc\<rparr>"
  have start: "?go \<lparr>wb = ?in, wc = ct_init ?nc\<rparr>"
    using quiet_lift [OF path, of 1000 store_codec store_codec Outside ?nc] d
    by (simp add: sys_at_def worker_alive_def)
  have on: "on_packet 1000 0 store_codec p ?nc = Inr (emit (DataReceived p) ?nc)"
    using g p by (simp add: on_packet_def nc_init_def)
  have "whole_step 1000 store_codec store_codec Outside \<lparr>wb = ?in, wc = ct_init ?nc\<rparr> []
      \<lparr>wb = sys_at [p] b (Some Worker) Napping Idle, wc = ?c\<rparr>"
    by (rule packet_call [OF _ _ _ call, where now = 0])
      (use g on in \<open>simp_all add: sys_at_def worker_alive_def\<close>)
  from whole_steps.step [OF start this]
  have "?go \<lparr>wb = sys_at [p] b (Some Worker) Napping Idle, wc = ?c\<rparr>" by simp
  note naps = worker_more [OF worker_more [OF worker_more [OF worker_more [OF worker_more [OF this]]]]]
  have w: "?go \<lparr>wb = sys_at [p] b None Blocked Idle, wc = ?c\<rparr>"
    by (rule naps [OF nap_to_wait(1) _ _ nap_to_wait(2) _ _ nap_to_wait(3) _ _ nap_to_wait(4) [OF b] _ _ nap_to_wait(5)])
      (simp_all add: sys_at_def worker_alive_def)
  have "data_received (trace (cl (wc \<lparr>wb = sys_at [p] b None Blocked Idle, wc = ?c\<rparr>))) =
      concat (map (user_packets store_codec) [p])"
    by (rule whole_client_delivers [OF _ _ _ _ w, THEN conjunct2, THEN conjunct1, THEN mp])
      (use s d in \<open>simp_all add: nc_init_def queue_cap_def sys_at_def\<close>)
  then have "data_received (trace (cl (wc \<lparr>wb = sys_at [p] b None Blocked Idle, wc = ?c\<rparr>))) = [p]"
    using g p by (simp add: user_packets_def)
  with w g show ?thesis by blast
qed

end
