(* ===== verification/Whole_Progress.thy ===== *)
theory Whole_Progress
  imports Whole_Client
begin

text \<open>
  Which threads of a client can wait for which: the mutex of the buffer, held while the handler
  runs, the two mutexes of the client and the joins of the closing call. \<open>release_rank\<close> counts what is
  left until the worker gives the mutex back, \<open>drain_rank\<close> until everything that has arrived is
  handed over; \<open>whole_stuck\<close> are the states a call inside the heartbeat handler never leaves.
\<close>

section \<open>Progress\<close>

definition whole_good :: "whole \<Rightarrow> bool" where
  "whole_good w \<longleftrightarrow> whole_inv w \<and> lock_inv (wb w) \<and> wait_inv (wb w) \<and> ct_inv (wc w)"

lemma whole_good_step:
  assumes "whole_step tpm deflater inflater place w d v" "whole_good w"
  shows "whole_good v"
  using whole_step_buffer [OF assms(1)] whole_step_client [OF assms(1)] whole_inv_step [OF assms(1)] assms(2)
    sys_step_invs [of "Some log_packet" "wb w" d "wb v"] ct_inv_step [of tpm deflater inflater place "wc w" "wc v"]
  by (auto simp: whole_good_def)

lemma whole_good_reachable:
  assumes "whole_steps tpm deflater inflater place (whole_init nc) fed w" "threads_started nc"
  shows "whole_good w"
  using whole_inv_steps [OF assms(1) whole_inv_init] reachable_invs [OF whole_parts(1) [OF assms(1)]]
    ct_inv_steps [OF whole_parts(2) [OF assms(1)] ct_inv_init [OF assms(2)]]
  by (simp add: whole_good_def)

text \<open>What is left of a call of the handler; the watchdog may have to release a mutex first.\<close>

fun call_rank :: "handler_pc \<Rightarrow> nat" where
  "call_rank (HandlerLockAlive p) = 6"
| "call_rank h = handler_rank h"

definition call_measure :: "ctsys \<Rightarrow> nat" where
  "call_measure c = 2 * call_rank (hpc c) + (if cpc c \<in> {CheckMark, CheckCount} then 1 else 0)"

lemma handler_rank_bound: "handler_rank h \<le> 5"
  by (cases h) simp_all

lemma call_measure_bound: "call_measure c \<le> 13"
  using handler_rank_bound [of "hpc c"] by (cases "hpc c") (simp_all add: call_measure_def)

lemma call_rank_after:
  "handler_step tpm inflater place c c' \<Longrightarrow> holds_alive (hpc c) \<Longrightarrow> call_rank (hpc c') = handler_rank (hpc c')"
  by (elim handler_stepE) auto

lemma call_rank_holds: "holds_alive h \<Longrightarrow> call_rank h = handler_rank h"
  by (cases h) auto

lemma call_moves:
  assumes "locks_agree c" "process_runs c" "hpc c \<noteq> HandlerIdle"
  shows "(\<exists>c'. handler_step tpm inflater Outside c c' \<and> call_rank (hpc c') < call_rank (hpc c) \<and>
      (cpc c' \<in> {CheckMark, CheckCount} \<longrightarrow> cpc c \<in> {CheckMark, CheckCount})) \<or>
    (\<exists>c'. check_step c c' \<and> hpc c' = hpc c \<and> cpc c \<in> {CheckMark, CheckCount} \<and> cpc c' \<notin> {CheckMark, CheckCount})"
proof (cases "holds_alive (hpc c)")
  case True
  show ?thesis
  proof (cases "cpc c = CheckCount")
    case True
    then show ?thesis using check_step.count [of c] by fastforce
  next
    case False
    from handler_moves [OF True assms(1) False, of tpm inflater] obtain c' where
      "handler_step tpm inflater Outside c c'" "handler_rank (hpc c') < handler_rank (hpc c)" "cpc c' = cpc c" by blast
    with call_rank_after call_rank_holds [OF True] True show ?thesis by (metis)
  qed
next
  case False
  with assms(2,3) obtain p where p: "hpc c = HandlerLockAlive p"
    by (cases "hpc c") (simp_all add: process_runs_def)
  show ?thesis
  proof (cases "aliveMutex c")
    case None
    with p handler_step.lock_alive [of c p tpm inflater Outside] show ?thesis by fastforce
  next
    case (Some a)
    with p assms(1) have "cpc c = CheckMark" by (cases a) (auto simp: locks_agree_def)
    then show ?thesis using check_step.mark [of c] by fastforce
  qed
qed

lemma call_step:
  assumes run: "whole_runs w" and busy: "hpc (wc w) \<noteq> HandlerIdle" and agree: "locks_agree (wc w)"
  shows "\<exists>c. whole_step tpm deflater inflater Outside w [] (w\<lparr>wc := c\<rparr>) \<and> call_measure c < call_measure (wc w)"
proof -
  have runs: "process_runs (wc w)" using run by (simp add: whole_runs_def)
  from call_moves [OF agree runs busy, of tpm inflater] show ?thesis
  proof (elim disjE exE conjE)
    fix c assume c: "handler_step tpm inflater Outside (wc w) c" "call_rank (hpc c) < call_rank (hpc (wc w))"
      "cpc c \<in> {CheckMark, CheckCount} \<longrightarrow> cpc (wc w) \<in> {CheckMark, CheckCount}"
    then have "call_measure c < call_measure (wc w)" by (simp add: call_measure_def)
    with whole_step.in_handler [OF run busy c(1)] show ?thesis by blast
  next
    fix c assume c: "check_step (wc w) c" "hpc c = hpc (wc w)" "cpc (wc w) \<in> {CheckMark, CheckCount}"
      "cpc c \<notin> {CheckMark, CheckCount}"
    then have "call_measure c < call_measure (wc w)" by (simp add: call_measure_def)
    with whole_step.check [OF run c(1)] show ?thesis by blast
  qed
qed

text \<open>The body of the worker's loop, which may call the handler, and may end the process.\<close>

lemma body_step:
  assumes run: "whole_runs w" and idle: "hpc (wc w) = HandlerIdle" and pc: "wpc (wb w) = Processing"
  shows "\<exists>v. whole_step tpm deflater inflater place w [] v \<and> ppc (wb v) = ppc (wb w) \<and>
    (\<not> whole_runs v \<or> lock (wb v) = lock (wb w) \<and> wpc (wb v) = Napping \<and>
      process_iteration (Some log_packet) (buf (wb w), hstate (wb w)) = Inr (buf (wb v), hstate (wb v)))"
proof (cases "process_iteration (Some log_packet) (buf (wb w), hstate (wb w))")
  case (Inl e)
  show ?thesis
    by (rule exI, rule conjI, rule whole_step.worker [OF run idle worker_step.uncaught [OF pc Inl]])
      (simp_all add: whole_runs_def worker_alive_def)
next
  case (Inr bu)
  obtain b u where bu: "bu = (b, u)" by (cases bu)
  let ?n = "(wb w)\<lparr>wpc := Napping, buf := b, hstate := u\<rparr>"
  have st: "worker_step (Some log_packet) (wb w) ?n"
    by (rule worker_step.iterate [OF pc]) (use Inr bu in simp)
  from logged_iteration [of "buf (wb w)" "hstate (wb w)" b u] Inr bu
  consider "u = hstate (wb w)" | p where "u = hstate (wb w) @ [p]" by auto
  then show ?thesis
  proof cases
    case 1
    show ?thesis
      by (rule exI, rule conjI, rule whole_step.worker [OF run idle st]) (use 1 Inr bu in simp_all)
  next
    case (2 p)
    show ?thesis
    proof (cases "getID p = parlo_id Heartbeat")
      case True
      show ?thesis
        by (rule exI, rule conjI, rule whole_step.heartbeat [OF run idle st _ True]) (use 2 Inr bu in simp_all)
    next
      case False
      show ?thesis
      proof (cases "on_packet tpm 0 inflater p (cl (wc w))")
        case raised: (Inl e)
        show ?thesis
          by (rule exI, rule conjI, rule whole_step.packet_raises [OF run idle st _ False raised])
            (use 2 in \<open>simp_all add: whole_runs_def process_runs_def\<close>)
      next
        case handled: (Inr nc)
        show ?thesis
          by (rule exI, rule conjI, rule whole_step.packet [OF run idle st _ False handled]) (use 2 Inr bu in simp_all)
      qed
    qed
  qed
qed

text \<open>The worker's other actions, while the buffer is not being destroyed.\<close>

fun next_pc :: "bool \<Rightarrow> worker_pc \<Rightarrow> worker_pc" where
  "next_pc no_bytes LoopTest = Locking"
| "next_pc no_bytes Locking = Testing"
| "next_pc no_bytes Testing = (if no_bytes then Parking else Woken)"
| "next_pc no_bytes Parking = Blocked"
| "next_pc no_bytes Relocking = Testing"
| "next_pc no_bytes Woken = Processing"
| "next_pc no_bytes Napping = LoopTest"
| "next_pc no_bytes pc = pc"

fun next_lock :: "worker_pc \<Rightarrow> agent option \<Rightarrow> agent option" where
  "next_lock Locking l = Some Worker"
| "next_lock Relocking l = Some Worker"
| "next_lock Parking l = None"
| "next_lock Napping l = None"
| "next_lock pc l = l"

definition advance :: "'u pbsys \<Rightarrow> 'u pbsys" where
  "advance s = s\<lparr>wpc := next_pc (internalBuffer (buf s) = []) (wpc s), lock := next_lock (wpc s) (lock s)\<rparr>"

lemma advance_simps [simp]:
  "ppc (advance s) = ppc s" "hstate (advance s) = hstate s" "buf (advance s) = buf s"
  "wpc (advance s) = next_pc (internalBuffer (buf s) = []) (wpc s)" "lock (advance s) = next_lock (wpc s) (lock s)"
  by (simp_all add: advance_def)

lemma worker_step_eq: "worker_step handler s t \<Longrightarrow> t = u \<Longrightarrow> worker_step handler s u"
  by simp

lemma worker_advances:
  assumes "wpc s \<in> {LoopTest, Locking, Testing, Parking, Relocking, Woken, Napping}" "\<not> stopProcessing s"
    and "wpc s \<in> {Locking, Relocking} \<longrightarrow> lock s = None"
  shows "worker_step handler s (advance s)"
proof (cases "wpc s")
  case LoopTest
  show ?thesis
    by (rule worker_step_eq [OF worker_step.loop_go]) (use LoopTest assms in \<open>simp_all add: advance_def\<close>)
next
  case Locking
  show ?thesis
    by (rule worker_step_eq [OF worker_step.acquire]) (use Locking assms in \<open>simp_all add: advance_def\<close>)
next
  case Testing
  show ?thesis
  proof (cases "internalBuffer (buf s) = []")
    case True
    show ?thesis
      by (rule worker_step_eq [OF worker_step.pred_false]) (use True Testing assms in \<open>simp_all add: advance_def\<close>)
  next
    case False
    show ?thesis
      by (rule worker_step_eq [OF worker_step.pred_true]) (use False Testing assms in \<open>simp_all add: advance_def\<close>)
  qed
next
  case Parking
  show ?thesis
    by (rule worker_step_eq [OF worker_step.block]) (use Parking in \<open>simp_all add: advance_def\<close>)
next
  case Relocking
  show ?thesis
    by (rule worker_step_eq [OF worker_step.reacquire]) (use Relocking assms in \<open>simp_all add: advance_def\<close>)
next
  case Woken
  show ?thesis
    by (rule worker_step_eq [OF worker_step.go_on]) (use Woken assms in \<open>simp_all add: advance_def\<close>)
next
  case Napping
  show ?thesis
    by (rule worker_step_eq [OF worker_step.nap_over]) (use Napping in \<open>simp_all add: advance_def\<close>)
qed (use assms(1) in simp_all)

text \<open>
  A state from which the worker moves on: an action of its own, the body, or, in a call of the handler,
  an action that brings the end of the call nearer.
\<close>

lemma worker_moves:
  assumes run: "whole_runs w" and good: "whole_good w" and pc: "wpc (wb w) \<notin> {Blocked, Exited}"
    and free: "wpc (wb w) \<in> {Locking, Relocking} \<Longrightarrow> lock (wb w) = None"
  obtains (own) v where "whole_step tpm deflater inflater Outside w [] v" "wb v = advance (wb w)" "wc v = wc w"
      "wpc (wb w) \<noteq> Processing"
    | (body) v where "whole_step tpm deflater inflater Outside w [] v" "ppc (wb v) = ppc (wb w)"
      "wpc (wb w) = Processing"
      "\<not> whole_runs v \<or> lock (wb v) = lock (wb w) \<and> wpc (wb v) = Napping \<and>
        process_iteration (Some log_packet) (buf (wb w), hstate (wb w)) = Inr (buf (wb v), hstate (wb v))"
    | (call) v where "whole_step tpm deflater inflater Outside w [] v" "wb v = wb w" "wpc (wb w) = Napping"
      "call_measure (wc v) < call_measure (wc w)"
proof -
  have agree: "locks_agree (wc w)" and nostop: "\<not> stopProcessing (wb w)"
    and nap: "hpc (wc w) \<noteq> HandlerIdle \<longrightarrow> wpc (wb w) = Napping"
    using good run by (simp_all add: whole_good_def ct_inv_def whole_inv_def whole_runs_def)
  consider "hpc (wc w) \<noteq> HandlerIdle" | "hpc (wc w) = HandlerIdle" "wpc (wb w) = Processing"
    | "hpc (wc w) = HandlerIdle" "wpc (wb w) \<noteq> Processing" by blast
  then show thesis
  proof cases
    case 1
    from call_step [OF run 1 agree, of tpm deflater inflater] call [of "w\<lparr>wc := c\<rparr>" for c] 1 nap
    show thesis by auto
  next
    case 2
    from body_step [OF run 2, of tpm deflater inflater Outside] body 2 show thesis by blast
  next
    case 3
    have "wpc (wb w) \<in> {LoopTest, Locking, Testing, Parking, Relocking, Woken, Napping}"
      using 3 pc run by (cases "wpc (wb w)") (simp_all add: whole_runs_def worker_alive_def)
    from worker_advances [OF this nostop, of "Some log_packet"] free
    have "worker_step (Some log_packet) (wb w) (advance (wb w))" by simp
    from whole_step.worker [OF run 3(1) this] show thesis by (rule own) (use 3 in simp_all)
  qed
qed

text \<open>The steps of the worker until it gives the mutex back.\<close>

definition release_rank :: "whole \<Rightarrow> nat" where
  "release_rank w = (case wpc (wb w) of
     Testing \<Rightarrow> 60 | Woken \<Rightarrow> 50 | Processing \<Rightarrow> 40 | Napping \<Rightarrow> call_measure (wc w) | _ \<Rightarrow> 0)"

lemma release_step:
  assumes run: "whole_runs w" and worker: "lock (wb w) = Some Worker" and good: "whole_good w"
  shows "\<exists>v. whole_step tpm deflater inflater Outside w [] v \<and> ppc (wb v) = ppc (wb w) \<and>
    (\<not> whole_runs v \<or> lock (wb v) = None \<or> lock (wb v) = Some Worker \<and> release_rank v < release_rank w)"
proof -
  from good worker have holds: "holds_lock (wpc (wb w))" by (auto simp: whole_good_def lock_inv_def)
  then have pc: "wpc (wb w) \<notin> {Blocked, Exited}" "wpc (wb w) \<notin> {Locking, Relocking}" by auto
  show ?thesis
  proof (rule worker_moves [OF run good pc(1), of tpm deflater inflater])
    fix v assume v: "whole_step tpm deflater inflater Outside w [] v" "wb v = advance (wb w)" "wc v = wc w"
      "wpc (wb w) \<noteq> Processing"
    have "lock (wb v) = None \<or> lock (wb v) = Some Worker \<and> release_rank v < release_rank w"
      using v(2,4) holds worker run
      by (cases "wpc (wb w)") (simp_all add: release_rank_def whole_runs_def worker_alive_def)
    with v(1,2) show ?thesis by (intro exI [of _ v]) simp
  next
    fix v assume "whole_step tpm deflater inflater Outside w [] v" "ppc (wb v) = ppc (wb w)" "wpc (wb w) = Processing"
      "\<not> whole_runs v \<or> lock (wb v) = lock (wb w) \<and> wpc (wb v) = Napping \<and>
        process_iteration (Some log_packet) (buf (wb w), hstate (wb w)) = Inr (buf (wb v), hstate (wb v))"
    with worker call_measure_bound [of "wc v"] show ?thesis
      by (intro exI [of _ v]) (auto simp: release_rank_def)
  next
    fix v assume "whole_step tpm deflater inflater Outside w [] v" "wb v = wb w" "wpc (wb w) = Napping"
      "call_measure (wc v) < call_measure (wc w)"
    with worker show ?thesis by (intro exI [of _ v]) (simp add: release_rank_def)
  qed (use pc(2) in simp)
qed

text \<open>The mutex of the buffer can always become free, with no call of \<open>addData\<close> moving.\<close>

lemma mutex_released:
  assumes "lock (wb w) = Some Worker" "whole_good w"
  shows "\<exists>v. whole_steps tpm deflater inflater Outside w [] v \<and> ppc (wb v) = ppc (wb w) \<and>
    (\<not> whole_runs v \<or> lock (wb v) = None)"
  using assms
proof (induction "release_rank w" arbitrary: w rule: less_induct)
  case less
  show ?case
  proof (cases "whole_runs w")
    case False
    then show ?thesis using whole_steps.start by blast
  next
    case True
    from release_step [OF True less.prems, of tpm deflater inflater] obtain v where
      st: "whole_step tpm deflater inflater Outside w [] v" and ppc: "ppc (wb v) = ppc (wb w)"
      and v: "\<not> whole_runs v \<or> lock (wb v) = None \<or> lock (wb v) = Some Worker \<and> release_rank v < release_rank w"
      by blast
    from v consider "\<not> whole_runs v \<or> lock (wb v) = None"
      | "release_rank v < release_rank w" "lock (wb v) = Some Worker" by auto
    then show ?thesis
    proof cases
      case 1
      with whole_steps_one [OF st] ppc show ?thesis by blast
    next
      case 2
      from less.hyps [OF 2 whole_good_step [OF st less.prems(2)]] obtain u where
        "whole_steps tpm deflater inflater Outside v [] u" "ppc (wb u) = ppc (wb v)"
        "\<not> whole_runs u \<or> lock (wb u) = None" by blast
      with whole_steps_trans [OF whole_steps_one [OF st], of "[]" u] ppc show ?thesis by auto
    qed
  qed
qed

text \<open>A call of \<open>addData\<close> that finds the mutex free queues its bytes.\<close>

lemma arrival_enters:
  assumes "whole_runs w" "ppc (wb w) i = Adding d" "lock (wb w) = None" "length d \<le> 1024"
  shows "\<exists>v. whole_steps tpm deflater inflater place w d v \<and> ppc (wb v) i = Notifying"
proof -
  let ?p = "(wb w)\<lparr>ppc := (ppc (wb w))(i := Pushing d), lock := Some (Producer i)\<rparr>"
  let ?u = "w\<lparr>wb := ?p\<rparr>"
  let ?v = "?u\<lparr>wb := ?p\<lparr>ppc := (ppc ?p)(i := Notifying),
    buf := (buf ?p)\<lparr>internalBuffer := internalBuffer (buf ?p) @ d\<rparr>, lock := None\<rparr>\<rparr>"
  have "whole_step tpm deflater inflater place w [] ?u"
    by (rule whole_step.io [OF assms(1) producer_step.enter [OF assms(2,3)]])
  moreover have "producer_step ?p d (wb ?v)"
    using producer_step.add [of ?p i d] assms(4) by (simp add: addData_Inr_iff)
  then have "whole_step tpm deflater inflater place ?u d ?v"
    using whole_step.io [of ?u d "wb ?v" tpm deflater inflater place] assms(1) by (simp add: whole_runs_def)
  ultimately have "whole_steps tpm deflater inflater place w ([] @ d) ?v"
    using whole_steps.step [OF whole_steps_one] by blast
  then show ?thesis by (intro exI [of _ ?v]) simp
qed

lemma arrival_moves:
  assumes good: "whole_good w" and pc: "ppc (wb w) i = Adding d"
  shows "\<exists>fed v. whole_steps tpm deflater inflater Outside w fed v \<and>
    (\<not> whole_runs v \<or> suffix d fed \<and> ppc (wb v) i = Notifying)"
proof -
  have small: "length d \<le> 1024"
    using good pc by (auto simp: whole_good_def whole_inv_def dest!: spec [of _ i])
  have free: ?thesis if st: "whole_steps tpm deflater inflater Outside w fed v" "ppc (wb v) i = Adding d"
    "\<not> whole_runs v \<or> lock (wb v) = None" for fed v
  proof (cases "whole_runs v")
    case True
    with st(3) have "lock (wb v) = None" by simp
    from arrival_enters [OF True st(2) this small, of tpm deflater inflater Outside] obtain u where
      "whole_steps tpm deflater inflater Outside v d u" "ppc (wb u) i = Notifying" by blast
    with whole_steps_trans [OF st(1)] show ?thesis by (intro exI [of _ "fed @ d"]) (auto simp: suffix_def)
  qed (use st in blast)
  show ?thesis
  proof (cases "lock (wb w)")
    case None
    with free [OF whole_steps.start] pc show ?thesis by blast
  next
    case (Some a)
    show ?thesis
    proof (cases a)
      case Worker
      with mutex_released [of w tpm deflater inflater] Some good free pc show ?thesis by metis
    next
      case (Producer j)
      with Some good obtain e where e: "ppc (wb w) j = Pushing e" by (auto simp: whole_good_def lock_inv_def)
      then have le: "length e \<le> 1024"
        using good by (auto simp: whole_good_def whole_inv_def dest!: spec [of _ j])
      show ?thesis
      proof (cases "whole_runs w")
        case False
        then show ?thesis using whole_steps.start by blast
      next
        case True
        let ?b = "(buf (wb w))\<lparr>internalBuffer := internalBuffer (buf (wb w)) @ e\<rparr>"
        have "producer_step (wb w) e ((wb w)\<lparr>ppc := (ppc (wb w))(j := Notifying), buf := ?b, lock := None\<rparr>)"
          by (rule producer_step.add [OF e]) (simp add: addData_Inr_iff le)
        moreover have "i \<noteq> j" using pc e by auto
        ultimately show ?thesis using free [OF whole_steps_one [OF whole_step.io [OF True]]] pc by auto
      qed
    qed
  qed
qed

text \<open>
  Everything that has arrived can be handed over while no \<open>addData\<close> is in its critical section: the
  frames that are left, of \<open>n\<close>, weighing most, then the worker's way to the next turn.
\<close>

definition drain_rank :: "nat \<Rightarrow> whole \<Rightarrow> nat" where
  "drain_rank n w = 200 * (n - length (hstate (wb w))) + (case wpc (wb w) of
     Napping \<Rightarrow> 20 + call_measure (wc w) | LoopTest \<Rightarrow> 16 | Locking \<Rightarrow> 15 | Blocked \<Rightarrow> 14 | Relocking \<Rightarrow> 13
   | Testing \<Rightarrow> 12 | Woken \<Rightarrow> 11 | Processing \<Rightarrow> 10 | _ \<Rightarrow> 0)"

definition none_pushing :: "whole \<Rightarrow> bool" where
  "none_pushing w \<longleftrightarrow> (\<forall>j e. ppc (wb w) j \<noteq> Pushing e)"

lemma schedule_length:
  assumes "reachable_sys handler u fed s" "length fed \<le> queue_cap"
  shows "length (pending (buf s)) \<le> queue_cap"
proof -
  obtain evs where "fed_bytes pb_accepts evs = fed"
    "run_events pb_feed (worker_turn handler) evs (pb_init, u) = Inr (buf s, hstate s)"
    using schedule_linearises [OF assms(1)] by blast
  with pb.run_length [OF pb_inv_init, of evs handler u "buf s" "hstate s"] assms(2) show ?thesis by simp
qed

text \<open>The body on a queue with a complete frame hands one more packet over.\<close>

lemma body_delivers:
  assumes "next_frame (pending b) = Some (f, r)" "pb_inv b" "length (pending b) \<le> queue_cap" "internalBuffer b \<noteq> []"
    and "process_iteration (Some log_packet) (b, u) = Inr (b', u')"
  shows "length u' = Suc (length u)"
proof -
  obtain i c d where "f = (i, c, d)" by (cases f)
  moreover have "\<exists>s. and_then (deliver_frame (Some log_packet) f u) (\<lambda>u'. Inr (s, u')) = Inr (b', u')"
    using pb.work_frame [OF assms(2,3,1), of "Some log_packet" u] assms(4,5) by (auto simp: worker_turn_def)
  ultimately show ?thesis by (auto simp: and_then_Inr_iff)
qed

lemma drain_step:
  assumes run: "whole_runs w" and good: "whole_good w" and quiet: "none_pushing w"
    and buffer: "pb_inv (buf (wb w))" "length (pending (buf (wb w))) \<le> queue_cap" "wpc (wb w) \<noteq> Exited"
    and frame: "next_frame (pending (buf (wb w))) = Some (f, r)" "length (hstate (wb w)) < n"
  shows "\<exists>v. whole_step tpm deflater inflater Outside w [] v \<and>
    (\<not> whole_runs v \<or> drain_rank n v < drain_rank n w \<and> none_pushing v)"
proof (cases "wpc (wb w) = Blocked")
  case True
  have queued: "internalBuffer (buf (wb w)) \<noteq> []" using empty_queue_idle [OF buffer(1)] frame(1) by auto
  with True good obtain i where i: "ppc (wb w) i = Notifying" by (auto simp: whole_good_def wait_inv_def)
  let ?v = "w\<lparr>wb := (wb w)\<lparr>ppc := (ppc (wb w))(i := Idle), wpc := wake (wpc (wb w))\<rparr>\<rparr>"
  have "whole_step tpm deflater inflater Outside w [] ?v" by (rule whole_step.io [OF run producer_step.notify [OF i]])
  with True quiet show ?thesis by (intro exI [of _ ?v]) (simp add: drain_rank_def none_pushing_def wake_def)
next
  case False
  have queued: "internalBuffer (buf (wb w)) \<noteq> []" using empty_queue_idle [OF buffer(1)] frame(1) by auto
  with good have moving: "wpc (wb w) \<noteq> Parking" by (auto simp: whole_good_def wait_inv_def)
  have free: "lock (wb w) = None" if "wpc (wb w) \<in> {Locking, Relocking}"
  proof (cases "lock (wb w)")
    case (Some a)
    with that good quiet show ?thesis by (cases a) (auto simp: whole_good_def lock_inv_def none_pushing_def)
  qed simp
  have pc: "wpc (wb w) \<notin> {Blocked, Exited}" using False buffer(3) by simp
  show ?thesis
  proof (rule worker_moves [OF run good pc, of tpm deflater inflater])
    fix v assume v: "whole_step tpm deflater inflater Outside w [] v" "wb v = advance (wb w)" "wc v = wc w"
      "wpc (wb w) \<noteq> Processing"
    have "drain_rank n v < drain_rank n w"
      using v(2,4) pc moving queued run
      by (cases "wpc (wb w)") (simp_all add: drain_rank_def whole_runs_def worker_alive_def)
    with v(1,2) quiet show ?thesis by (intro exI [of _ v]) (simp add: none_pushing_def)
  next
    fix v assume v: "whole_step tpm deflater inflater Outside w [] v" "ppc (wb v) = ppc (wb w)" "wpc (wb w) = Processing"
      "\<not> whole_runs v \<or> lock (wb v) = lock (wb w) \<and> wpc (wb v) = Napping \<and>
        process_iteration (Some log_packet) (buf (wb w), hstate (wb w)) = Inr (buf (wb v), hstate (wb v))"
    have "drain_rank n v < drain_rank n w" if "whole_runs v"
      using v(3,4) that body_delivers [OF frame(1) buffer(1,2) queued, of "hstate (wb w)" "buf (wb v)" "hstate (wb v)"]
        frame(2) call_measure_bound [of "wc v"] by (simp add: drain_rank_def)
    with v(1,2) quiet show ?thesis by (intro exI [of _ v]) (auto simp: none_pushing_def)
  next
    fix v assume "whole_step tpm deflater inflater Outside w [] v" "wb v = wb w" "wpc (wb w) = Napping"
      "call_measure (wc v) < call_measure (wc w)"
    with quiet show ?thesis by (intro exI [of _ v]) (simp add: drain_rank_def none_pushing_def)
  qed (use free in simp)
qed

lemma drained:
  assumes "threads_started nc" "whole_steps tpm deflater inflater Outside (whole_init nc) fed w" "none_pushing w"
    and "length fed \<le> queue_cap"
  shows "\<exists>v. whole_steps tpm deflater inflater Outside w [] v \<and>
    (\<not> whole_runs v \<or> next_frame (pending (buf (wb v))) = None)"
  using assms(2,3)
proof (induction "drain_rank (length (frames_of next_frame fed)) w" arbitrary: w rule: less_induct)
  case less
  let ?n = "length (frames_of next_frame fed)"
  note good = whole_good_reachable [OF less.prems(1) assms(1)] and buffer = whole_parts(1) [OF less.prems(1)]
  note pre = schedule_prefix [OF buffer assms(4)] and len = schedule_length [OF buffer assms(4)]
  have busy: "wpc (wb w) \<noteq> Exited" using reachable_dtor_inv [OF buffer] good by (auto simp: dtor_inv_def whole_good_def whole_inv_def)
  show ?case
  proof (cases "whole_runs w \<and> next_frame (pending (buf (wb w))) \<noteq> None")
    case True
    then obtain f r where f: "next_frame (pending (buf (wb w))) = Some (f, r)" by auto
    with pre have "length (hstate (wb w)) < ?n" by (simp add: pb.frames_Some)
    from drain_step [OF _ good less.prems(2) _ len busy f this, of tpm deflater inflater] True pre obtain v where
      v: "whole_step tpm deflater inflater Outside w [] v"
      "\<not> whole_runs v \<or> drain_rank ?n v < drain_rank ?n w \<and> none_pushing v" by blast
    have reach: "whole_steps tpm deflater inflater Outside (whole_init nc) fed v"
      using whole_steps.step [OF less.prems(1) v(1)] by simp
    show ?thesis
    proof (cases "whole_runs v")
      case False
      with whole_steps_one [OF v(1)] show ?thesis by blast
    next
      case True
      with v(2) less.hyps [OF _ reach] obtain u where
        "whole_steps tpm deflater inflater Outside v [] u" "\<not> whole_runs u \<or> next_frame (pending (buf (wb u))) = None" by blast
      with whole_steps_trans [OF whole_steps_one [OF v(1)], of "[]" u] show ?thesis by auto
    qed
  next
    case False
    then show ?thesis using whole_steps.start by blast
  qed
qed

text \<open>The closer's progress needs no packet: a step that starts the handler brings it no nearer.\<close>

lemma idle_handler_rank:
  "handler_step tpm inflater place c c' \<Longrightarrow> hpc c = HandlerIdle \<Longrightarrow> closing_rank c' = closing_rank c"
  by (elim handler_stepE) (simp_all add: closing_rank_def)

lemma whole_closing_progress:
  assumes "whole_good w" "whole_runs w" "xpc (wc w) \<noteq> CloserDone"
  shows "\<exists>v. whole_step tpm deflater inflater Outside w [] v \<and> closing_rank (wc v) < closing_rank (wc w)"
proof -
  from assms have "ct_inv (wc w)" "process_runs (wc w)" by (simp_all add: whole_good_def whole_runs_def)
  from closing_progress [OF this assms(3), of tpm deflater inflater] obtain c where
    "ct_step tpm deflater inflater Outside (wc w) c" and rank: "closing_rank c < closing_rank (wc w)" by blast
  then have "check_step (wc w) c \<or> send_step tpm deflater (wc w) c \<or>
      hpc (wc w) \<noteq> HandlerIdle \<and> handler_step tpm inflater Outside (wc w) c \<or> closer_step Outside (wc w) c"
    using idle_handler_rank [of tpm inflater Outside "wc w" c] by (auto simp: ct_step_def)
  then have "whole_step tpm deflater inflater Outside w [] (w\<lparr>wc := c\<rparr>)"
    using assms(2) by (auto intro: whole_step.check whole_step.send whole_step.in_handler whole_step.close)
  with rank show ?thesis by (intro exI [of _ "w\<lparr>wc := c\<rparr>"]) simp
qed

lemma whole_closing:
  assumes "whole_good w"
  shows "\<exists>v. whole_steps tpm deflater inflater Outside w [] v \<and> (xpc (wc v) = CloserDone \<or> \<not> whole_runs v)"
  using assms
proof (induction "closing_rank (wc w)" arbitrary: w rule: less_induct)
  case less
  show ?case
  proof (cases "whole_runs w \<and> xpc (wc w) \<noteq> CloserDone")
    case True
    with whole_closing_progress [OF less.prems, of tpm deflater inflater] obtain v where
      v: "whole_step tpm deflater inflater Outside w [] v" "closing_rank (wc v) < closing_rank (wc w)" by blast
    from less.hyps [OF v(2) whole_good_step [OF v(1) less.prems]] obtain u where
      "whole_steps tpm deflater inflater Outside v [] u" "xpc (wc u) = CloserDone \<or> \<not> whole_runs u" by blast
    with whole_steps_trans [OF whole_steps_one [OF v(1)], of "[]" u] show ?thesis by auto
  next
    case False
    then show ?thesis using whole_steps.start by blast
  qed
qed


text \<open>The closer in the callback, the worker with the mutex of the buffer, and a waiting \<open>addData\<close>.\<close>

definition whole_stuck :: "nat \<Rightarrow> bytes \<Rightarrow> whole \<Rightarrow> bool" where
  "whole_stuck i d w \<longleftrightarrow> whole_good w \<and> deadlocked (wc w) \<and> lock (wb w) = Some Worker \<and> wpc (wb w) = Napping \<and>
     ppc (wb w) i = Adding d"

lemma stuck_producer:
  assumes "producer_step s e t" "lock s = Some Worker" "lock_inv s" "wpc s = Napping" "ppc s i = Adding d"
  shows "e = [] \<and> hstate t = hstate s \<and> lock t = Some Worker \<and> wpc t = Napping \<and> ppc t i = Adding d"
  using assms by (elim producer_stepE) (auto simp: lock_inv_def wake_def)

lemma stuck_step:
  assumes "whole_step tpm deflater inflater InCallback w e v" "whole_stuck i d w"
  shows "whole_stuck i d v \<and> e = [] \<and> hstate (wb v) = hstate (wb w)"
proof -
  from assms(2) have busy: "hpc (wc w) \<noteq> HandlerIdle" and nap: "wpc (wb w) = Napping"
    by (simp_all add: whole_stuck_def deadlocked_def)
  have dead: "deadlocked (wc v)"
    using whole_step_client [OF assms(1)] deadlocked_step [of tpm deflater inflater "wc w" "wc v"] assms(2)
    by (auto simp: whole_stuck_def)
  have good: "whole_good v" using whole_good_step [OF assms(1)] assms(2) by (simp add: whole_stuck_def)
  from assms(1) show ?thesis
  proof (cases rule: whole_step.cases)
    case (io b)
    have "e = [] \<and> hstate b = hstate (wb w) \<and> lock b = Some Worker \<and> wpc b = Napping \<and> ppc b i = Adding d"
      by (rule stuck_producer [OF io(3)]) (use assms(2) in \<open>simp_all add: whole_stuck_def whole_good_def\<close>)
    with io dead good show ?thesis by (simp add: whole_stuck_def)
  next
    case (spurious b)
    with nap show ?thesis by (auto elim: spurious_stepE)
  qed (use assms(2) dead good busy in \<open>simp_all add: whole_stuck_def\<close>)
qed

lemma stuck_steps:
  assumes "whole_steps tpm deflater inflater InCallback w fed v" "whole_stuck i d w"
  shows "whole_stuck i d v \<and> fed = [] \<and> hstate (wb v) = hstate (wb w)"
  using assms
proof (induction rule: whole_steps.induct)
  case start
  then show ?case by simp
next
  case (step fed u e v)
  with stuck_step [OF step.hyps(2), of i d] show ?case by simp
qed

section \<open>Properties\<close>



text \<open>Everything that has arrived gets to the user. From every state the threads can reach after a whole
  stream of packets has been queued, with no \<open>addData\<close> in its critical section, and whatever the
  heartbeat threads and the closing call are doing, a schedule hands all of it to the data handler,
  unless an exception ends the process.\<close>

theorem arrived_is_delivered:
  assumes "threads_started nc" "onReceivedData nc" "clientShared nc" "trace nc = []" "\<forall>p \<in> set ps. sendable p"
    and "whole_steps tpm deflater inflater Outside (whole_init nc) (concat (map buildPacket ps)) w"
    and "length (concat (map buildPacket ps)) \<le> queue_cap" "\<forall>i d. ppc (wb w) i \<noteq> Pushing d"
  shows "\<exists>v. whole_steps tpm deflater inflater Outside w [] v \<and>
    (\<not> whole_runs v \<or> data_received (trace (cl (wc v))) = concat (map (user_packets inflater) ps))"
proof -
  obtain v where v: "whole_steps tpm deflater inflater Outside w [] v"
    "\<not> whole_runs v \<or> next_frame (pending (buf (wb v))) = None"
    using drained [OF assms(1,6) _ assms(7)] assms(8) by (auto simp: none_pushing_def)
  have reach: "whole_steps tpm deflater inflater Outside (whole_init nc) (concat (map buildPacket ps)) v"
    using whole_steps_trans [OF assms(6) v(1)] by simp
  have "data_received (trace (cl (wc v))) = concat (map (user_packets inflater) ps)" if "whole_runs v"
    by (rule handed_over [OF reach assms(2-4)])
      (use logged_frames [OF reach refl assms(7) refl assms(5)] v(2) that in \<open>simp add: pb.frames_None\<close>)
  with v(1) show ?thesis by blast
qed

theorem arrived_is_delivered_witness:
  "\<exists>v p. whole_steps 1000 store_codec store_codec Outside
       (whole_init (sample_client\<lparr>onReceivedData := True\<rparr>)) (buildPacket p) v \<and> getData p = [7] \<and>
     (\<not> whole_runs v \<or> data_received (trace (cl (wc v))) = [p])"
proof -
  let ?nc = "sample_client\<lparr>onReceivedData := True\<rparr>"
  obtain p where p: "Packet_TCP 1 [7] False = Inr p" by (simp add: Packet_TCP_nonempty)
  have s: "sendable p" and len: "length (buildPacket p) = 5" and g: "getID p = 1" "getData p = [7]" "getIsCompressed p = 0"
    using p wf_Packet_TCP [OF p] by (auto simp: sendable_def result_simps length_buildPacket packet_header_def)
  from len have "length (buildPacket p) \<le> 1024" by simp
  from first_call [OF s this] have path: "reachable_sys (Some log_packet) [] (buildPacket p)
       (sys_at [] (pb_init\<lparr>internalBuffer := buildPacket p\<rparr>) (Some Worker) Processing Idle)" by blast
  let ?w = "\<lparr>wb = sys_at [] (pb_init\<lparr>internalBuffer := buildPacket p\<rparr>) (Some Worker) Processing Idle, wc = ct_init ?nc\<rparr>"
  have w: "whole_steps 1000 store_codec store_codec Outside (whole_init ?nc) (concat (map buildPacket [p])) ?w"
    using quiet_lift [OF path, of 1000 store_codec store_codec Outside ?nc]
    by (simp add: sys_at_def worker_alive_def)
  have nc: "threads_started ?nc" "onReceivedData ?nc" "clientShared ?nc" "trace ?nc = []"
    by (simp_all add: threads_started_def sample_client_def nc_init_def)
  obtain v where v: "whole_steps 1000 store_codec store_codec Outside ?w [] v"
    "\<not> whole_runs v \<or> data_received (trace (cl (wc v))) = concat (map (user_packets store_codec) [p])"
    using arrived_is_delivered [OF nc _ w] s len by (auto simp: queue_cap_def sys_at_def)
  from whole_steps_trans [OF w v(1)] v(2) g p show ?thesis
    by (intro exI [of _ v] exI [of _ p]) (simp add: user_packets_def)
qed

text \<open>C20: Closing the client inside its heartbeat handler stops its network threads too. The handler runs
  with the buffer's mutex held, so once the closing call waits for a watchdog that waits for the
  handler's mutex, a chunk that arrives is never queued: in no continuation of any thread does that
  \<open>addData\<close> get the mutex, does a byte reach the buffer or another packet the handler.\<close>

theorem arrivals_stuck:
  assumes nc: "threads_started nc" "onReceivedHeartbeat nc"
    and p: "sendable p" "length (buildPacket p) \<le> 1024" "getID p = parlo_id Heartbeat"
    and hb: "on_heartbeat tpm now p nc = Inr nc'" and d: "length d \<le> 1024"
  shows "\<exists>w. whole_steps tpm deflater inflater InCallback (whole_init nc) (buildPacket p) w \<and> whole_runs w \<and>
    (\<forall>fed v. whole_steps tpm deflater inflater InCallback w fed v \<longrightarrow>
       ppc (wb v) i = Adding d \<and> fed = [] \<and> hstate (wb v) = [p] \<and> xpc (wc v) = CloserJoinCheck)"
proof -
  let ?in = "sys_at [] (pb_init\<lparr>internalBuffer := buildPacket p\<rparr>) (Some Worker) Processing Idle :: packet list pbsys"
  let ?go = "\<lambda>b c. whole_steps tpm deflater inflater InCallback (whole_init nc) (buildPacket p) \<lparr>wb = b, wc = c\<rparr>"
  obtain b where path: "reachable_sys (Some log_packet) [] (buildPacket p) ?in"
    and call: "worker_step (Some log_packet) ?in (sys_at [p] b (Some Worker) Napping Idle)"
    using first_call [OF p(1,2)] by blast
  let ?b = "sys_at [p] b (Some Worker) Napping Idle"
  let ?s = "(ct_init nc)\<lparr>cpc := CheckSleep\<rparr>" and ?l = "(ct_init nc)\<lparr>cpc := CheckLockBeats\<rparr>"
  let ?c0 = "(ct_init nc)\<lparr>cpc := CheckLockBeats, hpc := HandlerLockAlive p\<rparr>"
  let ?c5 = "(ct_init nc)\<lparr>cpc := CheckLockBeats, hpc := HandlerCallback, aliveMutex := Some HandlerThread,
    heartbeatsMutex := Some HandlerThread, cl := nc'\<rparr>"
  let ?c6 = "?c5\<lparr>xpc := CloserStopCheck\<rparr>"
  let ?c7 = "?c6\<lparr>cl := nc'\<lparr>stopCheckMissedHeartbeats := True\<rparr>, xpc := CloserJoinCheck\<rparr>"
  have alive: "worker_alive (wpc ?in)" "worker_alive (wpc ?b)" by (simp_all add: worker_alive_def sys_at_def)
  have runs: "process_runs ?s" "process_runs ?l" "process_runs ?c5" "process_runs ?c6" "process_runs ?c7"
    by (simp_all add: process_runs_pc)
  have flags: "threads_started nc'" "onReceivedHeartbeat nc'"
    using on_heartbeat_flags [OF hb] nc hb
    by (auto simp: same_flags_def threads_started_def on_heartbeat_split heartbeat_rtt_def emit_def
        and_then_Inr_iff fire_Inr_iff Let_def split: if_splits)
  have "?go ?in (ct_init nc)"
    by (rule quiet_lift [OF path _ _ alive(1)]) (simp_all add: sys_at_def)
  from client_more(1) [OF this alive(1) _ check_step.loop_go] have "?go ?in ?s"
    using nc(1) by (simp add: threads_started_def)
  from client_more(1) [OF this alive(1) runs(1) check_step_eq [OF check_step.sleep]] have "?go ?in ?l" by simp
  moreover have "whole_step tpm deflater inflater InCallback \<lparr>wb = ?in, wc = ?l\<rparr> [] \<lparr>wb = ?b, wc = ?c0\<rparr>"
    using whole_step.heartbeat [of "\<lparr>wb = ?in, wc = ?l\<rparr>" ?b p tpm deflater inflater InCallback] call p(3) runs(2) alive(1)
    by (simp add: whole_runs_def sys_at_def)
  ultimately have "?go ?b ?c0" using whole_steps.step by fastforce
  from call_reaches_callback [OF this alive(2) hb] have "?go ?b ?c5" .
  from client_more(2) [OF this alive(2) runs(3) closer_step.call] have "?go ?b ?c6" using flags(2) by simp
  moreover have "closer_step InCallback ?c6 ?c7"
    using closer_step.stop_check [of ?c6 InCallback] flags(1) by (simp add: threads_started_def)
  ultimately have at: "?go ?b ?c7" using client_more(2) [OF _ alive(2) runs(4)] by blast
  let ?w = "\<lparr>wb = ?b\<lparr>ppc := (ppc ?b)(i := Adding d)\<rparr>, wc = ?c7\<rparr>"
  have "producer_step ?b [] (wb ?w)"
    using producer_step.call [of ?b i d] d by (simp add: sys_at_def MAX_PACKET_SIZE_def)
  then have "whole_step tpm deflater inflater InCallback \<lparr>wb = ?b, wc = ?c7\<rparr> [] ?w"
    using whole_step.io [of "\<lparr>wb = ?b, wc = ?c7\<rparr>"] alive(2) runs(5) by (simp add: whole_runs_def)
  from whole_steps.step [OF at this] have w: "whole_steps tpm deflater inflater InCallback (whole_init nc) (buildPacket p) ?w"
    by simp
  have stuck: "whole_stuck i d ?w"
    using whole_good_reachable [OF w nc(1)] by (simp add: whole_stuck_def deadlocked_def sys_at_def)
  have "ppc (wb v) i = Adding d \<and> fed = [] \<and> hstate (wb v) = [p] \<and> xpc (wc v) = CloserJoinCheck"
    if "whole_steps tpm deflater inflater InCallback ?w fed v" for fed v
    using stuck_steps [OF that stuck] by (simp add: whole_stuck_def deadlocked_def sys_at_def)
  moreover have "whole_runs ?w" using runs(5) by (simp add: whole_runs_def sys_at_def worker_alive_def)
  ultimately show ?thesis using w by blast
qed

theorem arrivals_stuck_witness:
  "\<exists>w. whole_steps 1000 store_codec store_codec InCallback (whole_init sample_client) (buildPacket sample_pulse) w \<and>
     (\<forall>fed v. whole_steps 1000 store_codec store_codec InCallback w fed v \<longrightarrow> ppc (wb v) 0 = Adding [7])"
proof -
  have nc: "onReceivedHeartbeat sample_client" and id: "getID sample_pulse = parlo_id Heartbeat"
    by (simp_all add: sample_client_def sample_pulse_def getID_def)
  have len: "length (buildPacket sample_pulse) = 21"
    by (simp add: length_buildPacket sample_pulse_def packet_header_def hb_toByteArray_def)
  have "sendable sample_pulse"
    unfolding sendable_def len
    by (simp add: wf_packet_def sample_pulse_def packet_header_def hb_toByteArray_def)
  moreover have "length (buildPacket sample_pulse) \<le> 1024" "length ([7] :: bytes) \<le> 1024" by (simp_all add: len)
  ultimately obtain w where
    "whole_steps 1000 store_codec store_codec InCallback (whole_init sample_client) (buildPacket sample_pulse) w"
    "\<forall>fed v. whole_steps 1000 store_codec store_codec InCallback w fed v \<longrightarrow>
       ppc (wb v) 0 = Adding [7] \<and> fed = [] \<and> hstate (wb v) = [sample_pulse] \<and> xpc (wc v) = CloserJoinCheck"
    using arrivals_stuck [OF sample_client_started nc _ _ id sample_pulse_accepted, of "[7]"] by blast
  then show ?thesis by blast
qed

end
