(* ===== verification/Spec2Isabelle.thy ===== *)
theory Spec2Isabelle
  imports Encrypted_Packet Write_Buffers Client_Departure Sockets Handler_Setup Utilities
    Buffer_Object Buffer_Tests Data_Races Teardown Watchdog Public_Interface Lifecycle Whole_Progress
begin

text \<open>
  A verification development for Parlo++, a C++ library for packets over TCP connections (asio for
  the network, zlib for compression, CryptoPP for encrypted packets). The code is under src/.

  The program. A \<open>NetworkClient\<close> (NetworkClient.cpp) sends built packets (\<open>Packet\<close>, Packet.cpp) and
  receives chunks of bytes, which it puts into its \<open>ProcessingBuffer\<close> (ProcessingBuffer.cpp). The
  buffer's own thread cuts the bytes into packets again and calls the client's packet handler,
  which dispatches on the packet's ID: goodbyes (GoodbyePacket.cpp), heartbeats
  (HeartbeatPacket.cpp) or data, decompressed if the packet says so. Two more threads of a client
  send heartbeats and count the missing ones. A \<open>Listener\<close> (Listener.cpp) accepts connections and
  keeps its clients in a \<open>BlockingQueue\<close> (BlockingQueue.h) until they disconnect or are lost.

  The theories, and what they model.

  Parlo_Prelude: machine integers, exceptions as the left side of a sum (also std::terminate,
  undefined behaviour and a loop that does not return), \<open>and_then\<close> for statements in sequence,
  checked 64-bit arithmetic and the truncating division of duration_cast, the collections
  \<open>result_simps\<close>, \<open>codec_simps\<close>, \<open>frame_simps\<close> and \<open>client_simps\<close>.

  Wire_Format: the byte encodings (the 16-bit length, 64-bit counts through memcpy, little endian
  as on every platform the library builds for) and their locales \<open>fixed_codec\<close> and
  \<open>bijective_codec\<close>, interpreted on the code's encodings.

  Packet: both constructors, the getters, \<open>buildPacket\<close>; the invariant \<open>wf_packet\<close>.

  Frame_Stream: the locale \<open>framed_worker\<close>, the contract between a buffer that is fed chunks and a
  worker that delivers frames, with what follows for every interleaving of arrivals and turns.

  Processing_Buffer: the queue of bytes and the header fields as the record \<open>procbuf\<close>; \<open>addData\<close>,
  the index operator, \<open>bufferCount\<close>, \<open>readHeader\<close> and one iteration of \<open>processPackets\<close> with its
  16-bit loop counter. \<open>next_frame\<close> is the abstract framing, \<open>pending\<close> the abstraction; the
  interpretation \<open>pb\<close> proves the refinement and carries the properties. A size_t is 64 bits; the
  queue is assumed to hold at most \<open>queue_cap\<close> = 2^63 bytes (max_size() of the standard
  libraries' deque is smaller), which keeps the wrapped size of a negative payload unreachable.

  Worker_Threads: the same buffer with its thread, any number of callers of \<open>addData\<close> and the
  destructor, one rule per atomic action over mutex, condition variable and flag; the invariant,
  the refinement to the sequential interleavings, and the lost wake-up of the destructor.

  Heartbeat_Packet and Goodbye_Packet: the two payloads, with the clock's ticks per millisecond
  and per second as parameters.

  Compression: \<open>shouldCompressData\<close> and the two zlib loops; zlib is the parameter \<open>codec\<close>, its
  documented behaviour \<open>zlib_contract\<close> (satisfied by \<open>store_codec\<close>).

  Network_Client: the client's state \<open>nclient\<close>, the packet handler, \<open>sendAsync\<close>, \<open>receiveAsync\<close>,
  \<open>connectAsync\<close> and the completions of the operations they start, the rounds of both heartbeat
  threads, \<open>disconnectAsync\<close> and the destructor. What the client asks of asio and every handler
  it calls is recorded in \<open>trace\<close>. \<open>nc_step\<close> is everything that can happen to a client in any
  order; \<open>evolves\<close> is what every step keeps. Here the rounds of the threads are atomic and a write is
  the request alone; the theories after it look inside.

  Write_Buffers: what an asynchronous write does with the caller's vector. \<open>wstate\<close> has a store of
  blocks, live or freed, the writes under way with what each has written, and the wire; asio writes
  in pieces. Callers who keep their buffers and start one write at a time are served faithfully;
  the library's own heartbeats and goodbyes are temporaries, and overlapping sends mix.

  Client_Threads: the check thread, the sending thread, the worker in the heartbeat branch and the
  caller that stops the threads, one rule per atomic action over \<open>aliveMutex\<close>, \<open>heartbeatsMutex\<close> and
  the flags (\<open>ct_step\<close>; a round of the sender is one action). The invariant \<open>ct_inv\<close> says who holds
  which mutex and what each join has established, \<open>closing_rank\<close> decreases on the way to the end of
  the call, and the rules refine the rounds of Network_Client. What goes wrong: closing inside the
  heartbeat handler, and the comparison of the counter outside the lock.

  Whole_Client: the threads of the buffer and those of the client in one system (\<open>whole_step\<close>). They
  meet in the call of the packet handler, during which the worker holds the buffer's mutex and takes
  the client's. Every schedule projects to one of Worker_Threads and one of Client_Threads, and
  \<open>data_inv\<close> says what the user's data handler has been given.

  Whole_Progress: what the threads of that system wait for. \<open>release_rank\<close>, \<open>drain_rank\<close> and
  \<open>closing_rank\<close> decrease on the way to a free mutex, to an empty queue and to the end of a closing
  call; \<open>whole_stuck\<close> is where a call inside the heartbeat handler ends up.

  Teardown: the same threads while the client is being destroyed and packets still arrive.

  Watchdog: histories of rounds of the check thread and packets in any order; \<open>silence\<close> is the
  specification of when the watchdog reports.

  Data_Races: what the next action of every thread of Worker_Threads and Client_Threads reads and
  writes, which of these accesses a mutex keeps apart (the locale \<open>lock_discipline\<close>, interpretations
  \<open>pbd\<close> and \<open>ncd\<close>), and the conflicts that are left.

  Client_Departure: the owners of a client of a Listener (the queue, the user's shared_ptrs), and
  the destructor on the thread that lets go last. \<open>d_step\<close> is everything that can happen; \<open>careful\<close>
  is the rule that keeps the process alive. \<open>held\<close>, whether a pending operation of asio owns the
  Impl too, is a parameter.

  Sockets: the Socket class over an asio socket, and the one Socket object that all clients of a
  listener refer to.

  Lifecycle: a client on its socket through connects, errors and disconnects in any order, with an
  automaton of six phases as the reference (\<open>life_abs\<close> is the abstraction, \<open>matches\<close> the refinement).

  Handler_Setup: setting the buffer's handler while its worker runs.

  Buffer_Object: the public class ProcessingBuffer, whose destructor does the work of the Impl's
  destructor before that runs. It refines the system of Worker_Threads; \<open>left_alone\<close> are the steps of
  worker and destructor alone, and \<open>hung\<close> are the states in which they do not get to the end.

  Buffer_Tests: the repository's tests of the buffer, with a verdict for every schedule.

  Public_Interface: the classes Packet, NetworkClient and Listener of Parlo.h, whose members call
  those of the Impl, and a reference automaton for programs that use a client.

  Blocking_Queue: the bounded queue with its locale \<open>registry\<close> (interpretation \<open>bq\<close>), and the
  callers of \<open>add\<close> that wait for room as a step relation.

  Listener: starting, stopping, the accept loop, the completion of an accept, and the
  notifications of its clients, on the queue through the facts of \<open>bq\<close>.

  Encrypted_Packet: the encrypted packet over CryptoPP as a parameter, and the hex decoder with
  std::stoi written out.

  Utilities: Logger, PacketHandler and the entry point of the Windows library. Without DEBUG the body of \<open>Log\<close> is empty, and with it the
  other components do not depend on what it does, so their models leave it out.

  This theory: properties that span components. A stream of messages, compressed or not, from the
  packets that are sent to the calls of the receiver's data handler, and the same for a whole
  session, with the sender's buffers and partial writes on one side and partial arrival on the
  other, first for a receiver that takes turns and then for one with all its threads; heartbeats and goodbyes from the bytes one side builds to what the other side does; the
  watchdog of a silent client and the listener's queue.

  Loops. \<open>fill_payload\<close> and \<open>z_loop\<close> are partial functions into an option, and theorems say that
  they return (\<open>z_loop\<close> for a zlib whose every Z_OK makes progress). The worker's loop is a
  sequence of turns, of which any number may happen; \<open>checkForMissedHeartbeats\<close> and the accept
  loop take the number of their rounds, as only another thread ends them.

  What the theorems show of the code as it is: reassembly is exact for every chunking and
  schedule, the queue's notifications are enough, encodings round-trip. They also pin down where
  the code falls short of its intent: a heartbeat is 16 bytes and its parser wants 17, so a
  received heartbeat ends the process; a length below 4 stalls a connection and a length of 4 ends
  the process; the Impl objects are held by unique_ptr, so everything that calls their
  shared_from_this() raises; data that is to be compressed is refused; a client cannot be
  disconnected from its own watchdog or heartbeat handler, where it takes its network threads with it,
  and cannot be connected a second time; writes refer to memory that is gone; a
  client that only the listener owns takes the process with it, and so does one that is destroyed
  while packets arrive; the round-trip time and \<open>owner\<close> are raced for; all clients of a listener
  share one socket; an encrypted packet encrypts nothing. Theorems about clients with \<open>implShared\<close> say what
  holds once a shared_ptr owns the Impl, as the code intends.

  Not modelled: asio, zlib and CryptoPP themselves; the native handles Socket gives out;
  \<open>getSharedPtr\<close>, which is std::enable_shared_from_this; \<open>tryTake()\<close> and \<open>take()\<close> of the queue, which call
  a member std::deque does not have; the precompiled header and framework.h. Steps are
  atomic and memory is sequentially consistent: Data_Races says where the code relies on more than
  C++ gives it. The accesses of the user's setters on a running client, which take no mutex, are
  left out there.
\<close>

section \<open>Streams a client receives\<close>

text \<open>A built TCP packet alone in the stream is one frame.\<close>

lemma one_frame:
  assumes "\<not> p_isUDP p" "4 + length (p_data p) < 65536" "p_length p = word_of_nat (4 + length (p_data p))"
  shows "frames_of next_frame (buildPacket p) = [(p_id p, p_isCompressed p \<noteq> 0, p_data p)]"
proof -
  have "unat (p_length p) = 4 + length (p_data p)"
    using assms(2,3) by (simp add: unat_of_nat del: of_nat_add)
  then have "next_frame (buildPacket p) = Some ((p_id p, p_isCompressed p \<noteq> 0, p_data p), [])"
    using assms(1) by (simp add: codec_simps frame_simps)
  then show ?thesis by (simp add: pb.frames_Some pb.frames_None)
qed

lemma heartbeat_frame:
  "frames_of next_frame ([0xFD, 0, 20, 0] @ hb_toByteArray tpm h) = [(0xFD, False, hb_toByteArray tpm h)]"
proof -
  have "next_frame ([0xFD, 0, 20, 0] @ hb_toByteArray tpm h) = Some ((0xFD, False, hb_toByteArray tpm h), [])"
    by (simp add: unat_combine_length)
  then show ?thesis by (simp add: pb.frames_Some pb.frames_None)
qed

lemma goodbye_frame:
  "frames_of next_frame ([0xFF, 0, 20, 0] @ gb_toByteArray tps g) = [(0xFF, False, gb_toByteArray tps g)]"
proof -
  have "next_frame ([0xFF, 0, 20, 0] @ gb_toByteArray tps g) = Some ((0xFF, False, gb_toByteArray tps g), [])"
    by (simp add: unat_combine_length)
  then show ?thesis by (simp add: pb.frames_Some pb.frames_None)
qed

text \<open>
  A message is an ID, the data and whether it is sent compressed; \<open>carries\<close> relates it to the
  packet its sender builds, \<open>arrival\<close> is what the receiver's data handler is called with.
\<close>

type_synonym message = "byte \<times> bytes \<times> bool"

definition carries :: "'z codec \<Rightarrow> message \<Rightarrow> packet \<Rightarrow> bool" where
  "carries deflater m p = (case m of (i, d, compressed) \<Rightarrow>
     \<not> reserved i \<and> d \<noteq> [] \<and> length (buildPacket p) < 65536 \<and>
     and_then (if compressed then compressData deflater d else Inr d)
       (\<lambda>w. Packet_TCP i w compressed) = Inr p)"

definition arrival :: "message \<Rightarrow> nc_effect" where
  "arrival m = (case m of (i, d, compressed) \<Rightarrow> DataReceived
     \<lparr>p_id = i, p_isCompressed = 0, p_isReliable = 0, p_length = word_of_nat (4 + length d),
      p_data = d, p_isUDP = False\<rparr>)"

lemma carries_sendable:
  assumes "carries deflater m p"
  shows "sendable p"
proof -
  obtain i d c where "m = (i, d, c)" by (cases m) auto
  with assms obtain w where w: "Packet_TCP i w c = Inr p" and "length (buildPacket p) < 65536"
    by (auto simp: carries_def and_then_Inr_iff split: if_splits)
  moreover from w have "\<not> p_isUDP p" by (auto simp: Packet_TCP_Inr_iff)
  ultimately show ?thesis using wf_Packet_TCP [OF w] by (simp add: sendable_def)
qed

text \<open>The handler of a client, given one frame that carries a message.\<close>

lemma message_delivered:
  assumes zlib: "zlib_contract deflater inflater DEFLATE" and m: "carries deflater m p"
    and nc: "onReceivedData nc" "clientShared nc"
  shows "\<exists>nc'. deliver_frame (Some (on_packet_socket tpm now inflater)) (frame_of p) nc = Inr nc' \<and>
    trace nc' = trace nc @ [arrival m] \<and> onReceivedData nc' \<and> clientShared nc'"
proof -
  obtain i d c where mm: "m = (i, d, c)" by (cases m) auto
  with m obtain w where id: "\<not> reserved i" "d \<noteq> []"
    and w: "(if c then compressData deflater d else Inr d) = Inr w" and p: "Packet_TCP i w c = Inr p"
    by (auto simp: carries_def and_then_Inr_iff)
  have plain: "decompressData inflater w = Inr d" if c
    using w that zlib id(2) emits_deterministic
    by (fastforce simp: client_simps zlib_contract_def)
  have again: "Packet_TCP i w (p_isCompressed p \<noteq> 0) = Inr p"
    using p by (auto simp: Packet_TCP_Inr_iff)
  obtain r where r: "Packet_TCP i d False = Inr r" "arrival m = DataReceived r"
    using id(2) mm by (simp add: Packet_TCP_nonempty arrival_def)
  have "on_packet_socket tpm now inflater p nc = Inr (emit (DataReceived r) (nc\<lparr>ownerSet := True\<rparr>))"
  proof (cases c)
    case True
    with p have "p_id p = i" "p_data p = w" "p_isCompressed p = 1" by (auto simp: Packet_TCP_Inr_iff)
    with True id(1) nc plain r show ?thesis by (simp add: on_packet_socket_def on_packet_def reserved_eq)
  next
    case False
    with p w have "p_id p = i" "p_data p = d" "p_isCompressed p = 0" by (auto simp: Packet_TCP_Inr_iff)
    with id(1) nc r show ?thesis by (simp add: on_packet_socket_def on_packet_def reserved_eq)
  qed
  moreover have "frame_of p = (i, p_isCompressed p \<noteq> 0, w)" using p by (auto simp: frame_of_def Packet_TCP_Inr_iff)
  ultimately show ?thesis
    using again nc r(2) by (simp add: deliver_frame_def call_handler_def emit_def)
qed

lemma messages_delivered:
  assumes zlib: "zlib_contract deflater inflater DEFLATE"
  shows "list_all2 (carries deflater) ms ps \<Longrightarrow> onReceivedData nc \<Longrightarrow> clientShared nc \<Longrightarrow>
    \<exists>nc'. deliver_all (deliver_frame (Some (on_packet_socket tpm now inflater))) (map frame_of ps) nc = Inr nc' \<and>
      trace nc' = trace nc @ map arrival ms"
proof (induction ms ps arbitrary: nc rule: list_all2_induct)
  case Nil
  then show ?case by simp
next
  case (Cons m ms p ps)
  from message_delivered [OF zlib Cons.hyps(1) Cons.prems] obtain nc1 where nc1:
    "deliver_frame (Some (on_packet_socket tpm now inflater)) (frame_of p) nc = Inr nc1"
    "trace nc1 = trace nc @ [arrival m]" "onReceivedData nc1" "clientShared nc1" by blast
  from Cons.IH [OF nc1(3,4)] nc1(1,2) show ?case by auto
qed

lemma messages_sendable: "list_all2 (carries deflater) ms ps \<Longrightarrow> \<forall>p \<in> set ps. sendable p"
  by (induction ms ps rule: list_all2_induct) (auto dest: carries_sendable)

lemma messages_received:
  assumes "zlib_contract deflater inflater DEFLATE"
    and "list_all2 (carries deflater) ms ps" "onReceivedData nc" "clientShared nc"
    and "fed_bytes pb_accepts evs = concat (map buildPacket ps)"
    and "length (fed_bytes pb_accepts evs) \<le> queue_cap" "length ms \<le> n"
  shows "\<exists>pb nc'. run_events pb_feed (worker_turn (Some (on_packet_socket tpm now inflater)))
      (evs @ replicate n Work) (pb_init, nc) = Inr (pb, nc') \<and>
    trace nc' = trace nc @ map arrival ms"
proof -
  note ps = messages_sendable [OF assms(2)]
  have fs: "frames_of next_frame (fed_bytes pb_accepts evs) = map frame_of ps"
    using frames_of_packets [OF ps, of "[]"] assms(5) by (simp add: pb.frames_None)
  have len: "length (map frame_of ps) \<le> n" using assms(2,7) by (simp add: list_all2_lengthD)
  from messages_delivered [OF assms(1-4)] obtain nc' where
    "deliver_all (deliver_frame (Some (on_packet_socket tpm now inflater))) (map frame_of ps) nc = Inr nc'"
    "trace nc' = trace nc @ map arrival ms" by blast
  with complete_run [OF refl assms(6) fs len, of "Some (on_packet_socket tpm now inflater)" nc]
  show ?thesis by auto
qed

lemma first_messages_received:
  assumes zlib: "zlib_contract deflater inflater DEFLATE"
    and ms: "list_all2 (carries deflater) ms ps" and nc: "onReceivedData nc" "clientShared nc"
    and fed: "prefix (fed_bytes pb_accepts evs) (concat (map buildPacket ps))"
    and cap: "length (fed_bytes pb_accepts evs) \<le> queue_cap"
  shows "\<exists>pb nc' k. run_events pb_feed (worker_turn (Some (on_packet_socket tpm now inflater))) evs (pb_init, nc) =
      Inr (pb, nc') \<and> k \<le> length ms \<and> trace nc' = trace nc @ map arrival (take k ms)"
proof -
  let ?d = "deliver_frame (Some (on_packet_socket tpm now inflater))"
  let ?run = "run_events pb_feed (worker_turn (Some (on_packet_socket tpm now inflater))) evs (pb_init, nc)"
  have deliver: "\<exists>nc'. deliver_all ?d ds nc = Inr nc' \<and>
      trace nc' = trace nc @ map arrival (take (length ds) ms) \<and> length ds \<le> length ms"
    if "frames_of next_frame (fed_bytes pb_accepts evs) = ds @ es" for ds es
  proof -
    from frames_of_prefix [OF fed messages_sendable [OF ms]] that obtain tail where
      "map frame_of ps = ds @ es @ tail" by auto
    then have "ds = take (length ds) (map frame_of ps)" by simp
    then have ds: "ds = map frame_of (take (length ds) ps)" by (simp only: take_map)
    have "list_all2 (carries deflater) (take (length ds) ms) (take (length ds) ps)"
      using ms by (rule list_all2_takeI)
    from messages_delivered [OF zlib this nc] ds have
      "\<exists>nc'. deliver_all ?d ds nc = Inr nc' \<and> trace nc' = trace nc @ map arrival (take (length ds) ms)" by metis
    moreover have "length ds \<le> length ms"
      using \<open>map frame_of ps = ds @ es @ tail\<close> list_all2_lengthD [OF ms]
      by (metis length_append length_map le_add1)
    ultimately show ?thesis by blast
  qed
  have cap': "length (pending pb_init) + length (fed_bytes pb_accepts evs) \<le> queue_cap" using cap by simp
  show ?thesis
  proof (cases ?run)
    case (Inl e)
    from pb.run_failure [OF pb_inv_init cap' this] obtain ds es where
      "frames_of next_frame (fed_bytes pb_accepts evs) = ds @ es" "deliver_all ?d ds nc = Inl e" by auto
    with deliver show ?thesis by fastforce
  next
    case (Inr s)
    then obtain pb nc' where s: "?run = Inr (pb, nc')" by (cases s) auto
    from pb.run_prefix [OF pb_inv_init cap' s] obtain ds where
      "frames_of next_frame (fed_bytes pb_accepts evs) = ds @ frames_of next_frame (pending pb)"
      "deliver_all ?d ds nc = Inr nc'" by auto
    with deliver s show ?thesis by fastforce
  qed
qed

text \<open>What the threads of a receiving client hand over, for packets that carry messages.\<close>

lemma carries_user:
  assumes "zlib_contract deflater inflater DEFLATE" "carries deflater m p"
  shows "map DataReceived (user_packets inflater p) = [arrival m]"
proof -
  obtain i d c where mm: "m = (i, d, c)" by (cases m) auto
  with assms(2) obtain w where id: "\<not> reserved i" "d \<noteq> []"
    and w: "(if c then compressData deflater d else Inr d) = Inr w" and p: "Packet_TCP i w c = Inr p"
    by (auto simp: carries_def and_then_Inr_iff)
  have plain: "decompressData inflater w = Inr d" if c
    using w that assms(1) id(2) emits_deterministic by (fastforce simp: client_simps zlib_contract_def)
  obtain r where r: "Packet_TCP i d False = Inr r" "arrival m = DataReceived r"
    using id(2) mm by (simp add: Packet_TCP_nonempty arrival_def)
  have "p_id p = i" "p_data p = w" "p_isCompressed p = (if c then 1 else 0)"
    using p by (auto simp: Packet_TCP_Inr_iff)
  with id(1) plain r w show ?thesis by (cases c) (simp_all add: user_packets_def reserved_eq)
qed

lemma carries_users:
  assumes "zlib_contract deflater inflater DEFLATE"
  shows "list_all2 (carries deflater) ms ps \<Longrightarrow>
    map DataReceived (concat (map (user_packets inflater) ps)) = map arrival ms"
  by (induction ms ps rule: list_all2_induct) (simp_all add: carries_user [OF assms])

section \<open>Properties\<close>

text \<open>Messages from end to end. Given zlib's documented behaviour, if the bytes a client receives are those
  of packets that carry messages (compressed or not, IDs outside the reserved ones), its data
  handler is called exactly once for each message, in order, with a packet that has the message's
  ID and the original data, however the bytes were cut into chunks of at most 1024 and however the
  arrivals interleaved with the worker.\<close>

theorem messages_end_to_end:
  assumes "zlib_contract deflater inflater DEFLATE"
    and "list_all2 (carries deflater) ms ps" "onReceivedData nc" "clientShared nc"
    and "fed_bytes pb_accepts evs = concat (map buildPacket ps)"
    and "length (fed_bytes pb_accepts evs) \<le> queue_cap" "length ms \<le> n"
  shows "\<exists>pb nc'. run_events pb_feed (worker_turn (Some (on_packet_socket tpm now inflater)))
      (evs @ replicate n Work) (pb_init, nc) = Inr (pb, nc') \<and>
    trace nc' = trace nc @ map arrival ms"
  by (rule messages_received [OF assms])

theorem messages_end_to_end_witness:
  "\<exists>p pb nc'. Packet_TCP 1 [7, 8] True = Inr p \<and>
     run_events pb_feed (worker_turn (Some (on_packet_socket 1000 0 store_codec)))
       ([Arrive [1, 1, 6], Work, Arrive [0, 7, 8]] @ replicate 1 Work)
       (pb_init, (nc_init 0 True True)\<lparr>onReceivedData := True\<rparr>) = Inr (pb, nc') \<and>
     trace nc' = [arrival (1, [7, 8], True)]"
proof -
  obtain p where p: "Packet_TCP 1 [7, 8] True = Inr p" by (simp add: Packet_TCP_nonempty)
  have "compressData store_codec [7, 8] = Inr [7, 8]"
    using store_contract by (simp add: zlib_contract_def client_simps)
  moreover have "buildPacket p = [1, 1, 6, 0, 7, 8]"
    using p by (auto simp: Packet_TCP_Inr_iff codec_simps length_bytes_def length_low_def length_high_def)
  ultimately have *: "list_all2 (carries store_codec) [(1, [7, 8], True)] [p]"
    "concat (map buildPacket [p]) = [1, 1, 6, 0, 7, 8]"
    using p by (simp_all add: carries_def reserved_eq)
  have "\<exists>pb nc'. run_events pb_feed (worker_turn (Some (on_packet_socket 1000 0 store_codec)))
      ([Arrive [1, 1, 6], Work, Arrive [0, 7, 8]] @ replicate 1 Work)
      (pb_init, (nc_init 0 True True)\<lparr>onReceivedData := True\<rparr>) = Inr (pb, nc') \<and>
    trace nc' = trace ((nc_init 0 True True)\<lparr>onReceivedData := True\<rparr>) @ map arrival [(1, [7, 8], True)]"
    by (rule messages_end_to_end [OF store_contract *(1)])
      (simp_all only: *(2), simp_all add: nc_init_def pb_accepts_def MAX_PACKET_SIZE_def queue_cap_def)
  with p show ?thesis by (auto simp: nc_init_def)
qed

text \<open>C28: The library's own heartbeats end the process that receives them. Whatever the state of the client,
  the clocks of both sides and the way the bytes arrive, once the bytes of one heartbeat the code
  builds are in, the worker raises std::runtime_error out of its thread.\<close>

theorem heartbeat_ends_receiver:
  assumes "heartbeat_bytes tpm now t = Inr bs" "fed_bytes pb_accepts evs = bs" "0 < n"
  shows "run_events pb_feed (worker_turn (Some (on_packet_socket tpm' now' inflater)))
      (evs @ replicate n Work) (pb_init, nc) =
    Inl (Runtime_error ''HeartbeatPacket::byteArrayToObject(): Invalid byte array size for HeartbeatPacket.'')"
proof -
  let ?h = "HeartbeatPacket now t"
  have bs: "bs = [0xFD, 0, 20, 0] @ hb_toByteArray tpm ?h"
    using assms(1) by (simp add: heartbeat_bytes_eq)
  have fs: "frames_of next_frame bs = [(0xFD, False, hb_toByteArray tpm ?h)]"
    unfolding bs by (rule heartbeat_frame)
  have cap: "length bs \<le> queue_cap" by (simp add: bs queue_cap_def)
  have "deliver_all (deliver_frame (Some (on_packet_socket tpm' now' inflater)))
      [(0xFD, False, hb_toByteArray tpm ?h)] nc =
    Inl (Runtime_error ''HeartbeatPacket::byteArrayToObject(): Invalid byte array size for HeartbeatPacket.'')"
    by (simp add: deliver_frame_def Packet_TCP_nonempty call_handler_def on_packet_socket_def
        on_packet_def on_heartbeat_def)
  with complete_run [OF assms(2) cap fs, of n "Some (on_packet_socket tpm' now' inflater)" nc] assms(3)
  show ?thesis by simp
qed

theorem heartbeat_ends_receiver_witness:
  "run_events pb_feed (worker_turn (Some (on_packet_socket 1000 0 store_codec)))
     ([Arrive ([0xFD, 0, 20, 0] @ hb_toByteArray 1000 (HeartbeatPacket 5000 0))] @ replicate 1 Work)
     (pb_init, nc_init 0 True True) =
   Inl (Runtime_error ''HeartbeatPacket::byteArrayToObject(): Invalid byte array size for HeartbeatPacket.'')"
  by (rule heartbeat_ends_receiver [OF heartbeat_bytes_eq])
    (simp_all add: pb_accepts_def MAX_PACKET_SIZE_def)

text \<open>C29: The goodbye packet a client writes when it disconnects is understood by the other side: however its
  bytes arrive, the client-disconnected handler is called once, nothing else happens to the
  client, and the payload parses to the timeout of 5 seconds and the time it was sent, in whole
  seconds.\<close>

theorem goodbye_understood:
  assumes "goodbye_bytes tps sent = Inr bs" "fed_bytes pb_accepts evs = bs" "0 < n"
    and "0 < tps" "\<bar>sent\<bar> < 2 ^ 63" "onClientDisconnected nc" "clientShared nc"
  shows "(\<exists>pb. run_events pb_feed (worker_turn (Some (on_packet_socket tpm now inflater)))
      (evs @ replicate n Work) (pb_init, nc) =
        Inr (pb, nc\<lparr>ownerSet := True, trace := trace nc @ [ClientDisconnected]\<rparr>)) \<and>
    gb_fromByteArray tps (drop 4 bs) = Inr \<lparr>timeout = 5, sentTime = (sent sdiv tps) * tps\<rparr>"
proof -
  let ?g = "GoodbyePacket sent 5"
  have bs: "bs = [0xFF, 0, 20, 0] @ gb_toByteArray tps ?g"
    using assms(1) by (simp add: goodbye_bytes_eq)
  have fs: "frames_of next_frame bs = [(0xFF, False, gb_toByteArray tps ?g)]"
    unfolding bs by (rule goodbye_frame)
  have cap: "length bs \<le> queue_cap" by (simp add: bs queue_cap_def)
  have "deliver_all (deliver_frame (Some (on_packet_socket tpm now inflater)))
      [(0xFF, False, gb_toByteArray tps ?g)] nc =
    Inr (nc\<lparr>ownerSet := True, trace := trace nc @ [ClientDisconnected]\<rparr>)"
    using assms(6,7) by (simp add: deliver_frame_def Packet_TCP_nonempty call_handler_def
        on_packet_socket_def on_packet_def fire_def emit_def)
  moreover have "gb_valid ?g" using assms(5) by (simp add: gb_valid_def GoodbyePacket_def in_i64_def)
  then have "gb_fromByteArray tps (drop 4 bs) = Inr \<lparr>timeout = 5, sentTime = (sent sdiv tps) * tps\<rparr>"
    using gb_parse_serialized [of ?g tps "[]"] assms(4) by (simp add: bs to_seconds_def GoodbyePacket_def)
  ultimately show ?thesis
    using complete_run [OF assms(2) cap fs, of n "Some (on_packet_socket tpm now inflater)" nc] assms(3)
    by auto
qed

theorem goodbye_understood_witness:
  "gb_fromByteArray 1000 (drop 4 ([0xFF, 0, 20, 0] @ gb_toByteArray 1000 (GoodbyePacket 7999 5))) =
     Inr \<lparr>timeout = 5, sentTime = 7000\<rparr>"
  using goodbye_understood [OF goodbye_bytes_eq [of 1000 7999], where n = 1
      and evs = "[Arrive ([0xFF, 0, 20, 0] @ gb_toByteArray 1000 (GoodbyePacket 7999 5))]"
      and nc = "(nc_init 0 True True)\<lparr>onClientDisconnected := True\<rparr>"
      and tpm = 1 and now = 0 and inflater = store_codec]
  by (simp add: pb_accepts_def MAX_PACKET_SIZE_def nc_init_def sdiv_lower_eq)

text \<open>A client that stops answering leaves its listener once: after n silent rounds of its watchdog, the
  listener's queue has lost exactly that client if n is above 6 and nothing otherwise, although the
  watchdog reports the loss in every further round.\<close>

theorem silent_client_unregistered:
  assumes "isAlive nc" "missedHeartbeats nc = 0" "\<not> stopCheckMissedHeartbeats nc"
    and "ownerSet nc" "clientShared nc" "onConnectionLost nc" "n < 2 ^ 31" "trace nc = []"
    and "distinct (queue (clients l))"
  shows "\<exists>nc'. checkForMissedHeartbeats n nc = Inr nc' \<and>
    queue (clients (fold (client_event c) (trace nc') l)) =
      (if 6 < n then filter (\<lambda>d. d \<noteq> c) (queue (clients l)) else queue (clients l))"
proof -
  from check_rounds [of nc 0 n] assms(1-7) obtain nc' where
    run: "checkForMissedHeartbeats n nc = Inr nc'" "trace nc' = trace nc @ replicate (n - 6) ConnectionLost"
    by auto
  have "ConnectionLost \<in> set (trace nc') \<longleftrightarrow> 6 < n" "ClientDisconnected \<notin> set (trace nc')"
    using run(2) assms(8) by (auto simp: in_set_replicate)
  with run(1) client_events_queue [of l c "trace nc'"] assms(9) show ?thesis
    by (simp add: clients_def)
qed

theorem silent_client_unregistered_witness:
  "\<exists>nc'. checkForMissedHeartbeats 9 ((nc_init 0 True True)\<lparr>ownerSet := True, onConnectionLost := True\<rparr>) = Inr nc' \<and>
     queue (clients (fold (client_event 2) (trace nc')
       ((Listener True)\<lparr>networkClients := \<lparr>queue = [1, 2, 3 :: nat], capacity = 9\<rparr>\<rparr>))) = [1, 3]"
  using silent_client_unregistered [of "(nc_init 0 True True)\<lparr>ownerSet := True, onConnectionLost := True\<rparr>" 9
      "(Listener True)\<lparr>networkClients := \<lparr>queue = [1, 2, 3 :: nat], capacity = 9\<rparr>\<rparr>" 2]
  by (simp add: nc_init_def clients_def)

text \<open>A whole session, sender and receiver. The sender's callers keep a buffer until its write has
  completed and start one write at a time, and what they send are packets that carry messages; asio
  writes in pieces as it likes and writes may fail. The receiver gets some of the bytes that have
  reached the wire, cut into any chunks. At every moment, nothing has been raised and the data
  handler has been called for the first messages, in order, each once, with the original data; and
  when no write is under way or has failed, all bytes have arrived and the worker has had its turns,
  for all of them.\<close>

theorem session_delivers:
  assumes "zlib_contract deflater inflater DEFLATE"
    and "w_reachable deflater one_at_a_time not_in_use nc0 w" "written (trace nc0) = []"
    and "written (trace (client w)) = concat (map buildPacket ps)" "list_all2 (carries deflater) ms ps"
    and "onReceivedData nc" "clientShared nc"
    and "prefix (fed_bytes pb_accepts evs) (wire w)" "length (wire w) \<le> queue_cap"
  shows "(\<exists>pb nc' k. run_events pb_feed (worker_turn (Some (on_packet_socket tpm now inflater))) evs (pb_init, nc) =
      Inr (pb, nc') \<and> k \<le> length ms \<and> trace nc' = trace nc @ map arrival (take k ms)) \<and>
    (writes w = [] \<and> connected (client w) \<and> fed_bytes pb_accepts evs = wire w \<and> length ms \<le> n \<longrightarrow>
      (\<exists>pb nc'. run_events pb_feed (worker_turn (Some (on_packet_socket tpm now inflater)))
          (evs @ replicate n Work) (pb_init, nc) = Inr (pb, nc') \<and>
        trace nc' = trace nc @ map arrival ms))"
proof -
  have order: "orderly [] w" using orderly_reachable [OF assms(2)] assms(3) by simp
  then have wire: "prefix (wire w) (concat (map buildPacket ps))"
  proof (cases rule: orderly_cases)
    case (busy a d k)
    with assms(4) have "concat (map buildPacket ps) = wire w @ drop k d" by simp
    then show ?thesis by (rule prefixI)
  qed (use assms(4) in simp)
  have cap: "length (fed_bytes pb_accepts evs) \<le> queue_cap"
    using prefix_length_le [OF assms(8)] assms(9) by simp
  have all: "fed_bytes pb_accepts evs = concat (map buildPacket ps)"
    if "writes w = [] \<and> connected (client w) \<and> fed_bytes pb_accepts evs = wire w \<and> length ms \<le> n"
    using order that assms(4) by (cases rule: orderly_cases) auto
  show ?thesis
    using first_messages_received [OF assms(1,5-7) prefix_order.trans [OF assms(8) wire] cap, of tpm now]
      messages_received [OF assms(1,5-7) all cap, of n tpm now] by blast
qed

theorem session_delivers_witness:
  "\<exists>(w :: wstate) pb nc'. wire w = [1, 0, 5, 0, 7] \<and>
     run_events pb_feed (worker_turn (Some (on_packet_socket 1 0 store_codec)))
       ([Arrive [1, 0], Work, Arrive [5, 0, 7]] @ replicate 1 Work)
       (pb_init, (nc_init 0 True True)\<lparr>onReceivedData := True\<rparr>) = Inr (pb, nc') \<and>
     trace nc' = [arrival (1, [7], False)]"
proof -
  let ?nc = "(nc_init 0 True True)\<lparr>implShared := True\<rparr>" and ?d = "[1, 0, 5, 0, 7] :: bytes"
  obtain p where p: "Packet_TCP 1 [7] False = Inr p" by (simp add: Packet_TCP_nonempty)
  then have d: "buildPacket p = ?d"
    by (auto simp: Packet_TCP_Inr_iff codec_simps length_bytes_def length_low_def length_high_def)
  with p have m: "list_all2 (carries store_codec) [(1, [7], False)] [p]" by (simp add: carries_def reserved_eq)
  have "sendAsync store_codec ?d ?nc = Inr (emit (AsyncWrite ?d) ?nc)"
    by (simp add: sendAsync_eq compresses_def nc_init_def)
  from one_send [OF this] obtain w where
    w: "w_reachable store_codec one_at_a_time not_in_use ?nc w" "writes w = []" "wire w = ?d"
      "client w = emit (AsyncWrite ?d) ?nc" by blast
  have fed: "fed_bytes pb_accepts [Arrive [1, 0], Work, Arrive [5, 0, 7]] = ?d"
    by (simp add: pb_accepts_def MAX_PACKET_SIZE_def)
  have "\<exists>pb nc'. run_events pb_feed (worker_turn (Some (on_packet_socket 1 0 store_codec)))
       ([Arrive [1, 0], Work, Arrive [5, 0, 7]] @ replicate 1 Work)
       (pb_init, (nc_init 0 True True)\<lparr>onReceivedData := True\<rparr>) = Inr (pb, nc') \<and>
     trace nc' = trace ((nc_init 0 True True)\<lparr>onReceivedData := True\<rparr>) @ map arrival [(1, [7], False)]"
    by (rule session_delivers [OF store_contract w(1) _ _ m, THEN conjunct2, THEN mp])
      (use w fed d in \<open>simp_all add: nc_init_def queue_cap_def\<close>)
  then obtain pb nc' where run: "run_events pb_feed (worker_turn (Some (on_packet_socket 1 0 store_codec)))
       ([Arrive [1, 0], Work, Arrive [5, 0, 7]] @ replicate 1 Work)
       (pb_init, (nc_init 0 True True)\<lparr>onReceivedData := True\<rparr>) = Inr (pb, nc')"
    "trace nc' = trace ((nc_init 0 True True)\<lparr>onReceivedData := True\<rparr>) @ map arrival [(1, [7], False)]" by blast
  from run(2) have "trace nc' = [arrival (1, [7], False)]" by (simp add: nc_init_def)
  with w(3) run(1) show ?thesis by blast
qed



end
